(* ===== verification/Unicity_Prelude.thy ===== *)
theory Unicity_Prelude
  imports "HOL-Library.Word" "HOL-Library.List_Lexorder"
begin

unbundle bit_operations_syntax

text \<open>
  The vocabulary the component theories share: the machine types of the Rust sources, the
  \<open>Result\<close> type with its bind, checked and saturating arithmetic, big-endian byte
  strings, UTF-8 validity (the check behind \<open>core::str::from_utf8\<close>), and the two codec
  interfaces every wire format of the program implements.
\<close>

section \<open>Machine types\<close>

type_synonym u8 = "8 word"
type_synonym u16 = "16 word"
type_synonym u32 = "32 word"
type_synonym u64 = "64 word"
type_synonym u128 = "128 word"
type_synonym address = "160 word"
type_synonym bytes = "u8 list"

text \<open>
  \<open>B256\<close> is 32 bytes and \<open>U256\<close> their big-endian value; one 256-bit word stands for both, and
  \<open>b256_bytes\<close> is \<open>as_slice\<close>.
\<close>

type_synonym b256 = "256 word"

named_theorems result_iff
named_theorems codec_simps

section \<open>Results\<close>

fun rbind :: "'e + 'a \<Rightarrow> ('a \<Rightarrow> 'e + 'b) \<Rightarrow> 'e + 'b" where
  "rbind (Inl e) f = Inl e"
| "rbind (Inr a) f = f a"

fun map_err :: "('e \<Rightarrow> 'f) \<Rightarrow> 'e + 'a \<Rightarrow> 'f + 'a" where
  "map_err g (Inl e) = Inl (g e)"
| "map_err g (Inr a) = Inr a"

fun ok_or :: "'e \<Rightarrow> 'a option \<Rightarrow> 'e + 'a" where
  "ok_or e None = Inl e"
| "ok_or e (Some a) = Inr a"

definition is_ok :: "'e + 'a \<Rightarrow> bool" where
  "is_ok r = (case r of Inl _ \<Rightarrow> False | Inr _ \<Rightarrow> True)"

lemma is_ok_simps [simp]: "is_ok (Inr a)" "\<not> is_ok (Inl e)"
  by (simp_all add: is_ok_def)

lemma is_okE: "is_ok r \<Longrightarrow> (\<And>a. r = Inr a \<Longrightarrow> P) \<Longrightarrow> P"
  by (cases r) (auto simp: is_ok_def)

lemma rbind_Inr_iff [result_iff]: "rbind m f = Inr b \<longleftrightarrow> (\<exists>a. m = Inr a \<and> f a = Inr b)"
  by (cases m) auto

lemma rbind_Inl_iff: "rbind m f = Inl e \<longleftrightarrow> m = Inl e \<or> (\<exists>a. m = Inr a \<and> f a = Inl e)"
  by (cases m) auto

lemma map_err_Inr_iff [result_iff]: "map_err g m = Inr a \<longleftrightarrow> m = Inr a"
  by (cases m) auto

lemma map_err_Inl_iff: "map_err g m = Inl f \<longleftrightarrow> (\<exists>e. m = Inl e \<and> f = g e)"
  by (cases m) auto

lemma ok_or_Inr_iff [result_iff]: "ok_or e v = Inr a \<longleftrightarrow> v = Some a"
  by (cases v) auto

lemma if_Inl_Inr_iff [result_iff]:
  "(if c then Inl e else m) = Inr a \<longleftrightarrow> \<not> c \<and> m = Inr a"
  "(if c then m else Inl e) = Inr a \<longleftrightarrow> c \<and> m = Inr a"
  by auto

lemma rbind_assoc: "rbind (rbind m f) g = rbind m (\<lambda>a. rbind (f a) g)"
  by (cases m) auto

lemma rbind_cong [fundef_cong]:
  "m = m' \<Longrightarrow> (\<And>a. m' = Inr a \<Longrightarrow> f a = f' a) \<Longrightarrow> rbind m f = rbind m' f'"
  by (cases m') auto

section \<open>Checked arithmetic\<close>

definition checked_add :: "'a::len word \<Rightarrow> 'a word \<Rightarrow> 'a word option" where
  "checked_add a b = (if unat a + unat b < 2 ^ LENGTH('a) then Some (a + b) else None)"

definition checked_sub :: "'a::len word \<Rightarrow> 'a word \<Rightarrow> 'a word option" where
  "checked_sub a b = (if b \<le> a then Some (a - b) else None)"

definition checked_mul :: "'a::len word \<Rightarrow> 'a word \<Rightarrow> 'a word option" where
  "checked_mul a b = (if unat a * unat b < 2 ^ LENGTH('a) then Some (a * b) else None)"

definition abs_diff :: "'a::len word \<Rightarrow> 'a word \<Rightarrow> 'a word" where
  "abs_diff a b = (if a < b then b - a else a - b)"

definition clamp :: "'a::linorder \<Rightarrow> 'a \<Rightarrow> 'a \<Rightarrow> 'a" where
  "clamp lo hi x = (if x < lo then lo else if hi < x then hi else x)"

definition saturating_sub :: "'a::len word \<Rightarrow> 'a word \<Rightarrow> 'a word" where
  "saturating_sub a b = (if b \<le> a then a - b else 0)"

definition saturating_add :: "'a::len word \<Rightarrow> 'a word \<Rightarrow> 'a word" where
  "saturating_add a b = (if unat a + unat b < 2 ^ LENGTH('a) then a + b else - 1)"

definition saturating_mul :: "'a::len word \<Rightarrow> 'a word \<Rightarrow> 'a word" where
  "saturating_mul a b = (if unat a * unat b < 2 ^ LENGTH('a) then a * b else - 1)"

lemma unat_less_pow: "unat (a :: 'a::len word) < 2 ^ LENGTH('a)"
  by (rule unsigned_less)

lemma unat_ucast_up:
  "LENGTH('a) \<le> LENGTH('b) \<Longrightarrow> unat (ucast (w :: 'a::len word) :: 'b::len word) = unat w"
  by (simp add: unsigned_ucast_eq take_bit_nat_eq_self less_le_trans [OF unat_less_pow])

lemma unat_of_nat_below: "n \<le> unat (w :: 'a::len word) \<Longrightarrow> unat (of_nat n :: 'a word) = n"
  using le_less_trans [of n "unat w" "2 ^ LENGTH('a)"] by (simp add: unat_of_nat unat_less_pow)

lemma ucast_widened [simp]:
  "LENGTH('a) \<le> LENGTH('b) \<Longrightarrow> ucast (ucast (w :: 'a::len word) :: 'b::len word) = w"
  by (rule bit_word_eqI) (simp add: bit_ucast_iff)

lemma unat_add_exact:
  "unat a + unat b < 2 ^ LENGTH('a) \<Longrightarrow> unat (a + b :: 'a::len word) = unat a + unat b"
  by (simp add: unat_word_ariths)

lemma unat_mult_exact:
  "unat a * unat b < 2 ^ LENGTH('a) \<Longrightarrow> unat (a * b :: 'a::len word) = unat a * unat b"
  by (simp add: unat_word_ariths)

lemma unat_sub_exact: "b \<le> a \<Longrightarrow> unat (a - b :: 'a::len word) = unat a - unat b"
  by (simp add: unat_sub)

lemma checked_add_Some_iff:
  "checked_add a b = Some c \<longleftrightarrow> unat (c :: 'a::len word) = unat a + unat b"
proof
  assume "checked_add a b = Some c"
  then show "unat c = unat a + unat b"
    by (auto simp: checked_add_def unat_add_exact split: if_splits)
next
  assume eq: "unat c = unat a + unat b"
  have "unat c < 2 ^ LENGTH('a)" by (rule unat_less_pow)
  with eq have small: "unat a + unat b < 2 ^ LENGTH('a)" by simp
  with eq have "unat c = unat (a + b)" by (simp add: unat_add_exact)
  with small show "checked_add a b = Some c"
    by (simp add: checked_add_def word_unat_eq_iff)
qed

lemma checked_mul_Some_iff:
  "checked_mul a b = Some c \<longleftrightarrow> unat (c :: 'a::len word) = unat a * unat b"
  by (metis checked_mul_def option.distinct(1) option.inject unat_less_pow unat_mult_exact word_unat_eq_iff)

lemma checked_sub_Some_iff:
  "checked_sub a b = Some c \<longleftrightarrow> unat (a :: 'a::len word) = unat b + unat c"
proof
  assume "checked_sub a b = Some c"
  then have le: "b \<le> a" and c: "c = a - b"
    by (auto simp: checked_sub_def split: if_splits)
  then have "unat c = unat a - unat b" by (simp add: unat_sub_exact)
  moreover from le have "unat b \<le> unat a" by (simp add: word_le_nat_alt)
  ultimately show "unat a = unat b + unat c" by simp
next
  assume eq: "unat a = unat b + unat c"
  then have le: "b \<le> a" by (simp add: word_le_nat_alt)
  then have "unat (a - b) = unat c" using eq by (simp add: unat_sub_exact)
  with le show "checked_sub a b = Some c"
    by (simp add: checked_sub_def word_unat_eq_iff)
qed

section \<open>Big-endian byte strings\<close>

fun nat_be :: "nat \<Rightarrow> nat \<Rightarrow> bytes" where
  "nat_be 0 v = []"
| "nat_be (Suc n) v = nat_be n (v div 256) @ [of_nat (v mod 256)]"

definition be_nat :: "bytes \<Rightarrow> nat" where
  "be_nat bs = foldl (\<lambda>v b. v * 256 + unat b) 0 bs"

definition to_be :: "nat \<Rightarrow> 'a::len word \<Rightarrow> bytes" where
  "to_be n w = nat_be n (unat w)"

definition from_be :: "bytes \<Rightarrow> 'a::len word" where
  "from_be bs = of_nat (be_nat bs)"

abbreviation b256_bytes :: "b256 \<Rightarrow> bytes" where
  "b256_bytes w \<equiv> to_be 32 w"

lemma nat_be_numeral [simp]:
  "nat_be (numeral k) v = nat_be (pred_numeral k) (v div 256) @ [of_nat (v mod 256)]"
  by (subst numeral_eq_Suc) simp

lemma length_nat_be [simp]: "length (nat_be n v) = n"
  by (induction n arbitrary: v) auto

lemma length_to_be [simp]: "length (to_be n w) = n"
  by (simp add: to_be_def)

lemma be_nat_Nil [simp]: "be_nat [] = 0"
  by (simp add: be_nat_def)

lemma be_nat_snoc [simp]: "be_nat (bs @ [b]) = be_nat bs * 256 + unat b"
  by (simp add: be_nat_def)

lemma unat_byte_less: "unat (b :: u8) < 256"
  using unat_less_pow [of b] by simp

lemma be_nat_bound: "be_nat bs < 256 ^ length bs"
proof (induction bs rule: rev_induct)
  case Nil
  show ?case by simp
next
  case (snoc b bs)
  have "be_nat bs * 256 + unat b < be_nat bs * 256 + 256"
    using unat_byte_less [of b] by simp
  also have "\<dots> = (be_nat bs + 1) * 256" by simp
  also have "\<dots> \<le> 256 ^ length bs * 256" using snoc by (simp add: Suc_leI)
  finally show ?case by simp
qed

lemma unat_of_nat_byte: "v < 256 \<Longrightarrow> unat (of_nat v :: u8) = v"
  by (simp add: unat_of_nat)

lemma be_nat_nat_be: "be_nat (nat_be n v) = v mod 256 ^ n"
proof (induction n arbitrary: v)
  case 0
  show ?case by simp
next
  case (Suc n)
  have "v mod (256 * 256 ^ n) = 256 * (v div 256 mod 256 ^ n) + v mod 256"
    by (rule mod_mult2_eq)
  then show ?case by (simp add: Suc.IH unat_of_nat_byte mult.commute)
qed

lemma nat_be_be_nat: "nat_be (length bs) (be_nat bs) = bs"
proof (induction bs rule: rev_induct)
  case Nil
  show ?case by simp
next
  case (snoc b bs)
  have b: "unat b < 256" by (rule unat_byte_less)
  then have "(be_nat bs * 256 + unat b) div 256 = be_nat bs"
    and "(be_nat bs * 256 + unat b) mod 256 = unat b"
    by simp_all
  with snoc show ?case by simp
qed

lemma be_nat_to_be:
  assumes "LENGTH('a) \<le> 8 * n"
  shows "be_nat (to_be n (w :: 'a::len word)) = unat w"
proof -
  have "(2::nat) ^ LENGTH('a) \<le> 2 ^ (8 * n)" using assms by (simp add: power_increasing)
  also have "(2::nat) ^ (8 * n) = 256 ^ n" by (simp add: power_mult)
  finally have "unat w < 256 ^ n" using unat_less_pow [of w] by linarith
  then show ?thesis by (simp add: to_be_def be_nat_nat_be)
qed

lemma from_be_to_be: "LENGTH('a) \<le> 8 * n \<Longrightarrow> from_be (to_be n (w :: 'a::len word)) = w"
  by (simp add: from_be_def be_nat_to_be)

lemma unat_from_be:
  assumes "8 * length bs \<le> LENGTH('a)"
  shows "unat (from_be bs :: 'a::len word) = be_nat bs"
proof -
  have "be_nat bs < 256 ^ length bs" by (rule be_nat_bound)
  also have "(256::nat) ^ length bs = 2 ^ (8 * length bs)" by (simp add: power_mult)
  also have "\<dots> \<le> 2 ^ LENGTH('a)" using assms by (simp add: power_increasing)
  finally show ?thesis by (simp add: from_be_def unat_of_nat)
qed

lemma to_be_from_be:
  "8 * length bs \<le> LENGTH('a) \<Longrightarrow> n = length bs \<Longrightarrow> to_be n (from_be bs :: 'a::len word) = bs"
  by (simp add: to_be_def unat_from_be nat_be_be_nat)

lemma from_be_inj:
  "from_be xs = (from_be ys :: 'a::len word) \<Longrightarrow> length xs = length ys
    \<Longrightarrow> 8 * length xs \<le> LENGTH('a) \<Longrightarrow> xs = ys"
  by (metis to_be_from_be)

lemma to_be_inj: "LENGTH('a) \<le> 8 * n \<Longrightarrow> to_be n (v :: 'a::len word) = to_be n w \<longleftrightarrow> v = w"
  by (metis from_be_to_be)

text \<open>
  The readers of the sources accumulate a big-endian number with \<open>(v << 8) | b\<close> on a 64-bit
  register; on at most eight bytes nothing is shifted out and the value is \<open>from_be\<close>.
\<close>

definition fold_be :: "bytes \<Rightarrow> u64" where
  "fold_be bs = foldl (\<lambda>v b. push_bit 8 v OR ucast b) 0 bs"

lemma push_or_add: "push_bit 8 v OR ucast (b :: u8) = (v * 256 + ucast b :: u64)"
proof -
  have "push_bit 8 v AND ucast b = (0 :: u64)"
    by (rule bit_eqI) (auto simp: bit_simps dest: bit_imp_le_length)
  then have "push_bit 8 v OR ucast b = push_bit 8 v + (ucast b :: u64)"
    by (simp add: disjunctive_add_eq_or)
  then show ?thesis by (simp add: push_bit_eq_mult mult.commute)
qed

lemma fold_be_from_be: "fold_be bs = from_be bs"
proof (induction bs rule: rev_induct)
  case Nil
  show ?case by (simp add: fold_be_def from_be_def)
next
  case (snoc b bs)
  have "fold_be (bs @ [b]) = fold_be bs * 256 + ucast b"
    by (simp add: fold_be_def push_or_add)
  also have "\<dots> = of_nat (be_nat bs * 256 + unat b)"
    using snoc by (simp add: from_be_def of_nat_unat)
  finally show ?case by (simp add: from_be_def)
qed

section \<open>UTF-8\<close>

definition utf8_cont :: "u8 \<Rightarrow> bool" where
  "utf8_cont b \<longleftrightarrow> 0x80 \<le> b \<and> b \<le> 0xBF"

fun utf8_valid :: "bytes \<Rightarrow> bool" where
  "utf8_valid [] = True"
| "utf8_valid (a # r) =
     (if a < 0x80 then utf8_valid r
      else if 0xC2 \<le> a \<and> a \<le> 0xDF then
        (case r of b # r' \<Rightarrow> utf8_cont b \<and> utf8_valid r' | _ \<Rightarrow> False)
      else if 0xE0 \<le> a \<and> a \<le> 0xEF then
        (case r of b # c # r' \<Rightarrow>
            (if a = 0xE0 then 0xA0 \<le> b \<and> b \<le> 0xBF
             else if a = 0xED then 0x80 \<le> b \<and> b \<le> 0x9F
             else utf8_cont b) \<and> utf8_cont c \<and> utf8_valid r'
         | _ \<Rightarrow> False)
      else if 0xF0 \<le> a \<and> a \<le> 0xF4 then
        (case r of b # c # d # r' \<Rightarrow>
            (if a = 0xF0 then 0x90 \<le> b \<and> b \<le> 0xBF
             else if a = 0xF4 then 0x80 \<le> b \<and> b \<le> 0x8F
             else utf8_cont b) \<and> utf8_cont c \<and> utf8_cont d \<and> utf8_valid r'
         | _ \<Rightarrow> False)
      else False)"

text \<open>A string literal of the sources as its bytes; every literal modelled is ASCII.\<close>

definition ascii :: "string \<Rightarrow> bytes" where
  "ascii s = map (\<lambda>c. of_nat (of_char c)) s"

lemma length_ascii [simp]: "length (ascii s) = length s"
  by (simp add: ascii_def)

section \<open>Codec interfaces\<close>

text \<open>
  A Rust slice holds at most \<open>isize::MAX\<close> bytes. The offset arithmetic of the readers relies on
  it, so the codec laws are stated for slices.
\<close>

definition slice :: "'a list \<Rightarrow> bool" where
  "slice bs \<longleftrightarrow> length bs < 2 ^ 63"

lemma slice_suffix: "slice (xs @ ys) \<Longrightarrow> slice ys"
  by (simp add: slice_def)

text \<open>
  A record codec maps the values it accepts to byte strings and back, and decodes nothing else:
  every accepted byte string is the encoding of its value. The consequences every format shares
  (distinct values never collide, a value has one encoding) are proved here once.
\<close>

locale record_codec =
  fixes enc :: "'a \<Rightarrow> bytes" and dec :: "bytes \<Rightarrow> 'e + 'a" and valid :: "'a \<Rightarrow> bool"
  assumes dec_enc: "valid a \<Longrightarrow> dec (enc a) = Inr a"
    and enc_slice: "valid a \<Longrightarrow> slice (enc a)"
    and dec_sound: "slice bs \<Longrightarrow> dec bs = Inr a \<Longrightarrow> valid a \<and> bs = enc a"
begin

lemma enc_inj: "valid a \<Longrightarrow> valid b \<Longrightarrow> enc a = enc b \<Longrightarrow> a = b"
  using dec_enc by (metis sum.inject(2))

lemma dec_inj: "slice bs \<Longrightarrow> slice cs \<Longrightarrow> dec bs = Inr a \<Longrightarrow> dec cs = Inr a \<Longrightarrow> bs = cs"
  using dec_sound by metis

lemma dec_iff: "slice bs \<Longrightarrow> dec bs = Inr a \<longleftrightarrow> valid a \<and> bs = enc a"
  using dec_enc dec_sound by metis

lemma accepts_iff: "slice bs \<and> is_ok (dec bs) \<longleftrightarrow> bs \<in> enc ` Collect valid"
proof
  assume h: "slice bs \<and> is_ok (dec bs)"
  then obtain a where "dec bs = Inr a" by (auto elim: is_okE)
  with h have "valid a" and "bs = enc a" using dec_sound by auto
  then show "bs \<in> enc ` Collect valid" by auto
next
  assume "bs \<in> enc ` Collect valid"
  then show "slice bs \<and> is_ok (dec bs)" by (auto simp: dec_enc enc_slice)
qed

end

section \<open>Readers\<close>

text \<open>
  Every decoder of the program is a byte slice and an offset that moves over it: \<open>Reader\<close> of the
  store and of the update parser, \<open>Decoder\<close> of the wire format. \<open>usize\<close> is 64 bits wide, so a checked
  addition on offsets fails at \<open>2^64\<close>.
\<close>

record reader =
  rd_bytes :: bytes
  rd_offset :: nat

text \<open>
  \<open>reads r xs r'\<close>: the reader moved from \<open>r\<close> to \<open>r'\<close> over exactly the bytes \<open>xs\<close>.
\<close>

definition reads :: "reader \<Rightarrow> bytes \<Rightarrow> reader \<Rightarrow> bool" where
  "reads r xs r' \<longleftrightarrow>
     rd_bytes r' = rd_bytes r \<and> rd_offset r' = rd_offset r + length xs \<and>
     rd_offset r' \<le> length (rd_bytes r) \<and>
     drop (rd_offset r) (rd_bytes r) = xs @ drop (rd_offset r') (rd_bytes r)"

definition short :: "reader \<Rightarrow> bool" where
  "short r \<longleftrightarrow> slice (rd_bytes r) \<and> rd_offset r \<le> length (rd_bytes r)"

lemma readsI:
  "rd_offset r + n \<le> length (rd_bytes r) \<Longrightarrow>
     reads r (take n (drop (rd_offset r) (rd_bytes r))) (r\<lparr>rd_offset := rd_offset r + n\<rparr>)"
  by (simp add: reads_def add.commute [of "rd_offset r"] append_take_drop_id flip: drop_drop)

lemma reads_trans: "reads r xs r' \<Longrightarrow> reads r' ys r'' \<Longrightarrow> reads r (xs @ ys) r''"
  by (auto simp: reads_def)

lemma reads_short: "reads r xs r' \<Longrightarrow> short r \<Longrightarrow> short r'"
  by (auto simp: reads_def short_def)

lemma reads_unique: "reads r xs r' \<Longrightarrow> reads r xs r'' \<Longrightarrow> r' = r''"
  by (auto simp: reads_def)

lemma reads_take: "reads r xs r' \<Longrightarrow> xs = take (length xs) (drop (rd_offset r) (rd_bytes r))"
  by (auto simp: reads_def)

lemma reads_append:
  assumes "reads r (xs @ ys) r''"
  obtains r' where "reads r xs r'" "reads r' ys r''"
proof
  let ?r' = "r\<lparr>rd_offset := rd_offset r + length xs\<rparr>"
  from assms have d: "drop (rd_offset r) (rd_bytes r) = xs @ ys @ drop (rd_offset r'') (rd_bytes r)"
    by (simp add: reads_def)
  then have "drop (length xs) (drop (rd_offset r) (rd_bytes r)) = ys @ drop (rd_offset r'') (rd_bytes r)"
    by simp
  then have d': "drop (rd_offset r + length xs) (rd_bytes r) = ys @ drop (rd_offset r'') (rd_bytes r)"
    by (simp add: add.commute)
  from assms d d' show "reads r xs ?r'" and "reads ?r' ys r''"
    by (auto simp: reads_def)
qed

lemma reads_append_iff: "reads r (xs @ ys) r'' \<longleftrightarrow> (\<exists>r'. reads r xs r' \<and> reads r' ys r'')"
  by (metis reads_append reads_trans)

lemma reads_Cons_iff: "reads r (x # ys) r'' \<longleftrightarrow> (\<exists>r'. reads r [x] r' \<and> reads r' ys r'')"
  using reads_append_iff [of r "[x]" ys r''] by simp

lemma reads_Nil_iff [simp]: "short r \<Longrightarrow> reads r [] r' \<longleftrightarrow> r' = r"
  by (auto simp: reads_def short_def)

lemma reads_whole:
  "reads \<lparr>rd_bytes = bs, rd_offset = 0\<rparr> xs r \<and> rd_offset r = length (rd_bytes r) \<longleftrightarrow>
     xs = bs \<and> r = \<lparr>rd_bytes = bs, rd_offset = length bs\<rparr>"
  by (cases r) (auto simp: reads_def)

text \<open>
  Decoding by rewriting: after the bytes \<open>acc\<close> were read, one more item extends them. Starting from
  \<open>read_first\<close>, the rules turn a decoder into the existence of values whose concatenated encodings
  were consumed.
\<close>

lemma read_first:
  assumes "\<And>r a r'. short r \<Longrightarrow> get r = Inr (a, r') \<longleftrightarrow> valid a \<and> reads r (put a) r'" "short r"
  shows "rbind (get r) f = Inr y \<longleftrightarrow> (\<exists>a. valid a \<and> (\<exists>r1. reads r (put a) r1 \<and> f (a, r1) = Inr y))"
  using assms by (auto simp: rbind_Inr_iff)

lemma read_next:
  assumes get: "\<And>r a r'. short r \<Longrightarrow> get r = Inr (a, r') \<longleftrightarrow> valid a \<and> reads r (put a) r'"
    and "short r0"
  shows "(\<exists>r. reads r0 acc r \<and> rbind (get r) f = Inr y) \<longleftrightarrow>
    (\<exists>a. valid a \<and> (\<exists>r. reads r0 (acc @ put a) r \<and> f (a, r) = Inr y))"
proof -
  have "rbind (get r) f = Inr y \<longleftrightarrow> (\<exists>a. valid a \<and> (\<exists>r1. reads r (put a) r1 \<and> f (a, r1) = Inr y))"
    if "reads r0 acc r" for r
    by (rule read_first) (simp_all add: get reads_short [OF that assms(2)])
  then have "(\<exists>r. reads r0 acc r \<and> rbind (get r) f = Inr y) \<longleftrightarrow>
      (\<exists>r. reads r0 acc r \<and> (\<exists>a. valid a \<and> (\<exists>r1. reads r (put a) r1 \<and> f (a, r1) = Inr y)))"
    by (simp cong: conj_cong)
  also have "\<dots> \<longleftrightarrow> (\<exists>a. valid a \<and> (\<exists>r1. (\<exists>r. reads r0 acc r \<and> reads r (put a) r1) \<and> f (a, r1) = Inr y))"
    by blast
  finally show ?thesis by (simp only: reads_append_iff)
qed

lemma read_tail:
  assumes "\<And>r a r'. short r \<Longrightarrow> get r = Inr (a, r') \<longleftrightarrow> valid a \<and> reads r (put a) r'" "short r0"
  shows "(\<exists>r. reads r0 acc r \<and> get r = Inr (a, r')) \<longleftrightarrow> valid a \<and> reads r0 (acc @ put a) r'"
  using assms reads_short unfolding reads_append_iff by blast

text \<open>What a decoder does between two reads moves out of the reader's scope.\<close>

lemma read_guard:
  "(\<exists>r. P r \<and> (if c then Inl e else f r) = Inr y) \<longleftrightarrow> \<not> c \<and> (\<exists>r. P r \<and> f r = Inr y)"
  by auto

text \<open>A compound condition whose last part reads the reader; simp states a leading inequation as an implication.\<close>

lemma read_guard_or:
  "(\<exists>r. P r \<and> (if c \<or> D r then Inl e else f r) = Inr y) \<longleftrightarrow>
     \<not> c \<and> (\<exists>r. P r \<and> (if D r then Inl e else f r) = Inr y)"
  "(\<exists>r. P r \<and> (if c \<longrightarrow> D r then Inl e else f r) = Inr y) \<longleftrightarrow>
     c \<and> (\<exists>r. P r \<and> (if D r then Inl e else f r) = Inr y)"
  by auto

lemma read_last: "(\<exists>r. P r \<and> Inr (v, r) = Inr (w, r')) \<longleftrightarrow> v = w \<and> P r'"
  by auto

lemma read_pure:
  "(\<exists>r. P r \<and> rbind m (\<lambda>x. f x r) = Inr y) \<longleftrightarrow> (\<exists>x. m = Inr x \<and> (\<exists>r. P r \<and> f x r = Inr y))"
  by (auto simp: rbind_Inr_iff)

lemmas read_ends = read_guard read_last

text \<open>
  The decoders of the program differ in what their state is and in what they count, not in how they
  compose. A consumer moves over what it consumes: \<open>R r x r'\<close> says that \<open>r\<close> becomes \<open>r'\<close> by consuming \<open>x\<close>.
\<close>

locale consumer =
  fixes R :: "'s \<Rightarrow> 'c \<Rightarrow> 's \<Rightarrow> bool" and ok :: "'s \<Rightarrow> bool" and app :: "'c \<Rightarrow> 'c \<Rightarrow> 'c" and none :: 'c
  assumes R_app: "ok r \<Longrightarrow> R r (app x y) r'' \<longleftrightarrow> (\<exists>r'. R r x r' \<and> R r' y r'')"
    and R_none: "ok r \<Longrightarrow> R r none r' \<longleftrightarrow> r' = r"
    and R_ok: "ok r \<Longrightarrow> R r x r' \<Longrightarrow> ok r'"

locale consumer_item = consumer +
  fixes put :: "'a \<Rightarrow> 'c" and get :: "'s \<Rightarrow> 'e + 'a \<times> 's" and valid :: "'a \<Rightarrow> bool"
  assumes get_iff: "ok r \<Longrightarrow> get r = Inr (a, r') \<longleftrightarrow> valid a \<and> R r (put a) r'"
begin

lemma first:
  "ok r \<Longrightarrow> rbind (get r) f = Inr y \<longleftrightarrow> (\<exists>a. valid a \<and> (\<exists>r1. R r (put a) r1 \<and> f (a, r1) = Inr y))"
  by (auto simp: rbind_Inr_iff get_iff)

lemma chain:
  assumes "ok r0"
  shows "(\<exists>r. R r0 acc r \<and> rbind (get r) f = Inr y) \<longleftrightarrow>
    (\<exists>a. valid a \<and> (\<exists>r. R r0 (app acc (put a)) r \<and> f (a, r) = Inr y))"
proof -
  have "rbind (get r) f = Inr y \<longleftrightarrow> (\<exists>a. valid a \<and> (\<exists>r1. R r (put a) r1 \<and> f (a, r1) = Inr y))"
    if "R r0 acc r" for r
    using first [OF R_ok [OF assms that]] .
  then have "(\<exists>r. R r0 acc r \<and> rbind (get r) f = Inr y) \<longleftrightarrow>
      (\<exists>r. R r0 acc r \<and> (\<exists>a. valid a \<and> (\<exists>r1. R r (put a) r1 \<and> f (a, r1) = Inr y)))"
    by (simp cong: conj_cong)
  also have "\<dots> \<longleftrightarrow> (\<exists>a. valid a \<and> (\<exists>r1. (\<exists>r. R r0 acc r \<and> R r (put a) r1) \<and> f (a, r1) = Inr y))"
    by blast
  finally show ?thesis by (simp only: R_app [OF assms])
qed

lemma tail:
  assumes "ok r0"
  shows "(\<exists>r. R r0 acc r \<and> get r = Inr (a, r')) \<longleftrightarrow> valid a \<and> R r0 (app acc (put a)) r'"
  unfolding R_app [OF assms] using get_iff R_ok [OF assms] by blast

text \<open>
  A counted loop over items: \<open>upd\<close> is what one turn does to the loop's state, \<open>fin\<close> what the loop returns
  of it, and \<open>P n s\<close> what keeps the loop from failing for a reason of its own in \<open>n\<close> more turns.
\<close>

definition put_all :: "'a list \<Rightarrow> 'c" where
  "put_all as = foldr (\<lambda>a. app (put a)) as none"

lemma put_all_simps: "put_all [] = none" "put_all (a # as) = app (put a) (put_all as)"
  by (simp_all add: put_all_def)

lemma fold_loop:
  assumes base: "\<And>s r. P 0 s \<Longrightarrow> loop 0 s r = Inr (fin s, r)"
    and step: "\<And>n s r x r'. P (Suc n) s \<Longrightarrow> ok r \<Longrightarrow>
      loop (Suc n) s r = Inr (x, r') \<longleftrightarrow> (\<exists>a r1. get r = Inr (a, r1) \<and> loop n (upd s a) r1 = Inr (x, r'))"
    and inv: "\<And>n s a. P (Suc n) s \<Longrightarrow> valid a \<Longrightarrow> P n (upd s a)"
  shows "ok r \<Longrightarrow> P n s \<Longrightarrow> loop n s r = Inr (x, r') \<longleftrightarrow>
    (\<exists>as. (length as = n \<and> (\<forall>a \<in> set as. valid a)) \<and> R r (put_all as) r' \<and> x = fin (foldl upd s as))"
proof (induction n arbitrary: s r)
  case 0
  then show ?case by (auto simp: base put_all_simps R_none)
next
  case (Suc n)
  have rest: "(\<exists>r1. R r (put a) r1 \<and> loop n (upd s a) r1 = Inr (x, r')) \<longleftrightarrow>
      (\<exists>as. (length as = n \<and> (\<forall>a \<in> set as. valid a)) \<and> R r (put_all (a # as)) r' \<and>
        x = fin (foldl upd (upd s a) as))" if "valid a" for a
  proof -
    have "loop n (upd s a) r1 = Inr (x, r') \<longleftrightarrow>
        (\<exists>as. (length as = n \<and> (\<forall>a \<in> set as. valid a)) \<and> R r1 (put_all as) r' \<and>
          x = fin (foldl upd (upd s a) as))" if "R r (put a) r1" for r1
      using R_ok [OF Suc.prems(1) that] inv [OF Suc.prems(2) \<open>valid a\<close>] by (rule Suc.IH)
    then show ?thesis unfolding put_all_simps R_app [OF Suc.prems(1)] by blast
  qed
  have "loop (Suc n) s r = Inr (x, r') \<longleftrightarrow>
      (\<exists>a. valid a \<and> (\<exists>r1. R r (put a) r1 \<and> loop n (upd s a) r1 = Inr (x, r')))"
    using Suc.prems by (auto simp: step get_iff)
  also have "\<dots> \<longleftrightarrow> (\<exists>a as. valid a \<and> (length as = n \<and> (\<forall>a \<in> set as. valid a)) \<and>
      R r (put_all (a # as)) r' \<and> x = fin (foldl upd (upd s a) as))"
    using rest by blast
  also have "\<dots> \<longleftrightarrow> (\<exists>as. (length as = Suc n \<and> (\<forall>a \<in> set as. valid a)) \<and>
      R r (put_all as) r' \<and> x = fin (foldl upd s as))"
    unfolding length_Suc_conv by fastforce
  finally show ?case .
qed

end

interpretation byte_reads: consumer reads short "(@)" "[]"
  by unfold_locales (auto simp: reads_append_iff reads_short)

text \<open>
  An item codec reads one self-delimiting item off a reader and leaves it right behind the item.
  The law is an equivalence, so a decoder composed of items is correct by rewriting, in both
  directions at once: \<open>get_step\<close> turns each read into the bytes it consumed.
\<close>

locale item_codec =
  fixes put :: "'a \<Rightarrow> bytes" and get :: "reader \<Rightarrow> 'e + 'a \<times> reader" and valid :: "'a \<Rightarrow> bool"
  assumes item_iff: "short r \<Longrightarrow> get r = Inr (a, r') \<longleftrightarrow> valid a \<and> reads r (put a) r'"

sublocale item_codec \<subseteq> consumer_item reads short "(@)" "[]" put get valid
  by unfold_locales (rule item_iff)

context item_codec
begin

lemma put_all_concat: "put_all as = concat (map put as)"
  by (induction as) (simp_all add: put_all_simps)

lemma get_step: "short r \<Longrightarrow> get r = Inr (a, r') \<longleftrightarrow> valid a \<and> reads r (put a) r' \<and> short r'"
  using get_iff reads_short by blast

lemma first_err:
  "short r \<Longrightarrow> rbind (map_err g (get r)) f = Inr y \<longleftrightarrow>
    (\<exists>a. valid a \<and> (\<exists>r1. reads r (put a) r1 \<and> f (a, r1) = Inr y))"
  by (rule read_first) (simp_all add: get_iff map_err_Inr_iff)

lemma chain_err:
  "short r0 \<Longrightarrow> (\<exists>r. reads r0 acc r \<and> rbind (map_err g (get r)) f = Inr y) \<longleftrightarrow>
    (\<exists>a. valid a \<and> (\<exists>r. reads r0 (acc @ put a) r \<and> f (a, r) = Inr y))"
  by (rule read_next) (simp_all add: get_iff map_err_Inr_iff)

lemma prefix_free:
  assumes "valid a" "valid b" "put a @ xs = put b @ ys" "slice (put a @ xs)"
  shows "a = b \<and> xs = ys"
proof -
  let ?r = "\<lparr>rd_bytes = put a @ xs, rd_offset = 0\<rparr>"
  have r: "short ?r" using assms(4) by (simp add: short_def)
  have ra: "reads ?r (put a) (?r\<lparr>rd_offset := length (put a)\<rparr>)" by (simp add: reads_def)
  have rb: "reads ?r (put b) (?r\<lparr>rd_offset := length (put b)\<rparr>)"
    using assms(3) by (simp add: reads_def)
  have "get ?r = Inr (a, ?r\<lparr>rd_offset := length (put a)\<rparr>)"
    using get_iff [OF r] ra assms(1) by blast
  moreover have "get ?r = Inr (b, ?r\<lparr>rd_offset := length (put b)\<rparr>)"
    using get_iff [OF r] rb assms(2) by blast
  ultimately have "a = b" by (metis Inr_inject Pair_inject)
  with assms(3) show ?thesis by simp
qed

end

end
