(* ===== verification/Record_Codec.thy ===== *)
theory Record_Codec
  imports Unicity_Prelude
begin

text \<open>
  The companion store's two record formats. \<open>encode_companion\<close> and \<open>decode_companion\<close> model
  \<open>store/src/encoding.rs\<close> (the versioned, length-prefixed framing of a \<open>SealCompanion\<close>, with its
  offset reader); \<open>encode_accounting\<close> and \<open>decode_accounting\<close> model \<open>store/src/accounting.rs\<close> (the
  fixed 154-byte accounting record). Both are shown to implement the codec interface: decoding
  inverts encoding, and every accepted byte string is the encoding of its value.
\<close>

section \<open>Errors and values\<close>

datatype store_error =
    Mdbx nat
  | Io nat
  | UnknownVersion u8
  | RecordTooLarge
  | MalformedRecord string
  | Corrupt string
  | HorizonRegression u64 u64

record seal_companion =
  sc_root_input :: bytes
  sc_b1_update :: bytes
  sc_records :: bytes
  sc_pair_binding :: bytes
  sc_witnesses :: "bytes list"
  sc_provenance :: bytes

section \<open>The companion record\<close>

definition RECORD_VERSION :: u8 where
  "RECORD_VERSION = 2"

definition LENGTH_BYTES :: nat where
  "LENGTH_BYTES = 4"

definition put_u32 :: "bytes \<Rightarrow> u32 \<Rightarrow> bytes" where
  "put_u32 out v = out @ to_be 4 v"

definition put_count :: "bytes \<Rightarrow> nat \<Rightarrow> store_error + bytes" where
  "put_count out count = (if count < 2 ^ 32 then Inr (put_u32 out (of_nat count)) else Inl RecordTooLarge)"

definition put_frame :: "bytes \<Rightarrow> bytes \<Rightarrow> store_error + bytes" where
  "put_frame out bs =
     (if length bs < 2 ^ 32 then Inr (put_u32 out (of_nat (length bs)) @ bs) else Inl RecordTooLarge)"

fun put_witnesses :: "bytes \<Rightarrow> bytes list \<Rightarrow> store_error + bytes" where
  "put_witnesses out [] = Inr out"
| "put_witnesses out (w # ws) = rbind (put_frame out w) (\<lambda>out. put_witnesses out ws)"

definition encode_companion :: "seal_companion \<Rightarrow> store_error + bytes" where
  "encode_companion c =
     (let out = [RECORD_VERSION] in
      rbind (put_frame out (sc_root_input c)) (\<lambda>out.
      rbind (put_frame out (sc_b1_update c)) (\<lambda>out.
      rbind (put_frame out (sc_records c)) (\<lambda>out.
      rbind (put_frame out (sc_pair_binding c)) (\<lambda>out.
      rbind (put_count out (length (sc_witnesses c))) (\<lambda>out.
      rbind (put_witnesses out (sc_witnesses c)) (\<lambda>out.
      put_frame out (sc_provenance c))))))))"

definition reader_is_empty :: "reader \<Rightarrow> bool" where
  "reader_is_empty r \<longleftrightarrow> rd_offset r = length (rd_bytes r)"

definition read_u8 :: "reader \<Rightarrow> store_error + u8 \<times> reader" where
  "read_u8 r =
     (if rd_offset r < length (rd_bytes r)
      then Inr (rd_bytes r ! rd_offset r, r\<lparr>rd_offset := rd_offset r + 1\<rparr>)
      else Inl (MalformedRecord ''record ended before its version byte''))"

definition read_u32 :: "reader \<Rightarrow> store_error + u32 \<times> reader" where
  "read_u32 r =
     (let end = rd_offset r + LENGTH_BYTES in
      if end \<ge> 2 ^ 64 then Inl (MalformedRecord ''length prefix overflows'')
      else if end > length (rd_bytes r) then Inl (MalformedRecord ''record ended inside a length prefix'')
      else Inr (from_be (take LENGTH_BYTES (drop (rd_offset r) (rd_bytes r))), r\<lparr>rd_offset := end\<rparr>))"

definition read_frame :: "reader \<Rightarrow> store_error + bytes \<times> reader" where
  "read_frame r =
     rbind (read_u32 r) (\<lambda>(n, r).
       let len = unat n; end = rd_offset r + len in
       if end \<ge> 2 ^ 64 then Inl (MalformedRecord ''frame length overflows'')
       else if end > length (rd_bytes r) then Inl (MalformedRecord ''record ended inside a frame'')
       else Inr (take len (drop (rd_offset r) (rd_bytes r)), r\<lparr>rd_offset := end\<rparr>))"

fun read_witnesses :: "nat \<Rightarrow> reader \<Rightarrow> store_error + bytes list \<times> reader" where
  "read_witnesses 0 r = Inr ([], r)"
| "read_witnesses (Suc n) r =
     rbind (read_frame r) (\<lambda>(w, r).
     rbind (read_witnesses n r) (\<lambda>(ws, r). Inr (w # ws, r)))"

definition decode_companion :: "bytes \<Rightarrow> store_error + seal_companion" where
  "decode_companion bs =
     rbind (read_u8 \<lparr>rd_bytes = bs, rd_offset = 0\<rparr>) (\<lambda>(version, r).
     if version \<noteq> RECORD_VERSION then Inl (UnknownVersion version) else
     rbind (read_frame r) (\<lambda>(root_input, r).
     rbind (read_frame r) (\<lambda>(b1_update, r).
     rbind (read_frame r) (\<lambda>(records, r).
     rbind (read_frame r) (\<lambda>(pair_binding, r).
     rbind (read_u32 r) (\<lambda>(witness_count, r).
     rbind (read_witnesses (unat witness_count) r) (\<lambda>(witnesses, r).
     rbind (read_frame r) (\<lambda>(provenance, r).
     if \<not> utf8_valid provenance then Inl (MalformedRecord ''provenance is not valid UTF-8'')
     else if \<not> reader_is_empty r then Inl (MalformedRecord ''trailing bytes after record'')
     else Inr \<lparr>sc_root_input = root_input, sc_b1_update = b1_update, sc_records = records,
                sc_pair_binding = pair_binding, sc_witnesses = witnesses,
                sc_provenance = provenance\<rparr>))))))))"

section \<open>The accounting record\<close>

record block_profile =
  bp_max_gas :: u64
  bp_system_gas :: u64
  bp_base_fee_floor :: u64
  bp_elasticity :: u64
  bp_change_denominator :: u64

record local_parent_accounting =
  la_block_hash :: b256
  la_profile :: block_profile
  la_header_gas :: u64
  la_system_gas :: u64
  la_ordinary_gas :: u64
  la_base_fee :: u64

record stored_accounting =
  sa_chain_id :: u64
  sa_genesis_hash :: b256
  sa_block_number :: u64
  sa_accounting :: local_parent_accounting

definition SCHEMA :: u8 where
  "SCHEMA = 1"

definition RULE_VERSION :: u8 where
  "RULE_VERSION = 1"

definition RECORD_LEN :: nat where
  "RECORD_LEN = 1 + 1 + 8 + 32 + 8 + 32 + 40 + 32"

definition encode_accounting :: "stored_accounting \<Rightarrow> bytes" where
  "encode_accounting r =
     (let a = sa_accounting r; p = la_profile a in
      [SCHEMA, RULE_VERSION]
      @ to_be 8 (sa_chain_id r)
      @ b256_bytes (sa_genesis_hash r)
      @ to_be 8 (sa_block_number r)
      @ b256_bytes (la_block_hash a)
      @ concat (map (to_be 8)
          [bp_max_gas p, bp_system_gas p, bp_base_fee_floor p, bp_elasticity p,
           bp_change_denominator p, la_header_gas a, la_system_gas a, la_ordinary_gas a,
           la_base_fee a]))"

definition accounting_number :: "bytes \<Rightarrow> nat \<Rightarrow> u64" where
  "accounting_number bs start = from_be (take 8 (drop start bs))"

definition decode_accounting :: "bytes \<Rightarrow> store_error + stored_accounting" where
  "decode_accounting bs =
     (if length bs \<noteq> RECORD_LEN then Inl (MalformedRecord ''accounting record length'')
      else if bs ! 0 \<noteq> SCHEMA then Inl (UnknownVersion (bs ! 0))
      else if bs ! 1 \<noteq> RULE_VERSION then Inl (UnknownVersion (bs ! 1))
      else let number = accounting_number bs in
        Inr \<lparr>sa_chain_id = number 2,
              sa_genesis_hash = from_be (take 32 (drop 10 bs)),
              sa_block_number = number 42,
              sa_accounting = \<lparr>
                la_block_hash = from_be (take 32 (drop 50 bs)),
                la_profile = \<lparr>
                  bp_max_gas = number 82,
                  bp_system_gas = number 90,
                  bp_base_fee_floor = number 98,
                  bp_elasticity = number 106,
                  bp_change_denominator = number 114\<rparr>,
                la_header_gas = number 122,
                la_system_gas = number 130,
                la_ordinary_gas = number 138,
                la_base_fee = number 146\<rparr>\<rparr>)"

section \<open>Reading what was written\<close>

text \<open>The encoding of one frame, and of a whole companion, without the size checks.\<close>

definition frame :: "bytes \<Rightarrow> bytes" where
  "frame bs = to_be 4 (of_nat (length bs) :: u32) @ bs"

definition companion_bytes :: "seal_companion \<Rightarrow> bytes" where
  "companion_bytes c =
     RECORD_VERSION # frame (sc_root_input c) @ frame (sc_b1_update c) @ frame (sc_records c)
       @ frame (sc_pair_binding c) @ to_be 4 (of_nat (length (sc_witnesses c)) :: u32)
       @ concat (map frame (sc_witnesses c)) @ frame (sc_provenance c)"

text \<open>
  The companions the format can carry: every field and the witness count fit a 32-bit prefix, the
  provenance is a Rust \<open>String\<close> (valid UTF-8), and the record is a slice (\<open>isize::MAX\<close> bytes at
  most).
\<close>

definition companion_ok :: "seal_companion \<Rightarrow> bool" where
  "companion_ok c \<longleftrightarrow>
     (\<forall>f \<in> set ([sc_root_input c, sc_b1_update c, sc_records c, sc_pair_binding c, sc_provenance c]
                @ sc_witnesses c). length f < 2 ^ 32) \<and>
     length (sc_witnesses c) < 2 ^ 32 \<and> utf8_valid (sc_provenance c) \<and>
     slice (companion_bytes c)"

lemma put_frame_iff: "put_frame out bs = Inr r \<longleftrightarrow> length bs < 2 ^ 32 \<and> r = out @ frame bs"
  by (auto simp: put_frame_def put_u32_def frame_def)

lemma put_count_iff:
  "put_count out n = Inr r \<longleftrightarrow> n < 2 ^ 32 \<and> r = out @ to_be 4 (of_nat n :: u32)"
  by (auto simp: put_count_def put_u32_def)

lemma put_witnesses_iff:
  "put_witnesses out ws = Inr r \<longleftrightarrow>
     (\<forall>w \<in> set ws. length w < 2 ^ 32) \<and> r = out @ concat (map frame ws)"
  by (induction ws arbitrary: out) (auto simp: rbind_Inr_iff put_frame_iff)

lemma encode_companion_iff:
  "encode_companion c = Inr bs \<longleftrightarrow>
     (\<forall>f \<in> set ([sc_root_input c, sc_b1_update c, sc_records c, sc_pair_binding c, sc_provenance c]
                @ sc_witnesses c). length f < 2 ^ 32) \<and>
     length (sc_witnesses c) < 2 ^ 32 \<and> bs = companion_bytes c"
  by (auto simp: encode_companion_def companion_bytes_def Let_def result_iff put_frame_iff
      put_count_iff put_witnesses_iff)

lemma unat_of_nat_u32: "n < 2 ^ 32 \<Longrightarrow> unat (of_nat n :: u32) = n"
  by (simp add: unat_of_nat)

lemma read_u32_iff:
  assumes "short r"
  shows "read_u32 r = Inr (n, r') \<longleftrightarrow> reads r (to_be 4 n) r'"
proof
  assume "read_u32 r = Inr (n, r')"
  then have le: "rd_offset r + 4 \<le> length (rd_bytes r)"
    and n: "n = from_be (take 4 (drop (rd_offset r) (rd_bytes r)))"
    and r': "r' = r\<lparr>rd_offset := rd_offset r + 4\<rparr>"
    by (auto simp: read_u32_def LENGTH_BYTES_def Let_def split: if_splits)
  from le n have "to_be 4 n = take 4 (drop (rd_offset r) (rd_bytes r))"
    by (simp add: to_be_from_be)
  with readsI [OF le] r' show "reads r (to_be 4 n) r'" by simp
next
  assume rd: "reads r (to_be 4 n) r'"
  then have le: "rd_offset r + 4 \<le> length (rd_bytes r)" and r': "rd_offset r' = rd_offset r + 4"
    and b: "rd_bytes r' = rd_bytes r"
    by (auto simp: reads_def)
  from reads_take [OF rd] have "take 4 (drop (rd_offset r) (rd_bytes r)) = to_be 4 n" by simp
  then have "from_be (take 4 (drop (rd_offset r) (rd_bytes r))) = n"
    by (simp add: from_be_to_be)
  with le assms r' b show "read_u32 r = Inr (n, r')"
    by (auto simp: read_u32_def LENGTH_BYTES_def Let_def short_def slice_def)
qed

lemma read_frame_iff:
  assumes "short r"
  shows "read_frame r = Inr (f, r') \<longleftrightarrow> length f < 2 ^ 32 \<and> reads r (frame f) r'"
proof
  assume "read_frame r = Inr (f, r')"
  then obtain n r1 where n: "read_u32 r = Inr (n, r1)"
    and le: "rd_offset r1 + unat n \<le> length (rd_bytes r1)"
    and f: "f = take (unat n) (drop (rd_offset r1) (rd_bytes r1))"
    and r': "r' = r1\<lparr>rd_offset := rd_offset r1 + unat n\<rparr>"
    by (auto simp: read_frame_def rbind_Inr_iff Let_def split: if_splits)
  from n assms have r1: "reads r (to_be 4 n) r1" by (simp add: read_u32_iff)
  from f le have len: "length f = unat n" by simp
  from readsI [OF le] f r' have "reads r1 f r'" by simp
  with r1 have "reads r (to_be 4 n @ f) r'" by (rule reads_trans)
  with len unat_less_pow [of n] show "length f < 2 ^ 32 \<and> reads r (frame f) r'"
    by (simp add: frame_def)
next
  assume h: "length f < 2 ^ 32 \<and> reads r (frame f) r'"
  then have "reads r (to_be 4 (of_nat (length f) :: u32) @ f) r'" by (simp add: frame_def)
  then obtain r1 where r1: "reads r (to_be 4 (of_nat (length f) :: u32)) r1" and f: "reads r1 f r'"
    by (rule reads_append)
  from r1 assms have n: "read_u32 r = Inr (of_nat (length f), r1)" by (simp add: read_u32_iff)
  from r1 assms have s1: "short r1" by (rule reads_short)
  from f have b: "rd_bytes r' = rd_bytes r1" and o: "rd_offset r' = rd_offset r1 + length f"
    and le: "rd_offset r' \<le> length (rd_bytes r1)"
    by (auto simp: reads_def)
  from reads_take [OF f] have "take (length f) (drop (rd_offset r1) (rd_bytes r1)) = f" by simp
  with h n b o le s1 show "read_frame r = Inr (f, r')"
    by (auto simp: read_frame_def Let_def unat_of_nat_u32 short_def slice_def)
qed

lemma read_witnesses_iff:
  "short r \<Longrightarrow> read_witnesses n r = Inr (ws, r') \<longleftrightarrow>
     length ws = n \<and> (\<forall>w \<in> set ws. length w < 2 ^ 32) \<and> reads r (concat (map frame ws)) r'"
proof (induction n arbitrary: r ws)
  case 0
  then show ?case by (auto simp: reads_def short_def slice_def)
next
  case (Suc n)
  show ?case
  proof
    assume "read_witnesses (Suc n) r = Inr (ws, r')"
    then obtain w r1 vs where w: "read_frame r = Inr (w, r1)"
      and vs: "read_witnesses n r1 = Inr (vs, r')" and ws: "ws = w # vs"
      by (auto simp: rbind_Inr_iff)
    from w Suc.prems have w': "length w < 2 ^ 32" "reads r (frame w) r1"
      by (simp_all add: read_frame_iff)
    from w'(2) Suc.prems have "short r1" by (rule reads_short)
    with vs Suc.IH have "length vs = n" "\<forall>w \<in> set vs. length w < 2 ^ 32"
      "reads r1 (concat (map frame vs)) r'" by auto
    with w' ws show "length ws = Suc n \<and> (\<forall>w \<in> set ws. length w < 2 ^ 32) \<and>
        reads r (concat (map frame ws)) r'"
      by (auto intro: reads_trans)
  next
    assume h: "length ws = Suc n \<and> (\<forall>w \<in> set ws. length w < 2 ^ 32) \<and>
        reads r (concat (map frame ws)) r'"
    then obtain w vs where ws: "ws = w # vs" by (cases ws) auto
    with h have "reads r (frame w @ concat (map frame vs)) r'" by simp
    then obtain r1 where r1: "reads r (frame w) r1" and vs: "reads r1 (concat (map frame vs)) r'"
      by (rule reads_append)
    from r1 Suc.prems have s1: "short r1" by (rule reads_short)
    from r1 h ws Suc.prems have "read_frame r = Inr (w, r1)" by (simp add: read_frame_iff)
    moreover from vs h ws Suc.IH [OF s1] have "read_witnesses n r1 = Inr (vs, r')" by simp
    ultimately show "read_witnesses (Suc n) r = Inr (ws, r')" by (simp add: ws)
  qed
qed

lemma reads_start: "reads \<lparr>rd_bytes = bs, rd_offset = 0\<rparr> xs r \<and> reader_is_empty r \<longleftrightarrow>
    xs = bs \<and> r = \<lparr>rd_bytes = bs, rd_offset = length bs\<rparr>"
  by (cases r) (auto simp: reads_def reader_is_empty_def)

lemma read_u8_iff: "read_u8 r = Inr (b, r') \<longleftrightarrow> reads r [b] r'"
proof
  assume "read_u8 r = Inr (b, r')"
  then have le: "rd_offset r < length (rd_bytes r)" and b: "b = rd_bytes r ! rd_offset r"
    and r': "r' = r\<lparr>rd_offset := rd_offset r + 1\<rparr>"
    by (auto simp: read_u8_def split: if_splits)
  then show "reads r [b] r'" by (auto simp: reads_def Cons_nth_drop_Suc)
next
  assume rd: "reads r [b] r'"
  then have le: "rd_offset r < length (rd_bytes r)" by (auto simp: reads_def)
  with rd have "b = rd_bytes r ! rd_offset r" by (auto simp: reads_def simp flip: Cons_nth_drop_Suc)
  with rd le show "read_u8 r = Inr (b, r')" by (auto simp: reads_def read_u8_def)
qed

lemma decode_companion_sound:
  assumes s: "slice bs" and d: "decode_companion bs = Inr c"
  shows "companion_ok c \<and> bs = companion_bytes c"
proof -
  let ?r0 = "\<lparr>rd_bytes = bs, rd_offset = 0\<rparr>"
  have s0: "short ?r0" using s by (simp add: short_def)
  from d obtain r1 r2 r3 r4 r5 r6 r7 r8 n where
    step: "read_u8 ?r0 = Inr (RECORD_VERSION, r1)" "read_frame r1 = Inr (sc_root_input c, r2)"
      "read_frame r2 = Inr (sc_b1_update c, r3)" "read_frame r3 = Inr (sc_records c, r4)"
      "read_frame r4 = Inr (sc_pair_binding c, r5)" "read_u32 r5 = Inr (n, r6)"
      "read_witnesses (unat n) r6 = Inr (sc_witnesses c, r7)"
      "read_frame r7 = Inr (sc_provenance c, r8)"
    and fin: "utf8_valid (sc_provenance c)" "reader_is_empty r8"
    by (auto simp: decode_companion_def result_iff split: if_splits)
  from step(1) have m1: "reads ?r0 [RECORD_VERSION] r1" by (simp add: read_u8_iff)
  note s1 = reads_short [OF m1 s0]
  from step(2) have m2: "reads r1 (frame (sc_root_input c)) r2" and l2: "length (sc_root_input c) < 2 ^ 32"
    by (simp_all add: read_frame_iff [OF s1])
  note s2 = reads_short [OF m2 s1]
  from step(3) have m3: "reads r2 (frame (sc_b1_update c)) r3" and l3: "length (sc_b1_update c) < 2 ^ 32"
    by (simp_all add: read_frame_iff [OF s2])
  note s3 = reads_short [OF m3 s2]
  from step(4) have m4: "reads r3 (frame (sc_records c)) r4" and l4: "length (sc_records c) < 2 ^ 32"
    by (simp_all add: read_frame_iff [OF s3])
  note s4 = reads_short [OF m4 s3]
  from step(5) have m5: "reads r4 (frame (sc_pair_binding c)) r5" and l5: "length (sc_pair_binding c) < 2 ^ 32"
    by (simp_all add: read_frame_iff [OF s4])
  note s5 = reads_short [OF m5 s4]
  from step(6) have m6: "reads r5 (to_be 4 n) r6" by (simp add: read_u32_iff [OF s5])
  note s6 = reads_short [OF m6 s5]
  from step(7) have m7: "reads r6 (concat (map frame (sc_witnesses c))) r7"
    and l7: "length (sc_witnesses c) = unat n" "\<forall>w \<in> set (sc_witnesses c). length w < 2 ^ 32"
    by (simp_all add: read_witnesses_iff [OF s6])
  note s7 = reads_short [OF m7 s6]
  from step(8) have m8: "reads r7 (frame (sc_provenance c)) r8" and l8: "length (sc_provenance c) < 2 ^ 32"
    by (simp_all add: read_frame_iff [OF s7])
  have n: "n = of_nat (length (sc_witnesses c))" using l7(1) by simp
  have "reads ?r0 (companion_bytes c) r8"
    using reads_trans [OF m1 reads_trans [OF m2 reads_trans [OF m3 reads_trans [OF m4
      reads_trans [OF m5 reads_trans [OF m6 reads_trans [OF m7 m8]]]]]]]
    by (simp add: companion_bytes_def n)
  with fin(2) have "companion_bytes c = bs" using reads_start by blast
  with l2 l3 l4 l5 l7 l8 fin(1) s unat_less_pow [of n] show "companion_ok c \<and> bs = companion_bytes c"
    by (auto simp: companion_ok_def)
qed

lemma decode_companion_complete:
  assumes s: "slice bs" and h: "companion_ok c \<and> bs = companion_bytes c"
  shows "decode_companion bs = Inr c"
proof -
  let ?r0 = "\<lparr>rd_bytes = bs, rd_offset = 0\<rparr>" and ?r8 = "\<lparr>rd_bytes = bs, rd_offset = length bs\<rparr>"
  have s0: "short ?r0" using s by (simp add: short_def)
  have "reads ?r0 bs ?r8" by (simp add: reads_def)
  then have "reads ?r0 ([RECORD_VERSION] @ frame (sc_root_input c) @ frame (sc_b1_update c) @
      frame (sc_records c) @ frame (sc_pair_binding c) @
      to_be 4 (of_nat (length (sc_witnesses c)) :: u32) @
      concat (map frame (sc_witnesses c)) @ frame (sc_provenance c)) ?r8"
    using h by (simp add: companion_bytes_def)
  then obtain r1 r2 r3 r4 r5 r6 r7 where m: "reads ?r0 [RECORD_VERSION] r1"
    "reads r1 (frame (sc_root_input c)) r2" "reads r2 (frame (sc_b1_update c)) r3"
    "reads r3 (frame (sc_records c)) r4" "reads r4 (frame (sc_pair_binding c)) r5"
    "reads r5 (to_be 4 (of_nat (length (sc_witnesses c)) :: u32)) r6"
    "reads r6 (concat (map frame (sc_witnesses c))) r7" "reads r7 (frame (sc_provenance c)) ?r8"
    by (elim reads_append)
  note s1 = reads_short [OF m(1) s0] note s2 = reads_short [OF m(2) s1]
  note s3 = reads_short [OF m(3) s2] note s4 = reads_short [OF m(4) s3]
  note s5 = reads_short [OF m(5) s4] note s6 = reads_short [OF m(6) s5]
  note s7 = reads_short [OF m(7) s6]
  have "read_u8 ?r0 = Inr (RECORD_VERSION, r1)" "read_frame r1 = Inr (sc_root_input c, r2)"
    "read_frame r2 = Inr (sc_b1_update c, r3)" "read_frame r3 = Inr (sc_records c, r4)"
    "read_frame r4 = Inr (sc_pair_binding c, r5)"
    "read_u32 r5 = Inr (of_nat (length (sc_witnesses c)), r6)"
    "read_witnesses (unat (of_nat (length (sc_witnesses c)) :: u32)) r6 = Inr (sc_witnesses c, r7)"
    "read_frame r7 = Inr (sc_provenance c, ?r8)"
    using m h by (simp_all add: read_u8_iff read_frame_iff [OF s1] read_frame_iff [OF s2]
      read_frame_iff [OF s3] read_frame_iff [OF s4] read_u32_iff [OF s5]
      read_witnesses_iff [OF s6] read_frame_iff [OF s7] companion_ok_def unat_of_nat_u32)
  with h show "decode_companion bs = Inr c"
    by (simp add: decode_companion_def reader_is_empty_def companion_ok_def)
qed

interpretation companion: record_codec companion_bytes decode_companion companion_ok
  by unfold_locales (auto simp: companion_ok_def dest: decode_companion_sound
      intro: decode_companion_complete)

section \<open>The accounting record round trip\<close>

lemma length_encode_accounting [simp]: "length (encode_accounting r) = RECORD_LEN"
  by (simp add: encode_accounting_def RECORD_LEN_def Let_def)

lemma decode_encode_accounting: "decode_accounting (encode_accounting r) = Inr r"
  by (simp add: decode_accounting_def accounting_number_def encode_accounting_def Let_def
      RECORD_LEN_def from_be_to_be nth_append drop_Cons')

lemma take_drop_merge: "take n (drop k bs) @ drop (k + n) bs = drop k bs"
  by (metis add.commute append_take_drop_id drop_drop)

lemma accounting_tiles:
  assumes "length bs = 154"
  shows "take 2 bs @ take 8 (drop 2 bs) @ take 32 (drop 10 bs) @ take 8 (drop 42 bs)
      @ take 32 (drop 50 bs) @ take 8 (drop 82 bs) @ take 8 (drop 90 bs) @ take 8 (drop 98 bs)
      @ take 8 (drop 106 bs) @ take 8 (drop 114 bs) @ take 8 (drop 122 bs) @ take 8 (drop 130 bs)
      @ take 8 (drop 138 bs) @ take 8 (drop 146 bs) = bs"
proof -
  have last: "take 8 (drop 146 bs) = drop 146 bs" using assms by simp
  show ?thesis
    by (simp only: last take_drop_merge [of 8 138 bs, simplified] take_drop_merge [of 8 130 bs, simplified]
        take_drop_merge [of 8 122 bs, simplified] take_drop_merge [of 8 114 bs, simplified]
        take_drop_merge [of 8 106 bs, simplified] take_drop_merge [of 8 98 bs, simplified]
        take_drop_merge [of 8 90 bs, simplified] take_drop_merge [of 8 82 bs, simplified]
        take_drop_merge [of 32 50 bs, simplified] take_drop_merge [of 8 42 bs, simplified]
        take_drop_merge [of 32 10 bs, simplified] take_drop_merge [of 8 2 bs, simplified]
        append_take_drop_id)
qed

lemma encode_decode_accounting:
  assumes "decode_accounting bs = Inr r"
  shows "encode_accounting r = bs"
proof -
  from assms have len: "length bs = 154" and h: "bs ! 0 = SCHEMA" "bs ! 1 = RULE_VERSION"
    by (auto simp: decode_accounting_def RECORD_LEN_def split: if_splits)
  have hd: "[SCHEMA, RULE_VERSION] = take 2 bs"
    using len h by (simp add: take_Suc_conv_app_nth numeral_2_eq_2)
  have number: "to_be 8 (accounting_number bs k) = take 8 (drop k bs)" if "k + 8 \<le> 154" for k
    using that len by (simp add: accounting_number_def to_be_from_be)
  have hash: "b256_bytes (from_be (take 32 (drop k bs))) = take 32 (drop k bs)" if "k + 32 \<le> 154" for k
    using that len by (simp add: to_be_from_be)
  from assms len h show ?thesis
    using accounting_tiles [OF len]
    by (auto simp: decode_accounting_def RECORD_LEN_def encode_accounting_def Let_def number hash
        simp flip: hd)
qed

interpretation accounting: record_codec encode_accounting decode_accounting "\<lambda>_. True"
  by unfold_locales
    (simp_all add: decode_encode_accounting encode_decode_accounting slice_def RECORD_LEN_def)

section \<open>Properties\<close>

text \<open>
  Claim C6. The companion decoder accepts a byte string exactly when it is the encoding of the companion
  it returns: nothing is lost by a round trip, no second byte string decodes to the same companion, and
  trailing, truncated or re-framed bytes are refused. A provenance string is UTF-8 by its Rust type.
\<close>

theorem companion_codec_exact:
  assumes "slice bs"
  shows "decode_companion bs = Inr c \<longleftrightarrow> encode_companion c = Inr bs \<and> utf8_valid (sc_provenance c)"
  using companion.dec_iff [OF assms, of c] assms
  by (auto simp: encode_companion_iff companion_ok_def)

theorem companion_codec_exact_witness:
  "decode_companion [2, 0,0,0,1,7, 0,0,0,0, 0,0,0,0, 0,0,0,0, 0,0,0,1, 0,0,0,0, 0,0,0,1,102] =
     Inr \<lparr>sc_root_input = [7], sc_b1_update = [], sc_records = [], sc_pair_binding = [],
       sc_witnesses = [[]], sc_provenance = ascii ''f''\<rparr>"
  by (subst companion_codec_exact)
    (simp_all add: slice_def encode_companion_def put_frame_def put_count_def put_u32_def ascii_def
      RECORD_VERSION_def to_be_def)
text \<open>
  Claim C7. The 154-byte accounting record is a bijection between records and the byte strings its
  decoder accepts: schema, rule version and length are checked and every field comes back.
\<close>

theorem accounting_codec_exact: "decode_accounting bs = Inr r \<longleftrightarrow> bs = encode_accounting r"
  using decode_encode_accounting encode_decode_accounting by auto

end
