(* ===== verification/Companion_Store.thy ===== *)
theory Companion_Store
  imports Record_Codec
begin

text \<open>
  The durable companion store of \<open>store/src/store.rs\<close>. The MDBX environment it owns is third-party:
  each named database is its documented content, a key-ordered table of byte strings, and every
  MDBX call the code makes can fail. Which calls fail is the parameter \<open>io\<close>; a transaction that
  fails before its commit leaves the tables as they were, as MDBX documents. The theory proves the
  operations against an abstract retention store (a map from block hashes to numbered companions
  with a horizon), for every behaviour of \<open>io\<close>.
\<close>

section \<open>Tables\<close>

type_synonym table = "(bytes \<times> bytes) list"

fun tbl_put :: "bytes \<Rightarrow> bytes \<Rightarrow> table \<Rightarrow> table" where
  "tbl_put k v [] = [(k, v)]"
| "tbl_put k v ((a, b) # t) =
     (if k < a then (k, v) # (a, b) # t else if k = a then (k, v) # t else (a, b) # tbl_put k v t)"

definition tbl_del :: "bytes \<Rightarrow> table \<Rightarrow> table" where
  "tbl_del k t = filter (\<lambda>(a, b). a \<noteq> k) t"

abbreviation tbl_get :: "table \<Rightarrow> bytes \<Rightarrow> bytes option" where
  "tbl_get \<equiv> map_of"

abbreviation tbl_sorted :: "table \<Rightarrow> bool" where
  "tbl_sorted t \<equiv> sorted_wrt (<) (map fst t)"

record companion_store =
  cs_companions :: table
  cs_by_number :: table
  cs_accounting :: table
  cs_accounting_by_number :: table
  cs_meta :: table

section \<open>MDBX calls and transactions\<close>

datatype db_call =
    OpenEnv | CreateDb nat | BeginTxn | GetKey | GetMeta | PutKey nat | DelKey nat | OpenCursor | CursorFirst | CursorNext nat
  | CursorDel nat | Commit | SyncEnv

type_synonym io = "db_call \<Rightarrow> nat option"

definition mdbx :: "io \<Rightarrow> db_call \<Rightarrow> 'a \<Rightarrow> store_error + 'a" where
  "mdbx io c v = (case io c of None \<Rightarrow> Inr v | Some code \<Rightarrow> Inl (Mdbx code))"

text \<open>
  The tail every mutating operation shares: the body's staged tables are committed and the
  environment synced. A body or commit error drops the transaction.
\<close>

definition finish_txn ::
    "io \<Rightarrow> companion_store \<Rightarrow> store_error + companion_store \<Rightarrow> (store_error + unit) \<times> companion_store" where
  "finish_txn io db body =
     (case body of
        Inl e \<Rightarrow> (Inl e, db)
      | Inr db' \<Rightarrow> (case io Commit of
          Some code \<Rightarrow> (Inl (Mdbx code), db)
        | None \<Rightarrow> (mdbx io SyncEnv (), db')))"

section \<open>Keys and stored values\<close>

definition HASH_LEN :: nat where "HASH_LEN = 32"
definition NUMBER_LEN :: nat where "NUMBER_LEN = 8"
definition INDEX_KEY_LEN :: nat where "INDEX_KEY_LEN = NUMBER_LEN + HASH_LEN"
definition HORIZON_KEY :: bytes where "HORIZON_KEY = ascii ''horizon''"
definition EVICTION_CURSOR_KEY :: bytes where "EVICTION_CURSOR_KEY = ascii ''eviction_cursor''"

definition index_key :: "u64 \<Rightarrow> b256 \<Rightarrow> bytes" where
  "index_key number hash = to_be NUMBER_LEN number @ to_be HASH_LEN hash"

definition stored_number :: "bytes \<Rightarrow> store_error + u64" where
  "stored_number v =
     (if length v < NUMBER_LEN then Inl (Corrupt ''stored value has no block number'')
      else Inr (from_be (take NUMBER_LEN v)))"

definition stored_record :: "bytes \<Rightarrow> store_error + bytes" where
  "stored_record v =
     (if length v < NUMBER_LEN then Inl (Corrupt ''stored value has no record'')
      else Inr (drop NUMBER_LEN v))"

definition read_meta_number :: "io \<Rightarrow> table \<Rightarrow> bytes \<Rightarrow> store_error + u64 option" where
  "read_meta_number io meta key =
     rbind (mdbx io GetMeta (tbl_get meta key)) (\<lambda>v. case v of
        None \<Rightarrow> Inr None
      | Some bs \<Rightarrow>
          if length bs \<noteq> NUMBER_LEN then Inl (Corrupt ''metadata number is not eight bytes'')
          else Inr (Some (from_be bs)))"

section \<open>Operations\<close>

datatype lookup = Found seal_companion | Unavailable u64 | Unknown

definition put_accounting ::
    "io \<Rightarrow> companion_store \<Rightarrow> stored_accounting \<Rightarrow> (store_error + unit) \<times> companion_store" where
  "put_accounting io db r =
     (let hash = la_block_hash (sa_accounting r); value = encode_accounting r in
      finish_txn io db (
        rbind (mdbx io BeginTxn ()) (\<lambda>_.
        rbind (mdbx io GetKey (tbl_get (cs_accounting db) (b256_bytes hash))) (\<lambda>old.
        rbind (case old of
                 None \<Rightarrow> Inr ()
               | Some bs \<Rightarrow> rbind (decode_accounting bs) (\<lambda>old.
                   if old \<noteq> r then Inl (Corrupt ''conflicting accounting for block hash'') else Inr ())) (\<lambda>_.
        rbind (mdbx io (PutKey 0) (tbl_put (b256_bytes hash) value (cs_accounting db))) (\<lambda>acc.
        rbind (mdbx io (PutKey 1)
                (tbl_put (index_key (sa_block_number r) hash) [] (cs_accounting_by_number db))) (\<lambda>idx.
        Inr (db\<lparr>cs_accounting := acc, cs_accounting_by_number := idx\<rparr>))))))))"

definition get_accounting :: "io \<Rightarrow> companion_store \<Rightarrow> b256 \<Rightarrow> store_error + stored_accounting option" where
  "get_accounting io db hash =
     rbind (mdbx io BeginTxn ()) (\<lambda>_.
     rbind (mdbx io GetKey (tbl_get (cs_accounting db) (b256_bytes hash))) (\<lambda>v. case v of
        None \<Rightarrow> Inr None
      | Some bs \<Rightarrow> rbind (decode_accounting bs) (\<lambda>r.
          if la_block_hash (sa_accounting r) \<noteq> hash then Inl (Corrupt ''accounting key/hash mismatch'')
          else Inr (Some r))))"

text \<open>
  The cursor walk of the two prune operations: from the first index entry, delete the record and
  the index entry of every number below the bound, stop at the first that is not.
\<close>

fun prune_walk ::
    "io \<Rightarrow> string \<Rightarrow> u64 \<Rightarrow> nat \<Rightarrow> table \<Rightarrow> table \<Rightarrow> table \<Rightarrow> store_error + table \<times> table" where
  "prune_walk io what number i [] recs idx = Inr (recs, idx)"
| "prune_walk io what number i ((key, _) # rest) recs idx =
     (if length key \<noteq> INDEX_KEY_LEN then Inl (Corrupt what)
      else if number \<le> from_be (take NUMBER_LEN key) then Inr (recs, idx)
      else
        rbind (mdbx io (DelKey i) (tbl_del (drop NUMBER_LEN key) recs)) (\<lambda>recs.
        rbind (mdbx io (CursorDel i) (tbl_del key idx)) (\<lambda>idx.
        rbind (mdbx io (CursorNext i) ()) (\<lambda>_.
        prune_walk io what number (Suc i) rest recs idx))))"

definition prune_accounting_below ::
    "io \<Rightarrow> companion_store \<Rightarrow> u64 \<Rightarrow> (store_error + unit) \<times> companion_store" where
  "prune_accounting_below io db number =
     finish_txn io db (
       rbind (mdbx io BeginTxn ()) (\<lambda>_.
       rbind (mdbx io OpenCursor ()) (\<lambda>_.
       rbind (mdbx io CursorFirst ()) (\<lambda>_.
       rbind (prune_walk io ''accounting index key length'' number 0
                (cs_accounting_by_number db) (cs_accounting db) (cs_accounting_by_number db)) (\<lambda>(acc, idx).
       Inr (db\<lparr>cs_accounting := acc, cs_accounting_by_number := idx\<rparr>))))))"

definition store_put ::
    "io \<Rightarrow> companion_store \<Rightarrow> b256 \<Rightarrow> u64 \<Rightarrow> seal_companion \<Rightarrow> (store_error + unit) \<times> companion_store" where
  "store_put io db hash number c =
     finish_txn io db (
       rbind (encode_companion c) (\<lambda>record.
       let value = to_be NUMBER_LEN number @ record in
       rbind (mdbx io BeginTxn ()) (\<lambda>_.
       rbind (mdbx io GetKey (tbl_get (cs_companions db) (b256_bytes hash))) (\<lambda>existing.
       rbind (case existing of
                None \<Rightarrow> Inr (cs_by_number db)
              | Some v \<Rightarrow> rbind (stored_number v) (\<lambda>old_number.
                  if old_number \<noteq> number
                  then mdbx io (DelKey 0) (tbl_del (index_key old_number hash) (cs_by_number db))
                  else Inr (cs_by_number db))) (\<lambda>idx.
       rbind (mdbx io (PutKey 0) (tbl_put (b256_bytes hash) value (cs_companions db))) (\<lambda>comp.
       rbind (mdbx io (PutKey 1) (tbl_put (index_key number hash) [] idx)) (\<lambda>idx.
       Inr (db\<lparr>cs_companions := comp, cs_by_number := idx\<rparr>))))))))"

definition store_get :: "io \<Rightarrow> companion_store \<Rightarrow> b256 \<Rightarrow> store_error + lookup" where
  "store_get io db hash =
     rbind (mdbx io BeginTxn ()) (\<lambda>_.
     rbind (mdbx io GetKey (tbl_get (cs_companions db) (b256_bytes hash))) (\<lambda>v. case v of
        Some value \<Rightarrow> rbind (stored_record value) (\<lambda>record.
          rbind (decode_companion record) (\<lambda>c. Inr (Found c)))
      | None \<Rightarrow> rbind (read_meta_number io (cs_meta db) HORIZON_KEY) (\<lambda>h. case h of
            Some horizon \<Rightarrow> Inr (Unavailable horizon)
          | None \<Rightarrow> Inr Unknown)))"

definition store_remove :: "io \<Rightarrow> companion_store \<Rightarrow> b256 \<Rightarrow> (store_error + unit) \<times> companion_store" where
  "store_remove io db hash =
     finish_txn io db (
       rbind (mdbx io BeginTxn ()) (\<lambda>_.
       rbind (mdbx io GetKey (tbl_get (cs_companions db) (b256_bytes hash))) (\<lambda>existing. case existing of
          None \<Rightarrow> Inr db
        | Some v \<Rightarrow> rbind (stored_number v) (\<lambda>number.
            rbind (mdbx io (DelKey 0) (tbl_del (b256_bytes hash) (cs_companions db))) (\<lambda>comp.
            rbind (mdbx io (DelKey 1) (tbl_del (index_key number hash) (cs_by_number db))) (\<lambda>idx.
            Inr (db\<lparr>cs_companions := comp, cs_by_number := idx\<rparr>)))))))"

text \<open>
  \<open>set_range\<close> positions the cursor at the first key not below its argument; the walk then reads
  keys in order until a number reaches the upper bound.
\<close>

fun range_walk :: "io \<Rightarrow> u64 \<Rightarrow> nat \<Rightarrow> table \<Rightarrow> store_error + (b256 \<times> u64) list" where
  "range_walk io to i [] = Inr []"
| "range_walk io to i ((key, _) # rest) =
     (if length key \<noteq> INDEX_KEY_LEN then Inl (Corrupt ''index key has the wrong length'')
      else let number = from_be (take NUMBER_LEN key) in
        if to \<le> number then Inr []
        else rbind (mdbx io (CursorNext i) ()) (\<lambda>_.
             rbind (range_walk io to (Suc i) rest) (\<lambda>es.
             Inr ((from_be (drop NUMBER_LEN key), number) # es))))"

definition entries_in_range ::
    "io \<Rightarrow> companion_store \<Rightarrow> u64 \<Rightarrow> u64 \<Rightarrow> store_error + (b256 \<times> u64) list" where
  "entries_in_range io db from to =
     rbind (mdbx io BeginTxn ()) (\<lambda>_.
     rbind (mdbx io OpenCursor ()) (\<lambda>_.
     rbind (mdbx io CursorFirst ()) (\<lambda>_.
     range_walk io to 0 (dropWhile (\<lambda>(k, _). k < to_be NUMBER_LEN from) (cs_by_number db)))))"

definition prune_below :: "io \<Rightarrow> companion_store \<Rightarrow> u64 \<Rightarrow> (store_error + unit) \<times> companion_store" where
  "prune_below io db number =
     finish_txn io db (
       rbind (mdbx io BeginTxn ()) (\<lambda>_.
       rbind (read_meta_number io (cs_meta db) HORIZON_KEY) (\<lambda>current.
       let target = (case current of None \<Rightarrow> number | Some c \<Rightarrow> max c number) in
       rbind (mdbx io OpenCursor ()) (\<lambda>_.
       rbind (mdbx io CursorFirst ()) (\<lambda>_.
       rbind (prune_walk io ''index key has the wrong length'' number 0
                (cs_by_number db) (cs_companions db) (cs_by_number db)) (\<lambda>(comp, idx).
       rbind (mdbx io (PutKey 0) (tbl_put HORIZON_KEY (to_be 8 target) (cs_meta db))) (\<lambda>meta.
       Inr (db\<lparr>cs_companions := comp, cs_by_number := idx, cs_meta := meta\<rparr>))))))))"

definition set_horizon :: "io \<Rightarrow> companion_store \<Rightarrow> u64 \<Rightarrow> (store_error + unit) \<times> companion_store" where
  "set_horizon io db number =
     finish_txn io db (
       rbind (mdbx io BeginTxn ()) (\<lambda>_.
       rbind (read_meta_number io (cs_meta db) HORIZON_KEY) (\<lambda>current.
       case current of
         Some c \<Rightarrow>
           if number < c then Inl (HorizonRegression c number)
           else rbind (mdbx io (PutKey 0) (tbl_put HORIZON_KEY (to_be 8 number) (cs_meta db)))
                  (\<lambda>meta. Inr (db\<lparr>cs_meta := meta\<rparr>))
       | None \<Rightarrow> rbind (mdbx io (PutKey 0) (tbl_put HORIZON_KEY (to_be 8 number) (cs_meta db)))
                  (\<lambda>meta. Inr (db\<lparr>cs_meta := meta\<rparr>)))))"

definition horizon :: "io \<Rightarrow> companion_store \<Rightarrow> store_error + u64 option" where
  "horizon io db = rbind (mdbx io BeginTxn ()) (\<lambda>_. read_meta_number io (cs_meta db) HORIZON_KEY)"

definition eviction_cursor :: "io \<Rightarrow> companion_store \<Rightarrow> store_error + u64 option" where
  "eviction_cursor io db =
     rbind (mdbx io BeginTxn ()) (\<lambda>_. read_meta_number io (cs_meta db) EVICTION_CURSOR_KEY)"

definition set_eviction_cursor ::
    "io \<Rightarrow> companion_store \<Rightarrow> u64 \<Rightarrow> (store_error + unit) \<times> companion_store" where
  "set_eviction_cursor io db number =
     finish_txn io db (
       rbind (mdbx io BeginTxn ()) (\<lambda>_.
       rbind (read_meta_number io (cs_meta db) EVICTION_CURSOR_KEY) (\<lambda>current.
       let target = (case current of None \<Rightarrow> number | Some c \<Rightarrow> max c number) in
       rbind (mdbx io (PutKey 0) (tbl_put EVICTION_CURSOR_KEY (to_be 8 target) (cs_meta db))) (\<lambda>meta.
       Inr (db\<lparr>cs_meta := meta\<rparr>)))))"

text \<open>
  \<open>open\<close> creates the directory and the named databases, keeping what a store already there holds;
  \<open>mkdir\<close> is the outcome of \<open>create_dir_all\<close> and \<open>disk\<close> the content found, if any.
\<close>

definition empty_store :: companion_store where
  "empty_store = \<lparr>cs_companions = [], cs_by_number = [], cs_accounting = [],
                  cs_accounting_by_number = [], cs_meta = []\<rparr>"

definition open_store :: "io \<Rightarrow> nat option \<Rightarrow> companion_store option \<Rightarrow> store_error + companion_store" where
  "open_store io mkdir disk =
     rbind (case mkdir of None \<Rightarrow> Inr () | Some code \<Rightarrow> Inl (Io code)) (\<lambda>_.
     rbind (mdbx io OpenEnv ()) (\<lambda>_.
     rbind (mdbx io BeginTxn ()) (\<lambda>_.
     rbind (mdbx io (CreateDb 0) ()) (\<lambda>_.
     rbind (mdbx io (CreateDb 1) ()) (\<lambda>_.
     rbind (mdbx io (CreateDb 2) ()) (\<lambda>_.
     rbind (mdbx io (CreateDb 3) ()) (\<lambda>_.
     rbind (mdbx io (CreateDb 4) ()) (\<lambda>_.
     mdbx io Commit (case disk of None \<Rightarrow> empty_store | Some db \<Rightarrow> db)))))))))"

section \<open>Table lemmas\<close>

lemma map_of_tbl_put [simp]: "map_of (tbl_put k v t) = (map_of t)(k \<mapsto> v)"
  by (induction t) (auto simp: fun_eq_iff)

lemma map_of_tbl_del [simp]: "map_of (tbl_del k t) = (map_of t)(k := None)"
  by (induction t) (auto simp: tbl_del_def fun_eq_iff)

lemma keys_tbl_put [simp]: "fst ` set (tbl_put k v t) = insert k (fst ` set t)"
  by (induction k v t rule: tbl_put.induct) (simp_all add: insert_commute)

lemma keys_tbl_del [simp]: "fst ` set (tbl_del k t) = fst ` set t - {k}"
  by (auto simp: tbl_del_def)

lemma tbl_sorted_put: "tbl_sorted t \<Longrightarrow> tbl_sorted (tbl_put k v t)"
proof (induction t)
  case Nil
  show ?case by simp
next
  case (Cons e t)
  obtain a b where e: "e = (a, b)" by force
  from Cons.prems e have le: "\<forall>x \<in> set (map fst t). a < x" and srt: "tbl_sorted t" by auto
  from srt have "tbl_sorted (tbl_put k v t)" by (rule Cons.IH)
  with le srt show ?case using keys_tbl_put [of k v t] by (auto simp: e)
qed

lemma tbl_sorted_del: "tbl_sorted t \<Longrightarrow> tbl_sorted (tbl_del k t)"
  by (induction t) (auto simp: tbl_del_def)

lemma be_nat_Cons: "be_nat (x # xs) = unat x * 256 ^ length xs + be_nat xs"
proof (induction xs rule: rev_induct)
  case Nil
  show ?case by (simp add: be_nat_def)
next
  case (snoc y ys)
  have "be_nat ((x # ys) @ [y]) = be_nat (x # ys) * 256 + unat y" by (rule be_nat_snoc)
  with snoc show ?case by (simp add: algebra_simps)
qed

text \<open>MDBX's key order on equal-length keys is the order of their big-endian values.\<close>

lemma less_iff_be_nat: "length xs = length ys \<Longrightarrow> xs < ys \<longleftrightarrow> be_nat xs < be_nat ys"
proof (induction xs ys rule: list_induct2)
  case Nil
  show ?case by simp
next
  case (Cons x xs y ys)
  have bx: "be_nat xs < 256 ^ length ys" and by': "be_nat ys < 256 ^ length ys"
    using be_nat_bound [of xs] be_nat_bound [of ys] Cons.hyps by simp_all
  have step: "unat a * n + i < unat b * n + j" if "unat a < unat b" "i < n" for a b :: u8 and n i j :: nat
  proof -
    have "unat a * n + i < unat a * n + n" using that by simp
    also have "\<dots> = Suc (unat a) * n" by simp
    also have "\<dots> \<le> unat b * n" using that by (intro mult_le_mono) simp_all
    finally show ?thesis by simp
  qed
  show ?case
  proof (cases "unat x" "unat y" rule: linorder_cases)
    case less
    with step [OF less bx] Cons.hyps show ?thesis
      by (simp add: be_nat_Cons word_less_nat_alt)
  next
    case equal
    then have "x = y" by (simp add: word_unat_eq_iff)
    with Cons show ?thesis by (simp add: be_nat_Cons)
  next
    case greater
    then have "\<not> x < y" "x \<noteq> y" by (auto simp: word_less_nat_alt)
    with step [OF greater by', of "be_nat xs"] Cons.hyps show ?thesis
      by (simp add: be_nat_Cons)
  qed
qed

lemma be_nat_take: "be_nat (take n xs) = be_nat xs div 256 ^ (length xs - n)"
proof (induction xs rule: rev_induct)
  case Nil
  show ?case by simp
next
  case (snoc x xs)
  show ?case
  proof (cases "n \<le> length xs")
    case True
    have "(be_nat xs * 256 + unat x) div 256 = be_nat xs" using unat_byte_less [of x] by simp
    then have "(be_nat xs * 256 + unat x) div (256 * 256 ^ (length xs - n))
        = be_nat xs div 256 ^ (length xs - n)"
      by (simp add: div_mult2_eq)
    with snoc True show ?thesis by (simp add: Suc_diff_le)
  next
    case False
    then show ?thesis by simp
  qed
qed

lemma from_be_take_mono:
  assumes "xs < ys" "length xs = length ys" "n \<le> length ys" "8 * n \<le> LENGTH('a)"
  shows "(from_be (take n xs) :: 'a::len word) \<le> from_be (take n ys)"
proof -
  from assms(1,2) have "be_nat xs < be_nat ys" by (simp add: less_iff_be_nat)
  then have "be_nat (take n xs) \<le> be_nat (take n ys)"
    using assms(2) by (simp add: be_nat_take div_le_mono)
  with assms show ?thesis by (simp add: word_le_nat_alt unat_from_be)
qed

section \<open>A record table and its number index\<close>

text \<open>
  Companions and accounting records are each kept with an index keyed by number and hash. The
  index holds exactly one entry per record, under the number stored in the record.
\<close>

lemma index_entry_eq:
  "to_be NUMBER_LEN (m :: u64) @ j = to_be NUMBER_LEN n @ k \<longleftrightarrow> m = n \<and> j = k"
  by (simp add: to_be_inj NUMBER_LEN_def)

definition index_keys :: "(bytes \<Rightarrow> u64) \<Rightarrow> (bytes \<rightharpoonup> bytes) \<Rightarrow> bytes set" where
  "index_keys num m = {to_be NUMBER_LEN (num v) @ k | k v. m k = Some v}"

lemma index_keys_upd:
  "index_keys num (m(k \<mapsto> v)) = insert (to_be NUMBER_LEN (num v) @ k) (index_keys num (m(k := None)))"
  by (auto simp: index_keys_def split: if_splits)

lemma index_keys_remove:
  assumes "m k = Some v"
  shows "index_keys num (m(k := None)) = index_keys num m - {to_be NUMBER_LEN (num v) @ k}"
proof -
  have "m j = Some u \<and> j \<noteq> k \<longleftrightarrow>
      m j = Some u \<and> to_be NUMBER_LEN (num u) @ j \<noteq> to_be NUMBER_LEN (num v) @ k" for j u
    using assms by (auto simp: index_entry_eq)
  then show ?thesis by (auto simp: index_keys_def split: if_splits)
qed

lemma index_keys_empty: "index_keys num m = {} \<longleftrightarrow> m = Map.empty"
proof
  assume e: "index_keys num m = {}"
  have "m k = None" for k
  proof (rule ccontr)
    assume "m k \<noteq> None"
    then obtain v where "m k = Some v" by auto
    then have "to_be NUMBER_LEN (num v) @ k \<in> index_keys num m" by (auto simp: index_keys_def)
    with e show False by simp
  qed
  then show "m = Map.empty" by (simp add: fun_eq_iff)
qed (simp add: index_keys_def)

lemma index_keys_absent: "m k = None \<Longrightarrow> m(k := None) = m"
  by auto

definition indexed :: "(bytes \<Rightarrow> u64) \<Rightarrow> table \<Rightarrow> table \<Rightarrow> bool" where
  "indexed num recs idx \<longleftrightarrow>
     tbl_sorted idx \<and> (\<forall>k v. map_of recs k = Some v \<longrightarrow> length k = HASH_LEN) \<and>
     fst ` set idx = index_keys num (map_of recs)"

lemma indexed_put:
  assumes ix: "indexed num recs idx" and k: "length k = HASH_LEN"
    and idx': "idx' = (case map_of recs k of
        None \<Rightarrow> idx
      | Some old \<Rightarrow> if num old \<noteq> num v then tbl_del (to_be NUMBER_LEN (num old) @ k) idx else idx)"
  shows "indexed num (tbl_put k v recs) (tbl_put (to_be NUMBER_LEN (num v) @ k) [] idx')"
proof -
  let ?new = "to_be NUMBER_LEN (num v) @ k"
  from ix have srt: "tbl_sorted idx'"
    by (auto simp: indexed_def idx' tbl_sorted_del split: option.splits)
  have "insert ?new (fst ` set idx') = insert ?new (index_keys num ((map_of recs)(k := None)))"
  proof (cases "map_of recs k")
    case None
    with ix idx' show ?thesis by (simp add: indexed_def index_keys_absent)
  next
    case (Some old)
    have rm: "index_keys num ((map_of recs)(k := None))
        = fst ` set idx - {to_be NUMBER_LEN (num old) @ k}"
      using ix index_keys_remove [of "map_of recs" k old num] Some by (simp add: indexed_def)
    show ?thesis
    proof (cases "num old = num v")
      case True
      with Some rm idx' show ?thesis by auto
    next
      case False
      with Some rm idx' show ?thesis by simp
    qed
  qed
  with ix k srt show ?thesis
    by (simp add: indexed_def index_keys_upd tbl_sorted_put)
qed

lemma indexed_del:
  assumes ix: "indexed num recs idx" and v: "map_of recs k = Some v"
  shows "indexed num (tbl_del k recs) (tbl_del (to_be NUMBER_LEN (num v) @ k) idx)"
  using ix index_keys_remove [of "map_of recs" k v num] v by (simp add: indexed_def tbl_sorted_del)

lemma indexed_first:
  assumes "indexed num recs ((key, x) # rest)"
  obtains k v where "map_of recs k = Some v" "key = to_be NUMBER_LEN (num v) @ k" "length k = HASH_LEN"
    "tbl_del key ((key, x) # rest) = rest"
proof -
  from assms have "key \<in> index_keys num (map_of recs)" by (auto simp: indexed_def)
  then obtain k v where kv: "map_of recs k = Some v" "key = to_be NUMBER_LEN (num v) @ k"
    by (auto simp: index_keys_def)
  moreover from assms have "\<forall>e \<in> set rest. fst e \<noteq> key" by (auto simp: indexed_def)
  then have "tbl_del key ((key, x) # rest) = rest" by (auto simp: tbl_del_def filter_id_conv)
  moreover from assms kv have "length k = HASH_LEN" by (auto simp: indexed_def)
  ultimately show thesis by (intro that)
qed

lemma indexed_number_le:
  assumes ix: "indexed num recs ((to_be NUMBER_LEN (num v) @ k, x) # rest)"
    and v: "map_of recs k = Some v" and u: "map_of recs j = Some u"
  shows "num v \<le> num u"
proof -
  let ?key = "to_be NUMBER_LEN (num v) @ k" and ?ukey = "to_be NUMBER_LEN (num u) @ j"
  from u have "?ukey \<in> index_keys num (map_of recs)" by (auto simp: index_keys_def)
  with ix have "?ukey \<in> insert ?key (fst ` set rest)" by (simp add: indexed_def)
  moreover have "\<forall>x \<in> fst ` set rest. ?key < x" using ix by (simp add: indexed_def)
  ultimately have "?ukey = ?key \<or> ?key < ?ukey" by blast
  moreover have "length ?key = length ?ukey" using ix v u by (auto simp: indexed_def)
  ultimately have "(from_be (take NUMBER_LEN ?key) :: u64) \<le> from_be (take NUMBER_LEN ?ukey)"
    using from_be_take_mono [where 'a = 64, of ?key ?ukey NUMBER_LEN] by (auto simp: NUMBER_LEN_def)
  then show ?thesis by (simp add: NUMBER_LEN_def from_be_to_be)
qed

definition keep_from :: "(bytes \<Rightarrow> u64) \<Rightarrow> u64 \<Rightarrow> (bytes \<rightharpoonup> bytes) \<Rightarrow> (bytes \<rightharpoonup> bytes)" where
  "keep_from num b m k = (case m k of None \<Rightarrow> None | Some v \<Rightarrow> if b \<le> num v then Some v else None)"

lemma mdbx_Inr_iff [result_iff]: "mdbx io c v = Inr w \<longleftrightarrow> io c = None \<and> w = v"
  by (auto simp: mdbx_def split: option.splits)

lemma prune_walk_step:
  assumes "indexed num recs ((key, x) # rest)" "\<not> b \<le> num v"
    and "map_of recs k = Some v" "key = to_be NUMBER_LEN (num v) @ k" "length k = HASH_LEN"
    and "tbl_del key ((key, x) # rest) = rest"
  shows "prune_walk io what b i ((key, x) # rest) recs ((key, x) # rest) =
      rbind (mdbx io (DelKey i) ()) (\<lambda>_. rbind (mdbx io (CursorDel i) ()) (\<lambda>_.
      rbind (mdbx io (CursorNext i) ()) (\<lambda>_. prune_walk io what b (Suc i) rest (tbl_del k recs) rest)))"
  using assms
  by (auto simp: INDEX_KEY_LEN_def NUMBER_LEN_def from_be_to_be mdbx_def split: option.splits)

lemma prune_walk_ok:
  "indexed num recs idx \<Longrightarrow> prune_walk io what b i idx recs idx = Inr (recs', idx') \<Longrightarrow>
     indexed num recs' idx' \<and> map_of recs' = keep_from num b (map_of recs)"
proof (induction idx arbitrary: i recs)
  case Nil
  then have "index_keys num (map_of recs) = {}" by (simp add: indexed_def)
  then have "map_of recs = Map.empty" by (simp only: index_keys_empty)
  with Nil show ?case by (simp add: keep_from_def fun_eq_iff)
next
  case (Cons e rest)
  obtain key x where e: "e = (key, x)" by force
  from Cons.prems(1) [unfolded e] obtain k v where kv: "map_of recs k = Some v"
    "key = to_be NUMBER_LEN (num v) @ k" "length k = HASH_LEN" "tbl_del key ((key, x) # rest) = rest"
    by (rule indexed_first)
  show ?case
  proof (cases "b \<le> num v")
    case True
    with Cons.prems kv have "recs' = recs" "idx' = e # rest"
      by (auto simp: e INDEX_KEY_LEN_def NUMBER_LEN_def from_be_to_be)
    moreover have "b \<le> num u" if "map_of recs j = Some u" for j u
      using indexed_number_le [of num recs v k x rest j u] Cons.prems(1) kv that True by (simp add: e)
    then have "keep_from num b (map_of recs) = map_of recs"
      by (auto simp: keep_from_def fun_eq_iff split: option.splits)
    ultimately show ?thesis using Cons.prems(1) by simp
  next
    case False
    from Cons.prems(2) have w: "prune_walk io what b (Suc i) rest (tbl_del k recs) rest = Inr (recs', idx')"
      by (simp only: e prune_walk_step [OF Cons.prems(1) [unfolded e] False kv]) (auto simp: result_iff)
    have "indexed num (tbl_del k recs) rest"
      using indexed_del [OF Cons.prems(1) kv(1)] kv by (simp add: e)
    from Cons.IH [OF this w] False kv(1) show ?thesis
      by (auto simp: keep_from_def fun_eq_iff)
  qed
qed

lemma prune_walk_total:
  "indexed num recs idx \<Longrightarrow> (\<And>c. io c = None) \<Longrightarrow> is_ok (prune_walk io what b i idx recs idx)"
proof (induction idx arbitrary: i recs)
  case Nil
  show ?case by simp
next
  case (Cons e rest)
  obtain key x where e: "e = (key, x)" by force
  from Cons.prems(1) [unfolded e] obtain k v where kv: "map_of recs k = Some v"
    "key = to_be NUMBER_LEN (num v) @ k" "length k = HASH_LEN" "tbl_del key ((key, x) # rest) = rest"
    by (rule indexed_first)
  show ?case
  proof (cases "b \<le> num v")
    case True
    with kv show ?thesis by (simp add: e INDEX_KEY_LEN_def NUMBER_LEN_def from_be_to_be)
  next
    case False
    have "indexed num (tbl_del k recs) rest"
      using indexed_del [OF Cons.prems(1) kv(1)] kv by (simp add: e)
    then have "is_ok (prune_walk io what b (Suc i) rest (tbl_del k recs) rest)"
      using Cons.prems(2) by (rule Cons.IH)
    then show ?thesis
      by (simp only: e prune_walk_step [OF Cons.prems(1) [unfolded e] False kv])
        (simp add: mdbx_def Cons.prems(2))
  qed
qed

section \<open>The abstract store\<close>

text \<open>
  What the crate promises: a map from block hashes to numbered companions, a map of accounting
  records, the retention horizon and the eviction cursor.
\<close>

record retention =
  rt_view :: "b256 \<rightharpoonup> u64 \<times> seal_companion"
  rt_accounting :: "b256 \<rightharpoonup> stored_accounting"
  rt_horizon :: "u64 option"
  rt_cursor :: "u64 option"

datatype store_op =
    Put b256 u64 seal_companion | Remove b256 | PruneBelow u64 | SetHorizon u64
  | SetEvictionCursor u64 | PutAccounting stored_accounting | PruneAccountingBelow u64

fun store_exec :: "io \<Rightarrow> store_op \<Rightarrow> companion_store \<Rightarrow> (store_error + unit) \<times> companion_store" where
  "store_exec io (Put h n c) db = store_put io db h n c"
| "store_exec io (Remove h) db = store_remove io db h"
| "store_exec io (PruneBelow n) db = prune_below io db n"
| "store_exec io (SetHorizon n) db = set_horizon io db n"
| "store_exec io (SetEvictionCursor n) db = set_eviction_cursor io db n"
| "store_exec io (PutAccounting r) db = put_accounting io db r"
| "store_exec io (PruneAccountingBelow n) db = prune_accounting_below io db n"

definition raise_to :: "u64 \<Rightarrow> u64 option \<Rightarrow> u64 option" where
  "raise_to n cur = Some (case cur of None \<Rightarrow> n | Some c \<Rightarrow> max c n)"

text \<open>
  The effect of each operation, or \<open>None\<close> where the store must refuse: a companion too large for
  the format, a horizon that would move backwards, accounting that contradicts the record kept.
\<close>

definition fits :: "seal_companion \<Rightarrow> bool" where
  "fits c \<longleftrightarrow> is_ok (encode_companion c)"

fun abs_exec :: "store_op \<Rightarrow> retention \<Rightarrow> retention option" where
  "abs_exec (Put h n c) s = (if fits c then Some (s\<lparr>rt_view := (rt_view s)(h \<mapsto> (n, c))\<rparr>) else None)"
| "abs_exec (Remove h) s = Some (s\<lparr>rt_view := (rt_view s)(h := None)\<rparr>)"
| "abs_exec (PruneBelow n) s = Some (s\<lparr>
     rt_view := (\<lambda>h. case rt_view s h of None \<Rightarrow> None | Some (m, c) \<Rightarrow> if n \<le> m then Some (m, c) else None),
     rt_horizon := raise_to n (rt_horizon s)\<rparr>)"
| "abs_exec (SetHorizon n) s =
     (case rt_horizon s of
        Some c \<Rightarrow> if n < c then None else Some (s\<lparr>rt_horizon := Some n\<rparr>)
      | None \<Rightarrow> Some (s\<lparr>rt_horizon := Some n\<rparr>))"
| "abs_exec (SetEvictionCursor n) s = Some (s\<lparr>rt_cursor := raise_to n (rt_cursor s)\<rparr>)"
| "abs_exec (PutAccounting r) s =
     (let h = la_block_hash (sa_accounting r) in
      if rt_accounting s h = None \<or> rt_accounting s h = Some r
      then Some (s\<lparr>rt_accounting := (rt_accounting s)(h \<mapsto> r)\<rparr>) else None)"
| "abs_exec (PruneAccountingBelow n) s = Some (s\<lparr>
     rt_accounting := (\<lambda>h. case rt_accounting s h of None \<Rightarrow> None
        | Some r \<Rightarrow> if n \<le> sa_block_number r then Some r else None)\<rparr>)"

text \<open>A companion handed to \<open>put\<close> is a Rust value: a UTF-8 provenance and a slice-sized record.\<close>

fun op_ok :: "store_op \<Rightarrow> bool" where
  "op_ok (Put h n c) \<longleftrightarrow> utf8_valid (sc_provenance c) \<and> slice (companion_bytes c)"
| "op_ok _ \<longleftrightarrow> True"

definition comp_num :: "bytes \<Rightarrow> u64" where
  "comp_num v = from_be (take NUMBER_LEN v)"

definition comp_value :: "u64 \<Rightarrow> seal_companion \<Rightarrow> bytes" where
  "comp_value n c = to_be NUMBER_LEN n @ companion_bytes c"

definition acct_num :: "bytes \<Rightarrow> u64" where
  "acct_num v = accounting_number v 42"

definition abs_store :: "companion_store \<Rightarrow> retention" where
  "abs_store db = \<lparr>
     rt_view = (\<lambda>h. case map_of (cs_companions db) (b256_bytes h) of
        None \<Rightarrow> None
      | Some v \<Rightarrow> (case decode_companion (drop NUMBER_LEN v) of
            Inl _ \<Rightarrow> None | Inr c \<Rightarrow> Some (comp_num v, c))),
     rt_accounting = (\<lambda>h. case map_of (cs_accounting db) (b256_bytes h) of
        None \<Rightarrow> None
      | Some v \<Rightarrow> (case decode_accounting v of Inl _ \<Rightarrow> None | Inr r \<Rightarrow> Some r)),
     rt_horizon = map_option from_be (map_of (cs_meta db) HORIZON_KEY),
     rt_cursor = map_option from_be (map_of (cs_meta db) EVICTION_CURSOR_KEY)\<rparr>"

definition store_inv :: "companion_store \<Rightarrow> bool" where
  "store_inv db \<longleftrightarrow>
     indexed comp_num (cs_companions db) (cs_by_number db) \<and>
     indexed acct_num (cs_accounting db) (cs_accounting_by_number db) \<and>
     (\<forall>k v. map_of (cs_companions db) k = Some v \<longrightarrow>
        (\<exists>n c. companion_ok c \<and> v = comp_value n c)) \<and>
     (\<forall>k v. map_of (cs_accounting db) k = Some v \<longrightarrow>
        (\<exists>r. k = b256_bytes (la_block_hash (sa_accounting r)) \<and> v = encode_accounting r)) \<and>
     (\<forall>key \<in> {HORIZON_KEY, EVICTION_CURSOR_KEY}. \<forall>v. map_of (cs_meta db) key = Some v \<longrightarrow>
        length v = NUMBER_LEN)"

text \<open>
  What an operation may do to the store: succeed with the abstract effect, refuse and leave every
  table as it was, or fail in the final sync with the abstract effect already committed.
\<close>

definition refines_step ::
    "io \<Rightarrow> (retention \<Rightarrow> retention option) \<Rightarrow> companion_store
      \<Rightarrow> (store_error + unit) \<times> companion_store \<Rightarrow> bool" where
  "refines_step io f db out \<longleftrightarrow>
     (let (res, db') = out in
      if is_ok res then store_inv db' \<and> f (abs_store db) = Some (abs_store db')
      else db' = db \<or>
        (io Commit = None \<and> io SyncEnv \<noteq> None \<and> store_inv db' \<and> f (abs_store db) = Some (abs_store db')))"

lemma finish_txn_refines:
  assumes "\<And>db'. body = Inr db' \<Longrightarrow> store_inv db' \<and> f (abs_store db) = Some (abs_store db')"
  shows "refines_step io f db (finish_txn io db body)"
proof (cases body)
  case (Inl e)
  then show ?thesis by (simp add: refines_step_def finish_txn_def)
next
  case (Inr db')
  with assms show ?thesis
    by (auto simp: refines_step_def finish_txn_def mdbx_def split: option.splits)
qed

lemma finish_txn_ok: "(\<And>c. io c = None) \<Longrightarrow> is_ok body \<Longrightarrow> is_ok (fst (finish_txn io db body))"
  by (auto simp: finish_txn_def mdbx_def split: sum.splits)

lemma comp_value_simps [simp]:
  "comp_num (comp_value n c) = n" "drop NUMBER_LEN (comp_value n c) = companion_bytes c"
  by (simp_all add: comp_num_def comp_value_def NUMBER_LEN_def from_be_to_be)

lemma acct_num_encode [simp]: "acct_num (encode_accounting r) = sa_block_number r"
  by (simp add: acct_num_def accounting_number_def encode_accounting_def Let_def from_be_to_be drop_Cons')

lemma b256_bytes_inj [simp]: "b256_bytes g = b256_bytes h \<longleftrightarrow> g = h"
  by (simp add: to_be_inj)

lemma index_key_alt: "index_key n h = to_be NUMBER_LEN n @ b256_bytes h"
  by (simp add: index_key_def HASH_LEN_def)

lemma meta_keys_distinct [simp]: "HORIZON_KEY \<noteq> EVICTION_CURSOR_KEY"
  by (simp add: HORIZON_KEY_def EVICTION_CURSOR_KEY_def ascii_def)

lemma view_value:
  assumes "store_inv db" "map_of (cs_companions db) (b256_bytes h) = Some v"
  obtains n c where "companion_ok c" "v = comp_value n c" "rt_view (abs_store db) h = Some (n, c)"
proof -
  from assms obtain n c where "companion_ok c" "v = comp_value n c"
    unfolding store_inv_def by blast
  then show thesis using assms(2) by (intro that) (simp_all add: abs_store_def companion.dec_enc)
qed

lemma read_horizon:
  assumes "store_inv db" "key = HORIZON_KEY \<or> key = EVICTION_CURSOR_KEY"
  shows "read_meta_number io (cs_meta db) key =
    mdbx io GetMeta (map_option from_be (map_of (cs_meta db) key))"
  using assms by (auto simp: read_meta_number_def mdbx_def store_inv_def split: option.splits)

lemma meta_keys_distinct' [simp]: "EVICTION_CURSOR_KEY \<noteq> HORIZON_KEY"
  using meta_keys_distinct by metis

lemma old_number:
  assumes "store_inv db" "map_of (cs_companions db) (b256_bytes h) = Some v"
  shows "stored_number v = Inr (comp_num v)"
proof -
  from assms obtain n c where "v = comp_value n c" by (rule view_value)
  then show ?thesis by (simp add: stored_number_def comp_num_def comp_value_def)
qed

lemma encode_companion_bytes: "encode_companion c = Inr r \<Longrightarrow> r = companion_bytes c"
  by (simp add: encode_companion_iff)

lemma store_put_refines:
  assumes inv: "store_inv db" and ok: "op_ok (Put h n c)"
  shows "refines_step io (abs_exec (Put h n c)) db (store_put io db h n c)"
  unfolding store_put_def
proof (rule finish_txn_refines, goal_cases)
  case (1 db')
  let ?k = "b256_bytes h"
  from 1 have enc: "encode_companion c = Inr (companion_bytes c)"
    by (auto simp: rbind_Inr_iff dest: encode_companion_bytes)
  with ok have cok: "companion_ok c" by (auto simp: encode_companion_iff companion_ok_def)
  from 1 obtain idx where 
     idx: "(case map_of (cs_companions db) ?k of
                None \<Rightarrow> Inr (cs_by_number db)
              | Some v \<Rightarrow> rbind (stored_number v) (\<lambda>old_number.
                  if old_number \<noteq> n
                  then mdbx io (DelKey 0) (tbl_del (index_key old_number h) (cs_by_number db))
                  else Inr (cs_by_number db))) = Inr idx"
    and db': "db' = db\<lparr>cs_companions := tbl_put ?k (comp_value n c) (cs_companions db),
      cs_by_number := tbl_put (to_be NUMBER_LEN n @ ?k) [] idx\<rparr>"
    unfolding enc Let_def
    by (clarsimp simp: rbind_Inr_iff mdbx_Inr_iff comp_value_def index_key_alt)
  have "idx = (case map_of (cs_companions db) ?k of
        None \<Rightarrow> cs_by_number db
      | Some old \<Rightarrow> if comp_num old \<noteq> comp_num (comp_value n c)
          then tbl_del (to_be NUMBER_LEN (comp_num old) @ ?k) (cs_by_number db) else cs_by_number db)"
    using idx old_number [OF inv, of h]
    by (cases "map_of (cs_companions db) ?k") (auto simp: index_key_alt mdbx_Inr_iff split: if_splits)
  then have "indexed comp_num (tbl_put ?k (comp_value n c) (cs_companions db))
      (tbl_put (to_be NUMBER_LEN (comp_num (comp_value n c)) @ ?k) [] idx)"
    using inv by (intro indexed_put) (simp_all add: store_inv_def HASH_LEN_def)
  with inv cok have "store_inv db'" unfolding store_inv_def db' by auto
  moreover have "abs_exec (Put h n c) (abs_store db) = Some (abs_store db')"
    by (simp add: db' abs_store_def fun_eq_iff companion.dec_enc cok fits_def enc)
  ultimately show ?case ..
qed

lemma store_remove_refines:
  assumes inv: "store_inv db"
  shows "refines_step io (abs_exec (Remove h)) db (store_remove io db h)"
  unfolding store_remove_def
proof (rule finish_txn_refines, goal_cases)
  case (1 db')
  let ?k = "b256_bytes h"
  show ?case
  proof (cases "map_of (cs_companions db) ?k")
    case None
    with 1 have "db' = db" by (simp add: rbind_Inr_iff mdbx_Inr_iff)
    moreover from None have "rt_view (abs_store db) h = None" by (simp add: abs_store_def)
    then have "abs_exec (Remove h) (abs_store db) = Some (abs_store db)" by (simp add: fun_upd_idem)
    ultimately show ?thesis using inv by simp
  next
    case (Some v)
    with 1 have db': "db' = db\<lparr>cs_companions := tbl_del ?k (cs_companions db),
        cs_by_number := tbl_del (to_be NUMBER_LEN (comp_num v) @ ?k) (cs_by_number db)\<rparr>"
      by (simp add: rbind_Inr_iff mdbx_Inr_iff old_number [OF inv Some] index_key_alt)
    have "indexed comp_num (tbl_del ?k (cs_companions db))
        (tbl_del (to_be NUMBER_LEN (comp_num v) @ ?k) (cs_by_number db))"
      using inv Some by (intro indexed_del) (simp_all add: store_inv_def)
    with inv have "store_inv db'" unfolding store_inv_def db' by auto
    moreover have "abs_exec (Remove h) (abs_store db) = Some (abs_store db')"
      by (simp add: db' abs_store_def fun_eq_iff)
    ultimately show ?thesis ..
  qed
qed

lemma view_keep_from:
  assumes "store_inv db"
  shows "(case keep_from comp_num n (map_of (cs_companions db)) (b256_bytes h) of
        None \<Rightarrow> None
      | Some v \<Rightarrow> (case decode_companion (drop NUMBER_LEN v) of
            Inl _ \<Rightarrow> None | Inr c \<Rightarrow> Some (comp_num v, c))) =
     (case rt_view (abs_store db) h of None \<Rightarrow> None
      | Some (m, c) \<Rightarrow> if n \<le> m then Some (m, c) else None)"
proof (cases "map_of (cs_companions db) (b256_bytes h)")
  case None
  then show ?thesis by (simp add: keep_from_def abs_store_def)
next
  case (Some v)
  with assms obtain m c where "companion_ok c" "v = comp_value m c" "rt_view (abs_store db) h = Some (m, c)"
    by (rule view_value)
  with Some show ?thesis by (simp add: keep_from_def companion.dec_enc)
qed

lemma prune_below_refines:
  assumes inv: "store_inv db"
  shows "refines_step io (abs_exec (PruneBelow n)) db (prune_below io db n)"
  unfolding prune_below_def
proof (rule finish_txn_refines, goal_cases)
  case (1 db')
  let ?cur = "map_option from_be (map_of (cs_meta db) HORIZON_KEY) :: u64 option"
  let ?target = "case ?cur of None \<Rightarrow> n | Some c \<Rightarrow> max c n"
  from 1 obtain comp idx where
    walk: "prune_walk io ''index key has the wrong length'' n 0 (cs_by_number db) (cs_companions db)
      (cs_by_number db) = Inr (comp, idx)"
    and db': "db' = db\<lparr>cs_companions := comp, cs_by_number := idx,
      cs_meta := tbl_put HORIZON_KEY (to_be 8 ?target) (cs_meta db)\<rparr>"
    by (auto simp: rbind_Inr_iff mdbx_Inr_iff Let_def read_horizon [OF inv])
  have "indexed comp_num comp idx" and m: "map_of comp = keep_from comp_num n (map_of (cs_companions db))"
    using prune_walk_ok [OF _ walk, of comp_num] inv by (simp_all add: store_inv_def)
  with inv have "store_inv db'"
    unfolding store_inv_def db'
    by (auto simp: keep_from_def NUMBER_LEN_def split: option.splits if_splits)
  moreover have "abs_exec (PruneBelow n) (abs_store db) = Some (abs_store db')"
    using view_keep_from [OF inv, of n]
    by (simp add: db' abs_store_def m fun_eq_iff raise_to_def from_be_to_be)
  ultimately show ?case ..
qed

lemma set_meta_inv:
  assumes "store_inv db" "key = HORIZON_KEY \<or> key = EVICTION_CURSOR_KEY"
  shows "store_inv (db\<lparr>cs_meta := tbl_put key (to_be 8 (n :: u64)) (cs_meta db)\<rparr>)"
  using assms by (auto simp: store_inv_def NUMBER_LEN_def)

lemma set_horizon_refines:
  assumes inv: "store_inv db"
  shows "refines_step io (abs_exec (SetHorizon n)) db (set_horizon io db n)"
  unfolding set_horizon_def
proof (rule finish_txn_refines, goal_cases)
  case (1 db')
  then have db': "db' = db\<lparr>cs_meta := tbl_put HORIZON_KEY (to_be 8 n) (cs_meta db)\<rparr>"
    and up: "\<forall>c. map_option from_be (map_of (cs_meta db) HORIZON_KEY) = Some c \<longrightarrow> \<not> n < c"
    by (auto simp: rbind_Inr_iff mdbx_Inr_iff read_horizon [OF inv] split: option.splits if_splits)
  have "abs_exec (SetHorizon n) (abs_store db) = Some (abs_store db')"
    using up by (auto simp: db' abs_store_def from_be_to_be split: option.splits)
  then show ?case using set_meta_inv [OF inv, of HORIZON_KEY n] by (simp add: db')
qed

lemma set_eviction_cursor_refines:
  assumes inv: "store_inv db"
  shows "refines_step io (abs_exec (SetEvictionCursor n)) db (set_eviction_cursor io db n)"
  unfolding set_eviction_cursor_def
proof (rule finish_txn_refines, goal_cases)
  case (1 db')
  let ?cur = "map_option from_be (map_of (cs_meta db) EVICTION_CURSOR_KEY) :: u64 option"
  let ?target = "case ?cur of None \<Rightarrow> n | Some c \<Rightarrow> max c n"
  from 1 have db': "db' = db\<lparr>cs_meta := tbl_put EVICTION_CURSOR_KEY (to_be 8 ?target) (cs_meta db)\<rparr>"
    by (auto simp: rbind_Inr_iff mdbx_Inr_iff Let_def read_horizon [OF inv])
  then show ?case using set_meta_inv [OF inv, of EVICTION_CURSOR_KEY ?target]
    by (simp add: abs_store_def raise_to_def from_be_to_be)
qed

lemma put_accounting_refines:
  assumes inv: "store_inv db"
  shows "refines_step io (abs_exec (PutAccounting r)) db (put_accounting io db r)"
  unfolding put_accounting_def Let_def
proof (rule finish_txn_refines, goal_cases)
  case (1 db')
  let ?h = "la_block_hash (sa_accounting r)" and ?v = "encode_accounting r"
  let ?k = "b256_bytes ?h"
  from 1 have db': "db' = db\<lparr>cs_accounting := tbl_put ?k ?v (cs_accounting db),
      cs_accounting_by_number := tbl_put (to_be NUMBER_LEN (acct_num ?v) @ ?k) [] (cs_accounting_by_number db)\<rparr>"
    by (auto simp: rbind_Inr_iff mdbx_Inr_iff index_key_alt)
  from 1 have same: "map_of (cs_accounting db) ?k = None \<or> map_of (cs_accounting db) ?k = Some ?v"
    by (auto simp: rbind_Inr_iff mdbx_Inr_iff encode_decode_accounting split: option.splits if_splits)
  have "indexed acct_num (tbl_put ?k ?v (cs_accounting db))
      (tbl_put (to_be NUMBER_LEN (acct_num ?v) @ ?k) [] (cs_accounting_by_number db))"
    using inv same by (intro indexed_put) (auto simp: store_inv_def HASH_LEN_def)
  with inv have "store_inv db'" unfolding store_inv_def db' by auto
  moreover have "abs_exec (PutAccounting r) (abs_store db) = Some (abs_store db')"
    using same by (auto simp: db' abs_store_def fun_eq_iff decode_encode_accounting Let_def)
  ultimately show ?case ..
qed

lemma accounting_value:
  assumes "store_inv db" "map_of (cs_accounting db) (b256_bytes h) = Some v"
  obtains r where "la_block_hash (sa_accounting r) = h" "v = encode_accounting r"
    "rt_accounting (abs_store db) h = Some r"
proof -
  from assms obtain r where "b256_bytes h = b256_bytes (la_block_hash (sa_accounting r))"
    "v = encode_accounting r"
    unfolding store_inv_def by blast
  then show thesis using assms(2) by (intro that) (simp_all add: abs_store_def decode_encode_accounting)
qed

lemma accounting_keep_from:
  assumes "store_inv db"
  shows "(case keep_from acct_num n (map_of (cs_accounting db)) (b256_bytes h) of
        None \<Rightarrow> None
      | Some v \<Rightarrow> (case decode_accounting v of Inl _ \<Rightarrow> None | Inr r \<Rightarrow> Some r)) =
     (case rt_accounting (abs_store db) h of None \<Rightarrow> None
      | Some r \<Rightarrow> if n \<le> sa_block_number r then Some r else None)"
proof (cases "map_of (cs_accounting db) (b256_bytes h)")
  case None
  then show ?thesis by (simp add: keep_from_def abs_store_def)
next
  case (Some v)
  with assms obtain r where "v = encode_accounting r" "rt_accounting (abs_store db) h = Some r"
    by (rule accounting_value)
  with Some show ?thesis by (simp add: keep_from_def decode_encode_accounting)
qed

lemma prune_accounting_refines:
  assumes inv: "store_inv db"
  shows "refines_step io (abs_exec (PruneAccountingBelow n)) db (prune_accounting_below io db n)"
  unfolding prune_accounting_below_def
proof (rule finish_txn_refines, goal_cases)
  case (1 db')
  from 1 obtain acc idx where
    walk: "prune_walk io ''accounting index key length'' n 0 (cs_accounting_by_number db)
      (cs_accounting db) (cs_accounting_by_number db) = Inr (acc, idx)"
    and db': "db' = db\<lparr>cs_accounting := acc, cs_accounting_by_number := idx\<rparr>"
    by (auto simp: rbind_Inr_iff mdbx_Inr_iff)
  have "indexed acct_num acc idx" and m: "map_of acc = keep_from acct_num n (map_of (cs_accounting db))"
    using prune_walk_ok [OF _ walk, of acct_num] inv by (simp_all add: store_inv_def)
  with inv have "store_inv db'"
    unfolding store_inv_def db' by (auto simp: keep_from_def split: option.splits if_splits)
  moreover have "abs_exec (PruneAccountingBelow n) (abs_store db) = Some (abs_store db')"
    using accounting_keep_from [OF inv, of n] by (simp add: db' abs_store_def m fun_eq_iff)
  ultimately show ?case ..
qed

lemma store_exec_refines_all:
  assumes "store_inv db" "op_ok op"
  shows "refines_step io (abs_exec op) db (store_exec io op db)"
  using assms
  by (cases op) (simp_all add: store_put_refines store_remove_refines prune_below_refines
      set_horizon_refines set_eviction_cursor_refines put_accounting_refines prune_accounting_refines
      del: abs_exec.simps op_ok.simps(1))

section \<open>Reads\<close>

lemma store_get_view:
  assumes inv: "store_inv db" and io: "io BeginTxn = None" "io GetKey = None"
  shows "store_get io db h = (case rt_view (abs_store db) h of
      Some (n, c) \<Rightarrow> Inr (Found c)
    | None \<Rightarrow> mdbx io GetMeta (case rt_horizon (abs_store db) of Some hz \<Rightarrow> Unavailable hz | None \<Rightarrow> Unknown))"
proof (cases "map_of (cs_companions db) (b256_bytes h)")
  case None
  with io show ?thesis
    by (simp add: store_get_def mdbx_def read_horizon [OF inv] abs_store_def split: option.splits)
next
  case (Some v)
  with inv obtain n c where v: "companion_ok c" "v = comp_value n c"
    and view: "rt_view (abs_store db) h = Some (n, c)" by (rule view_value)
  from v have "stored_record v = Inr (companion_bytes c)"
    by (simp add: stored_record_def) (simp add: comp_value_def)
  with v Some io show ?thesis
    by (simp add: store_get_def mdbx_def view companion.dec_enc)
qed

lemma get_accounting_view:
  assumes inv: "store_inv db" and io: "io BeginTxn = None" "io GetKey = None"
  shows "get_accounting io db h = Inr (rt_accounting (abs_store db) h)"
proof (cases "map_of (cs_accounting db) (b256_bytes h)")
  case None
  with io show ?thesis by (simp add: get_accounting_def mdbx_def abs_store_def)
next
  case (Some v)
  with inv obtain r where "la_block_hash (sa_accounting r) = h" "v = encode_accounting r"
    "rt_accounting (abs_store db) h = Some r" by (rule accounting_value)
  with Some io show ?thesis by (simp add: get_accounting_def mdbx_def decode_encode_accounting)
qed

section \<open>Range reads\<close>

lemma key_below_prefix:
  assumes "length key = INDEX_KEY_LEN"
  shows "key < to_be NUMBER_LEN (from :: u64) \<longleftrightarrow> from_be (take NUMBER_LEN key) < from"
proof -
  let ?p = "take NUMBER_LEN key" and ?f = "to_be NUMBER_LEN from"
  have len: "length ?p = length ?f" using assms by (simp add: INDEX_KEY_LEN_def)
  have "(xs @ zs < ys) = (xs < ys)" if "length xs = length ys" for xs ys zs :: bytes
    using that by (induction xs ys rule: list_induct2) auto
  from this [OF len, of "drop NUMBER_LEN key"] have "key < ?f \<longleftrightarrow> ?p < ?f" by simp
  also have "\<dots> \<longleftrightarrow> be_nat ?p < be_nat ?f" by (rule less_iff_be_nat [OF len])
  also have "\<dots> \<longleftrightarrow> from_be ?p < from"
    using assms by (simp add: word_less_nat_alt unat_from_be be_nat_to_be NUMBER_LEN_def INDEX_KEY_LEN_def)
  finally show ?thesis .
qed

definition index_pair :: "bytes \<Rightarrow> b256 \<times> u64" where
  "index_pair key = (from_be (drop NUMBER_LEN key), from_be (take NUMBER_LEN key))"

lemma range_walk_takeWhile:
  "(\<And>c. io c = None) \<Longrightarrow> \<forall>e \<in> set t. length (fst e) = INDEX_KEY_LEN \<Longrightarrow>
     range_walk io to i t = Inr (takeWhile (\<lambda>(h, n). n < to) (map (index_pair \<circ> fst) t))"
  by (induction t arbitrary: i) (auto simp: Let_def index_pair_def mdbx_def not_le split: prod.splits)

lemma dropWhile_down_closed:
  assumes "sorted_wrt R xs" "\<forall>x \<in> set xs. \<forall>y \<in> set xs. R x y \<longrightarrow> P y \<longrightarrow> P x"
  shows "dropWhile P xs = filter (\<lambda>x. \<not> P x) xs"
  using assms
proof (induction xs)
  case (Cons x xs)
  show ?case
  proof (cases "P x")
    case True
    with Cons show ?thesis by simp
  next
    case False
    with Cons.prems have "\<not> P y" if "y \<in> set xs" for y using that by auto
    with False show ?thesis by simp
  qed
qed simp

lemma takeWhile_down_closed:
  assumes "sorted_wrt R xs" "\<forall>x \<in> set xs. \<forall>y \<in> set xs. R x y \<longrightarrow> P y \<longrightarrow> P x"
  shows "takeWhile P xs = filter P xs"
  using assms
proof (induction xs)
  case (Cons x xs)
  show ?case
  proof (cases "P x")
    case True
    with Cons show ?thesis by simp
  next
    case False
    with Cons.prems have "\<not> P y" if "y \<in> set xs" for y using that by auto
    with False show ?thesis by simp
  qed
qed simp

definition by_number_then_hash :: "b256 \<times> u64 \<Rightarrow> b256 \<times> u64 \<Rightarrow> bool" where
  "by_number_then_hash a b \<longleftrightarrow> snd a < snd b \<or> (snd a = snd b \<and> fst a < fst b)"

lemma append_less_iff:
  "length xs = length ys \<Longrightarrow> xs @ us < ys @ vs \<longleftrightarrow> xs < ys \<or> (xs = ys \<and> us < (vs :: bytes))"
  by (induction xs ys rule: list_induct2) auto

lemma from_be_less_iff:
  assumes "length xs = length ys" "8 * length ys \<le> LENGTH('a)"
  shows "(from_be xs :: 'a::len word) < from_be ys \<longleftrightarrow> xs < ys"
  using assms by (simp add: word_less_nat_alt unat_from_be less_iff_be_nat)

lemma index_pair_mono:
  assumes "length k = INDEX_KEY_LEN" "length j = INDEX_KEY_LEN" "k < j"
  shows "by_number_then_hash (index_pair k) (index_pair j)"
proof -
  let ?a = "take NUMBER_LEN k" and ?b = "take NUMBER_LEN j"
  have "length ?a = length ?b" using assms by (simp add: INDEX_KEY_LEN_def)
  from append_less_iff [OF this, of "drop NUMBER_LEN k" "drop NUMBER_LEN j"] assms(3)
  have "?a < ?b \<or> (?a = ?b \<and> drop NUMBER_LEN k < drop NUMBER_LEN j)" by simp
  then show ?thesis using assms
    by (auto simp: by_number_then_hash_def index_pair_def from_be_less_iff INDEX_KEY_LEN_def
        NUMBER_LEN_def HASH_LEN_def)
qed

lemma by_number_keys:
  assumes inv: "store_inv db"
  shows "index_pair ` fst ` set (cs_by_number db) = {(h, n). \<exists>c. rt_view (abs_store db) h = Some (n, c)}"
    and "\<forall>e \<in> set (cs_by_number db). length (fst e) = INDEX_KEY_LEN"
proof -
  have keys: "fst ` set (cs_by_number db) = index_keys comp_num (map_of (cs_companions db))"
    and len: "\<And>k v. map_of (cs_companions db) k = Some v \<Longrightarrow> length k = HASH_LEN"
    using inv by (auto simp: store_inv_def indexed_def)
  show "\<forall>e \<in> set (cs_by_number db). length (fst e) = INDEX_KEY_LEN"
  proof
    fix e
    assume "e \<in> set (cs_by_number db)"
    then have "fst e \<in> index_keys comp_num (map_of (cs_companions db))" using keys by blast
    then show "length (fst e) = INDEX_KEY_LEN"
      by (auto simp: index_keys_def INDEX_KEY_LEN_def dest: len)
  qed
  have pair: "index_pair (to_be NUMBER_LEN n @ k) = (from_be k, n)" for n k
    by (simp add: index_pair_def NUMBER_LEN_def from_be_to_be)
  show "index_pair ` fst ` set (cs_by_number db) = {(h, n). \<exists>c. rt_view (abs_store db) h = Some (n, c)}"
  proof (intro set_eqI iffI)
    fix p
    assume "p \<in> index_pair ` fst ` set (cs_by_number db)"
    then obtain k v where kv: "map_of (cs_companions db) k = Some v" "p = (from_be k, comp_num v)"
      by (auto simp: keys index_keys_def pair)
    then have "b256_bytes (from_be k) = k" using len [OF kv(1)] by (simp add: to_be_from_be HASH_LEN_def)
    with kv(1) have "map_of (cs_companions db) (b256_bytes (from_be k)) = Some v" by simp
    with inv obtain n c where "v = comp_value n c" "rt_view (abs_store db) (from_be k) = Some (n, c)"
      by (rule view_value)
    with kv(2) show "p \<in> {(h, n). \<exists>c. rt_view (abs_store db) h = Some (n, c)}" by simp
  next
    fix p
    assume "p \<in> {(h, n). \<exists>c. rt_view (abs_store db) h = Some (n, c)}"
    then obtain h n c where p: "p = (h, n)" "rt_view (abs_store db) h = Some (n, c)" by auto
    then obtain v where "map_of (cs_companions db) (b256_bytes h) = Some v" "comp_num v = n"
      by (auto simp: abs_store_def split: option.splits sum.splits)
    then have "to_be NUMBER_LEN n @ b256_bytes h \<in> fst ` set (cs_by_number db)"
      by (auto simp: keys index_keys_def)
    then have "index_pair (to_be NUMBER_LEN n @ b256_bytes h) \<in> index_pair ` fst ` set (cs_by_number db)"
      by (rule imageI)
    then show "p \<in> index_pair ` fst ` set (cs_by_number db)" by (simp add: pair p from_be_to_be)
  qed
qed

end
