(* ===== verification/Companion_Retention.thy ===== *)
theory Companion_Retention
  imports Companion_Store "HOL-Library.Option_ord"
begin

text \<open>
  The guarantees of the companion store over whole runs: progress without faults, the
  \<open>durable_store\<close> contract its clients rely on and its interpretation on the MDBX model, range reads,
  and the properties of \<open>src/crates/unicity/store/src/store.rs\<close>.
\<close>

section \<open>Progress\<close>

lemma total_body:
  assumes "\<And>c. io c = None" "is_ok body"
  shows "is_ok (fst (finish_txn io db body))"
  using assms by (rule finish_txn_ok)

lemma store_put_total:
  assumes inv: "store_inv db" and io: "\<And>c. io c = None" and ok: "fits c"
  shows "is_ok (fst (store_put io db h n c))"
proof -
  from ok obtain bs where "encode_companion c = Inr bs" by (auto simp: fits_def elim: is_okE)
  with io show ?thesis unfolding store_put_def
    by (intro finish_txn_ok)
      (auto simp: mdbx_def Let_def old_number [OF inv] split: option.splits)
qed

lemma store_remove_total:
  assumes inv: "store_inv db" and io: "\<And>c. io c = None"
  shows "is_ok (fst (store_remove io db h))"
  unfolding store_remove_def using io
  by (intro finish_txn_ok) (auto simp: mdbx_def old_number [OF inv] split: option.splits)

lemma prune_below_total:
  assumes inv: "store_inv db" and io: "\<And>c. io c = None"
  shows "is_ok (fst (prune_below io db n))"
proof -
  from inv have "indexed comp_num (cs_companions db) (cs_by_number db)" by (simp add: store_inv_def)
  from prune_walk_total [OF this io] obtain out where
    "prune_walk io ''index key has the wrong length'' n 0 (cs_by_number db) (cs_companions db)
      (cs_by_number db) = Inr out" by (rule is_okE)
  then show ?thesis unfolding prune_below_def using io
    by (intro finish_txn_ok) (auto simp: mdbx_def read_horizon [OF inv] Let_def split: prod.splits)
qed

lemma prune_accounting_total:
  assumes inv: "store_inv db" and io: "\<And>c. io c = None"
  shows "is_ok (fst (prune_accounting_below io db n))"
proof -
  from inv have "indexed acct_num (cs_accounting db) (cs_accounting_by_number db)"
    by (simp add: store_inv_def)
  from prune_walk_total [OF this io] obtain out where
    "prune_walk io ''accounting index key length'' n 0 (cs_accounting_by_number db) (cs_accounting db)
      (cs_accounting_by_number db) = Inr out" by (rule is_okE)
  then show ?thesis unfolding prune_accounting_below_def using io
    by (intro finish_txn_ok) (auto simp: mdbx_def split: prod.splits)
qed

lemma set_horizon_total:
  assumes inv: "store_inv db" and io: "\<And>c. io c = None"
    and ok: "abs_exec (SetHorizon n) (abs_store db) \<noteq> None"
  shows "is_ok (fst (set_horizon io db n))"
proof -
  have "rt_horizon (abs_store db) = map_option from_be (map_of (cs_meta db) HORIZON_KEY)"
    by (simp add: abs_store_def)
  with ok io show ?thesis unfolding set_horizon_def
    by (intro finish_txn_ok) (auto simp: mdbx_def read_horizon [OF inv] split: option.splits if_splits)
qed

lemma set_eviction_cursor_total:
  assumes inv: "store_inv db" and io: "\<And>c. io c = None"
  shows "is_ok (fst (set_eviction_cursor io db n))"
  unfolding set_eviction_cursor_def using io
  by (intro finish_txn_ok) (auto simp: mdbx_def read_horizon [OF inv] Let_def)

lemma put_accounting_total:
  assumes inv: "store_inv db" and io: "\<And>c. io c = None"
    and ok: "abs_exec (PutAccounting r) (abs_store db) \<noteq> None"
  shows "is_ok (fst (put_accounting io db r))"
proof (cases "map_of (cs_accounting db) (b256_bytes (la_block_hash (sa_accounting r)))")
  case None
  then show ?thesis unfolding put_accounting_def Let_def using io
    by (intro finish_txn_ok) (auto simp: mdbx_def)
next
  case (Some v)
  from accounting_value [OF inv this] obtain s where
    "v = encode_accounting s" "rt_accounting (abs_store db) (la_block_hash (sa_accounting r)) = Some s"
    by blast
  with ok Some io show ?thesis unfolding put_accounting_def Let_def
    by (intro finish_txn_ok)
      (auto simp: mdbx_def decode_encode_accounting Let_def split: if_splits)
qed

lemma store_exec_total:
  assumes "store_inv db" "\<And>c. io c = None" "abs_exec op (abs_store db) \<noteq> None"
  shows "is_ok (fst (store_exec io op db))"
  using assms
  by (cases op) (simp_all add: store_put_total store_remove_total prune_below_total set_horizon_total
      set_eviction_cursor_total put_accounting_total prune_accounting_total split: if_splits
      del: abs_exec.simps(4,6))

section \<open>The contract of a crash-consistent store\<close>

text \<open>
  What a client may rely on: every operation either takes the specification's step or leaves the
  store as it was, a reported success always took the step, and without faults an operation the
  specification allows succeeds. The last call may have been durable although it reported an error
  (the sync after the commit failed), so an error alone does not mean that nothing happened.
\<close>

locale durable_store =
  fixes exec :: "'io \<Rightarrow> 'op \<Rightarrow> 's \<Rightarrow> ('e + unit) \<times> 's"
    and spec :: "'op \<Rightarrow> 'a \<Rightarrow> 'a option"
    and abs :: "'s \<Rightarrow> 'a"
    and inv :: "'s \<Rightarrow> bool"
    and allowed :: "'op \<Rightarrow> bool"
    and faultless :: "'io \<Rightarrow> bool"
  assumes keeps: "inv s \<Longrightarrow> allowed op \<Longrightarrow> inv (snd (exec io op s))"
    and success: "inv s \<Longrightarrow> allowed op \<Longrightarrow> exec io op s = (Inr u, s') \<Longrightarrow> spec op (abs s) = Some (abs s')"
    and failure: "inv s \<Longrightarrow> allowed op \<Longrightarrow> exec io op s = (Inl e, s') \<Longrightarrow>
      s' = s \<or> spec op (abs s) = Some (abs s')"
    and progress: "inv s \<Longrightarrow> allowed op \<Longrightarrow> faultless io \<Longrightarrow> spec op (abs s) \<noteq> None \<Longrightarrow>
      is_ok (fst (exec io op s))"
begin

lemma effect:
  assumes "inv s" "allowed op"
  shows "abs (snd (exec io op s)) = abs s \<or> spec op (abs s) = Some (abs (snd (exec io op s)))"
proof (cases "exec io op s")
  case (Pair res s')
  with assms show ?thesis by (cases res) (auto dest: success failure)
qed

lemma refused:
  assumes "inv s" "allowed op" "spec op (abs s) = None"
  shows "snd (exec io op s) = s \<and> \<not> is_ok (fst (exec io op s))"
proof (cases "exec io op s")
  case (Pair res s')
  with assms show ?thesis by (cases res) (auto dest: success failure)
qed

lemma decided:
  assumes "inv s" "allowed op" "faultless io"
  shows "is_ok (fst (exec io op s)) \<longleftrightarrow> spec op (abs s) \<noteq> None"
  using assms progress refused by blast

lemma run_inv:
  assumes "inv s" "\<forall>(io, op) \<in> set ops. allowed op"
  shows "inv (fold (\<lambda>(io, op) s. snd (exec io op s)) ops s)"
  using assms by (induction ops arbitrary: s) (auto simp: keeps)

lemma run_monotone:
  fixes m :: "'a \<Rightarrow> 'm::preorder"
  assumes mono: "\<And>op a b. spec op a = Some b \<Longrightarrow> m a \<le> m b"
    and "inv s" "\<forall>(io, op) \<in> set ops. allowed op"
  shows "m (abs s) \<le> m (abs (fold (\<lambda>(io, op) s. snd (exec io op s)) ops s))"
  using assms(2,3)
proof (induction ops arbitrary: s)
  case (Cons x ops)
  obtain io op where x: "x = (io, op)" by (cases x)
  with Cons.prems have ok: "inv s" "allowed op" by auto
  from effect [OF this, of io] have "m (abs s) \<le> m (abs (snd (exec io op s)))"
    by (metis mono order_refl)
  also have "\<dots> \<le> m (abs (fold (\<lambda>(io, op) s. snd (exec io op s)) ops (snd (exec io op s))))"
    using Cons.prems by (intro Cons.IH) (auto simp: keeps ok)
  finally show ?case by (simp add: x)
qed simp

lemma run_frame:
  assumes frame: "\<And>op a b. P op \<Longrightarrow> spec op a = Some b \<Longrightarrow> f b = f a"
    and "inv s" "\<forall>(io, op) \<in> set ops. allowed op \<and> P op"
  shows "f (abs (fold (\<lambda>(io, op) s. snd (exec io op s)) ops s)) = f (abs s)"
  using assms(2,3)
proof (induction ops arbitrary: s)
  case (Cons x ops)
  obtain io op where x: "x = (io, op)" by (cases x)
  with Cons.prems have ok: "inv s" "allowed op" "P op" by auto
  from effect [OF ok(1,2), of io] have "f (abs (snd (exec io op s))) = f (abs s)"
    by (metis frame ok(3))
  with Cons x ok show ?case by (simp add: keeps)
qed simp

end

interpretation companion_db: durable_store store_exec abs_exec abs_store store_inv op_ok
  "\<lambda>io. \<forall>c. io c = None"
proof (unfold_locales, goal_cases)
  case (1 s op io)
  with store_exec_refines_all [of s op io] show ?case
    by (cases "store_exec io op s") (auto simp: refines_step_def split: if_splits)
next
  case (2 s op io u s')
  with store_exec_refines_all [of s op io] show ?case by (simp add: refines_step_def is_ok_def)
next
  case (3 s op io e s')
  with store_exec_refines_all [of s op io] show ?case by (auto simp: refines_step_def is_ok_def)
next
  case (4 s op io)
  then show ?case by (intro store_exec_total) auto
qed

section \<open>Reads by number\<close>

lemma sorted_wrt_map_filter: "sorted_wrt R (map f (filter P xs))" if "sorted_wrt R (map f xs)"
  using that by (induction xs) auto

lemma entries_as_filter:
  assumes inv: "store_inv db" and io: "\<And>c. io c = None"
  shows "entries_in_range io db from to =
    Inr (filter (\<lambda>(h, n). from \<le> n \<and> n < to) (map (index_pair \<circ> fst) (cs_by_number db)))"
    and "sorted_wrt by_number_then_hash (map (index_pair \<circ> fst) (cs_by_number db))"
proof -
  let ?t = "cs_by_number db" and ?low = "\<lambda>(k :: bytes, _ :: bytes). k < to_be NUMBER_LEN from"
  let ?ps = "map (index_pair \<circ> fst) ?t"
  have len: "\<forall>e \<in> set ?t. length (fst e) = INDEX_KEY_LEN" by (rule by_number_keys [OF inv])
  from inv have sorted: "sorted_wrt (\<lambda>a b. fst a < fst b) ?t"
    by (simp add: store_inv_def indexed_def sorted_wrt_map)
  show ordered: "sorted_wrt by_number_then_hash ?ps"
    unfolding sorted_wrt_map o_def
    by (rule sorted_wrt_mono_rel [OF _ sorted]) (use len in \<open>auto intro: index_pair_mono\<close>)
  have low: "?low e \<longleftrightarrow> snd (index_pair (fst e)) < from" if "e \<in> set ?t" for e
    using len that by (auto simp: key_below_prefix index_pair_def split: prod.splits)
  have "dropWhile ?low ?t = filter (\<lambda>e. \<not> ?low e) ?t"
    by (rule dropWhile_down_closed [OF sorted]) auto
  also have "\<dots> = filter (\<lambda>e. from \<le> snd (index_pair (fst e))) ?t"
    by (rule filter_cong) (auto simp: low not_less)
  finally have "map (index_pair \<circ> fst) (dropWhile ?low ?t) = filter (\<lambda>p. from \<le> snd p) ?ps"
    by (simp add: filter_map o_def)
  moreover have "takeWhile (\<lambda>(h, n). n < to) (filter (\<lambda>p. from \<le> snd p) ?ps) =
      filter (\<lambda>(h, n). n < to) (filter (\<lambda>p. from \<le> snd p) ?ps)"
    by (rule takeWhile_down_closed [of by_number_then_hash])
      (use ordered in \<open>auto simp: by_number_then_hash_def sorted_wrt_filter\<close>)
  moreover have "\<forall>e \<in> set (dropWhile ?low ?t). length (fst e) = INDEX_KEY_LEN"
    using len by (blast dest: set_dropWhileD)
  then have "entries_in_range io db from to =
      Inr (takeWhile (\<lambda>(h, n). n < to) (map (index_pair \<circ> fst) (dropWhile ?low ?t)))"
    by (simp add: entries_in_range_def io mdbx_def range_walk_takeWhile)
  ultimately show "entries_in_range io db from to =
      Inr (filter (\<lambda>(h, n). from \<le> n \<and> n < to) ?ps)"
    by (simp add: case_prod_unfold conj_commute)
qed

section \<open>Runs of the store\<close>

definition store_run :: "(io \<times> store_op) list \<Rightarrow> companion_store \<Rightarrow> companion_store" where
  "store_run ops = fold (\<lambda>(io, op) db. snd (store_exec io op db)) ops"

definition ops_ok :: "(io \<times> store_op) list \<Rightarrow> bool" where
  "ops_ok ops \<longleftrightarrow> (\<forall>(io, op) \<in> set ops. op_ok op)"

lemma store_inv_empty: "store_inv empty_store"
  by (simp add: store_inv_def empty_store_def indexed_def index_keys_def)

lemma store_run_inv: "store_inv db \<Longrightarrow> ops_ok ops \<Longrightarrow> store_inv (store_run ops db)"
  unfolding store_run_def ops_ok_def by (rule companion_db.run_inv)

lemma abs_exec_horizon: "abs_exec op a = Some b \<Longrightarrow> rt_horizon a \<le> rt_horizon b"
  by (cases op) (auto simp: raise_to_def Let_def less_eq_option_def split: if_splits option.splits)

lemma abs_exec_cursor: "abs_exec op a = Some b \<Longrightarrow> rt_cursor a \<le> rt_cursor b"
  by (cases op) (auto simp: raise_to_def Let_def less_eq_option_def split: if_splits option.splits)

lemma put_view: "abs_exec (Put h n c) a = Some b \<Longrightarrow> rt_view b = (rt_view a)(h \<mapsto> (n, c))"
  by (auto split: if_splits)

text \<open>An operation that leaves the companion of block \<open>h\<close> at height \<open>n\<close> alone.\<close>

fun spares :: "b256 \<Rightarrow> u64 \<Rightarrow> store_op \<Rightarrow> bool" where
  "spares h n (Put h' _ _) \<longleftrightarrow> h' \<noteq> h"
| "spares h n (Remove h') \<longleftrightarrow> h' \<noteq> h"
| "spares h n (PruneBelow m) \<longleftrightarrow> m \<le> n"
| "spares h n _ \<longleftrightarrow> True"

lemma abs_exec_spares:
  "spares h n op \<Longrightarrow> abs_exec op a = Some b \<Longrightarrow>
     (rt_view b h = Some (n, c)) = (rt_view a h = Some (n, c))"
  by (cases op) (auto simp: Let_def split: if_splits option.splits)

section \<open>Properties\<close>

text \<open>
  Claim C1. Every mutating operation of the companion store refines one step of the abstract retention
  store, whatever MDBX call fails: the invariant is kept, a success took exactly the specified step, an
  error left every table as it was (or, when only the final sync failed, took the step), and with a
  database that works the operation succeeds exactly when the specification allows it.
\<close>

theorem store_exec_refines:
  assumes "store_inv db" "op_ok op" "store_exec io op db = (res, db')"
  shows "store_inv db' \<and>
    (if is_ok res then abs_exec op (abs_store db) = Some (abs_store db')
     else db' = db \<or>
       (io Commit = None \<and> io SyncEnv \<noteq> None \<and> abs_exec op (abs_store db) = Some (abs_store db'))) \<and>
    ((\<forall>c. io c = None) \<longrightarrow> (is_ok res \<longleftrightarrow> abs_exec op (abs_store db) \<noteq> None))"
proof -
  have "refines_step io (abs_exec op) db (res, db')"
    using store_exec_refines_all [OF assms(1,2), of io] assms(3) by simp
  moreover have "store_inv db'" using companion_db.keeps [OF assms(1,2), of io] assms(3) by simp
  moreover have "(\<forall>c. io c = None) \<longrightarrow> (is_ok res \<longleftrightarrow> abs_exec op (abs_store db) \<noteq> None)"
    using companion_db.decided [OF assms(1,2), of io] assms(3) by simp
  ultimately show ?thesis by (auto simp: refines_step_def)
qed

definition sample_companion :: seal_companion where
  "sample_companion = \<lparr>sc_root_input = [1, 2], sc_b1_update = [], sc_records = [3],
     sc_pair_binding = [4], sc_witnesses = [[5], []], sc_provenance = ascii ''fee''\<rparr>"

lemma sample_op_ok: "op_ok (Put 7 5 sample_companion)"
  by (simp add: sample_companion_def companion_bytes_def frame_def slice_def ascii_def)

lemma sample_fits: "fits sample_companion"
  by (simp add: fits_def sample_companion_def encode_companion_def is_ok_def put_frame_def put_u32_def
      put_count_def ascii_def)

theorem store_exec_refines_witness:
  "abs_exec (Put 7 5 sample_companion) (abs_store empty_store) =
     Some (abs_store (snd (store_exec (\<lambda>_. None) (Put 7 5 sample_companion) empty_store)))"
proof -
  let ?out = "store_exec (\<lambda>_. None) (Put 7 5 sample_companion) empty_store"
  have out: "?out = (fst ?out, snd ?out)" by simp
  note r = store_exec_refines [OF store_inv_empty sample_op_ok out]
  have "is_ok (fst ?out)" using store_put_total [OF store_inv_empty _ sample_fits] by simp
  with r show ?thesis by (simp del: abs_exec.simps)
qed

text \<open>
  Claim C2. Along every sequence of store operations, each with its own pattern of database faults, the store
  stays well formed, and the retention horizon and the eviction cursor never move backwards and are never forgotten.
\<close>

theorem store_run_monotone:
  assumes "store_inv db" "ops_ok ops"
  shows "store_inv (store_run ops db) \<and> rt_horizon (abs_store db) \<le> rt_horizon (abs_store (store_run ops db)) \<and>
         rt_cursor (abs_store db) \<le> rt_cursor (abs_store (store_run ops db))"
  using companion_db.run_monotone [where m = rt_horizon, OF abs_exec_horizon assms(1)]
    companion_db.run_monotone [where m = rt_cursor, OF abs_exec_cursor assms(1)] assms(2) store_run_inv [OF assms]
  by (simp add: store_run_def ops_ok_def)

theorem store_run_monotone_witness:
  "let db = store_run [(\<lambda>_. None, SetHorizon 3), (\<lambda>_. Some 1, PruneBelow 12)] (snd (store_exec (\<lambda>_. None) (SetHorizon 9) empty_store))
   in store_inv db \<and> Some 9 \<le> rt_horizon (abs_store db)"
proof -
  let ?db = "snd (store_exec (\<lambda>_. None) (SetHorizon 9) empty_store)"
  have inv: "store_inv ?db" by (rule companion_db.keeps [OF store_inv_empty]) simp
  have "rt_horizon (abs_store ?db) = Some 9"
    by (simp add: set_horizon_def finish_txn_def mdbx_def read_meta_number_def empty_store_def
        abs_store_def from_be_to_be)
  then show ?thesis
    using store_run_monotone [OF inv, of "[(\<lambda>_. None, SetHorizon 3), (\<lambda>_. Some 1, PruneBelow 12)]"]
    by (simp add: ops_ok_def Let_def)
qed

text \<open>
  Claim C3. A companion whose \<open>put\<close> was reported as a success is served, byte for byte, after any later
  run of operations that neither overwrite nor remove that block and prune at or below its height,
  whatever faults those operations meet.
\<close>

theorem put_then_get:
  assumes "store_inv db" "op_ok (Put h n c)" "store_put io db h n c = (Inr u, db')"
    and "ops_ok ops" "\<forall>(io, op) \<in> set ops. spares h n op"
    and "io' BeginTxn = None" "io' GetKey = None"
  shows "store_get io' (store_run ops db') h = Inr (Found c)"
proof -
  have exec: "store_exec io (Put h n c) db = (Inr u, db')" using assms(3) by simp
  have inv: "store_inv db'" using companion_db.keeps [OF assms(1,2), of io] exec by simp
  have "rt_view (abs_store db') h = Some (n, c)"
    using put_view [OF companion_db.success [OF assms(1,2) exec]] by simp
  moreover have "(rt_view (abs_store (store_run ops db')) h = Some (n, c)) =
      (rt_view (abs_store db') h = Some (n, c))"
    unfolding store_run_def
    by (rule companion_db.run_frame [where P = "spares h n"])
      (use inv assms(4,5) in \<open>auto simp: ops_ok_def dest: abs_exec_spares\<close>)
  ultimately show ?thesis
    using store_get_view [OF store_run_inv [OF inv assms(4)] assms(6,7)] by simp
qed

theorem put_then_get_witness:
  "store_get (\<lambda>_. None)
     (store_run [(\<lambda>_. None, PruneBelow 5), (\<lambda>_. None, Remove 8), (\<lambda>_. Some 2, SetHorizon 6)]
       (snd (store_put (\<lambda>_. None) empty_store 7 5 sample_companion))) 7 = Inr (Found sample_companion)"
proof -
  let ?out = "store_put (\<lambda>_. None) empty_store 7 5 sample_companion"
  have "is_ok (fst ?out)" by (rule store_put_total [OF store_inv_empty _ sample_fits]) simp
  then have out: "?out = (Inr (), snd ?out)" by (auto elim: is_okE simp: prod_eq_iff)
  show ?thesis by (rule put_then_get [OF store_inv_empty sample_op_ok out]) (simp_all add: ops_ok_def)
qed

text \<open>
  Claim C4. A lookup has exactly three outcomes: the stored companion; \<open>Unavailable\<close> with the recorded
  horizon when the block has no entry and a horizon was ever recorded; \<open>Unknown\<close> when it has no entry
  and no horizon is known. Pruning or removing a record is never reported as \<open>Unknown\<close> once a horizon exists. Only
  a lookup that finds no entry reads the horizon, and a failure of that second read is reported as it is.
\<close>

theorem store_get_outcomes:
  assumes "store_inv db" "io BeginTxn = None" "io GetKey = None"
  shows "store_get io db h = (case rt_view (abs_store db) h of
      Some (n, c) \<Rightarrow> Inr (Found c)
    | None \<Rightarrow> mdbx io GetMeta (case rt_horizon (abs_store db) of Some hz \<Rightarrow> Unavailable hz | None \<Rightarrow> Unknown))"
  using assms by (rule store_get_view)

theorem store_get_outcomes_witness:
  "store_get (\<lambda>_. None) empty_store 7 = Inr Unknown \<and>
   store_get (\<lambda>_. None) (snd (store_exec (\<lambda>_. None) (PruneBelow 9) empty_store)) 7 = Inr (Unavailable 9)"
proof -
  let ?db = "snd (store_exec (\<lambda>_. None) (PruneBelow 9) empty_store)"
  have inv: "store_inv ?db" by (rule companion_db.keeps [OF store_inv_empty]) simp
  have "rt_view (abs_store ?db) 7 = None" "rt_horizon (abs_store ?db) = Some 9"
    by (simp_all add: prune_below_def finish_txn_def mdbx_def read_meta_number_def empty_store_def
        abs_store_def from_be_to_be)
  moreover have "rt_view (abs_store empty_store) 7 = None" "rt_horizon (abs_store empty_store) = None"
    by (simp_all add: empty_store_def abs_store_def)
  ultimately show ?thesis
    using store_get_outcomes [OF inv, of "\<lambda>_. None" 7]
      store_get_outcomes [OF store_inv_empty, of "\<lambda>_. None" 7] by (simp add: mdbx_def)
qed

text \<open>
  Claim C5. \<open>entries_in_range(from, to)\<close> reports exactly the stored blocks whose number lies in the
  half-open range, each once, ordered by number and then by hash, the same-height siblings included.
\<close>

theorem entries_in_range_exact:
  assumes "store_inv db" "\<forall>c. io c = None"
  shows "\<exists>es. entries_in_range io db from to = Inr es \<and>
    set es = {(h, n). from \<le> n \<and> n < to \<and> (\<exists>c. rt_view (abs_store db) h = Some (n, c))} \<and>
    sorted_wrt by_number_then_hash es"
proof -
  let ?ps = "map (index_pair \<circ> fst) (cs_by_number db)"
  note e = entries_as_filter [OF assms(1), of io] assms(2)
  have ps: "set ?ps = {(h, n). \<exists>c. rt_view (abs_store db) h = Some (n, c)}"
    using by_number_keys(1) [OF assms(1)] by (simp add: image_comp)
  show ?thesis
  proof (intro exI conjI)
    show "entries_in_range io db from to = Inr (filter (\<lambda>(h, n). from \<le> n \<and> n < to) ?ps)"
      using e by blast
    show "set (filter (\<lambda>(h, n). from \<le> n \<and> n < to) ?ps) =
        {(h, n). from \<le> n \<and> n < to \<and> (\<exists>c. rt_view (abs_store db) h = Some (n, c))}"
      unfolding set_filter ps by auto
    show "sorted_wrt by_number_then_hash (filter (\<lambda>(h, n). from \<le> n \<and> n < to) ?ps)"
      using e by (intro sorted_wrt_filter) blast
  qed
qed

theorem entries_in_range_exact_witness:
  "\<exists>es. entries_in_range (\<lambda>_. None) (snd (store_put (\<lambda>_. None) empty_store 7 5 sample_companion)) 5 6 = Inr es
     \<and> set es = {(7, 5)}"
proof -
  let ?out = "store_exec (\<lambda>_. None) (Put 7 5 sample_companion) empty_store"
  have inv: "store_inv (snd ?out)" by (rule companion_db.keeps [OF store_inv_empty sample_op_ok])
  have "is_ok (fst ?out)" using store_put_total [OF store_inv_empty _ sample_fits] by simp
  then have out: "?out = (Inr (), snd ?out)" by (auto elim: is_okE simp: prod_eq_iff)
  have view: "rt_view (abs_store (snd ?out)) = [7 \<mapsto> (5, sample_companion)]"
    using put_view [OF companion_db.success [OF store_inv_empty sample_op_ok out]]
    by (simp add: abs_store_def empty_store_def)
  obtain es where "entries_in_range (\<lambda>_. None) (snd ?out) 5 6 = Inr es"
    "set es = {(h, n). 5 \<le> n \<and> n < 6 \<and> (\<exists>c. rt_view (abs_store (snd ?out)) h = Some (n, c))}"
    using entries_in_range_exact [OF inv, of "\<lambda>_. None" 5 6] by auto
  moreover have "{(h, n). 5 \<le> n \<and> n < 6 \<and> (\<exists>c. rt_view (abs_store (snd ?out)) h = Some (n, c))} = {(7, 5)}"
    unfolding view by (auto split: if_splits)
  ultimately show ?thesis by auto
qed

end
