(* ===== verification/Canonical_Cbor.thy ===== *)
theory Canonical_Cbor
  imports Unicity_Prelude
begin

text \<open>
  RFC 8949 deterministic CBOR as the node writes and reads it: the writer helpers at the end of
  \<open>execution/src/lib.rs\<close> and the \<open>Decoder\<close> of \<open>execution/src/wire.rs\<close>. Each reader is shown to
  accept exactly the bytes the writer produces, as an interpretation of \<open>item_codec\<close>, so that the
  composite formats built on them (root input, pair binding, B1 update, root records) are decoded
  exactly by rewriting.
\<close>

section \<open>Writer\<close>

text \<open>A writer is the byte string it appends to \<open>out\<close>.\<close>

definition head_byte :: "u8 \<Rightarrow> u8 \<Rightarrow> u8" where
  "head_byte kind info = push_bit 5 kind OR info"

definition major :: "u8 \<Rightarrow> u64 \<Rightarrow> bytes" where
  "major kind value =
     (if value \<le> 23 then [head_byte kind (ucast value)]
      else if value \<le> 0xff then [head_byte kind 24, ucast value]
      else if value \<le> 0xffff then head_byte kind 25 # to_be 2 (ucast value :: u16)
      else if value \<le> 0xffffffff then head_byte kind 26 # to_be 4 (ucast value :: u32)
      else head_byte kind 27 # to_be 8 value)"

definition put_array :: "nat \<Rightarrow> bytes" where
  "put_array len = major 4 (of_nat len)"

definition put_bytes :: "bytes \<Rightarrow> bytes" where
  "put_bytes value = major 2 (of_nat (length value)) @ value"

definition put_text :: "bytes \<Rightarrow> bytes" where
  "put_text value = major 3 (of_nat (length value)) @ value"

definition put_uint :: "u64 \<Rightarrow> bytes" where
  "put_uint value = major 0 value"

definition put_word :: "b256 \<Rightarrow> bytes" where
  "put_word w = put_bytes (b256_bytes w)"

definition nullable_word :: "b256 option \<Rightarrow> bytes" where
  "nullable_word value = (case value of Some w \<Rightarrow> put_word w | None \<Rightarrow> [0xf6])"

section \<open>Decoder\<close>

datatype canonical_cbor_error =
    UnexpectedEof
  | TrailingBytes
  | IndefiniteLength
  | ReservedAdditionalInfo u8
  | NonMinimalLength
  | UnexpectedItem u8 string
  | WrongArity nat nat
  | WrongByteStringLength nat nat
  | LengthOutOfRange
  | InvalidUtf8
  | TooLarge string nat nat
  | InvalidRootInput string

type_synonym 'a decode = "reader \<Rightarrow> canonical_cbor_error + 'a \<times> reader"

definition decoder_new :: "bytes \<Rightarrow> reader" where
  "decoder_new input = \<lparr>rd_bytes = input, rd_offset = 0\<rparr>"

definition dec_take :: "nat \<Rightarrow> bytes decode" where
  "dec_take len r =
     (let end = rd_offset r + len in
      if 2 ^ 64 \<le> end then Inl LengthOutOfRange
      else if length (rd_bytes r) < end then Inl UnexpectedEof
      else Inr (take len (drop (rd_offset r) (rd_bytes r)), r\<lparr>rd_offset := end\<rparr>))"

definition dec_read_u8 :: "u8 decode" where
  "dec_read_u8 r = rbind (dec_take 1 r) (\<lambda>(bs, r). Inr (hd bs, r))"

definition dec_peek :: "reader \<Rightarrow> canonical_cbor_error + u8" where
  "dec_peek r =
     (if rd_offset r < length (rd_bytes r) then Inr (rd_bytes r ! rd_offset r) else Inl UnexpectedEof)"

definition dec_finish :: "reader \<Rightarrow> canonical_cbor_error + unit" where
  "dec_finish r = (if rd_offset r = length (rd_bytes r) then Inr () else Inl TrailingBytes)"

definition read_argument :: "u8 \<Rightarrow> u64 decode" where
  "read_argument info r =
     (if info \<le> 23 then Inr (ucast info, r)
      else if info = 24 then rbind (dec_read_u8 r) (\<lambda>(b, r).
        let value = ucast b in if value < 24 then Inl NonMinimalLength else Inr (value, r))
      else if info = 25 then rbind (dec_take 2 r) (\<lambda>(bs, r).
        let value = ucast (from_be bs :: u16) in
        if value \<le> 0xff then Inl NonMinimalLength else Inr (value, r))
      else if info = 26 then rbind (dec_take 4 r) (\<lambda>(bs, r).
        let value = ucast (from_be bs :: u32) in
        if value \<le> 0xffff then Inl NonMinimalLength else Inr (value, r))
      else if info = 27 then rbind (dec_take 8 r) (\<lambda>(bs, r).
        let value = from_be bs in
        if value \<le> 0xffffffff then Inl NonMinimalLength else Inr (value, r))
      else if info = 31 then Inl IndefiniteLength
      else Inl (ReservedAdditionalInfo info))"

definition read_head :: "(u8 \<times> u64) decode" where
  "read_head r =
     rbind (dec_read_u8 r) (\<lambda>(initial, r).
     let kind = drop_bit 5 initial; info = initial AND 0x1f in
     rbind (read_argument info r) (\<lambda>(argument, r). Inr ((kind, argument), r)))"

definition read_uint :: "u64 decode" where
  "read_uint r =
     rbind (read_head r) (\<lambda>((kind, value), r).
     if kind = 0 then Inr (value, r) else Inl (UnexpectedItem kind ''unsigned integer''))"

definition read_bytes :: "bytes decode" where
  "read_bytes r =
     rbind (read_head r) (\<lambda>((kind, len), r).
     if kind = 2 then dec_take (unat len) r else Inl (UnexpectedItem kind ''byte string''))"

definition read_bounded_bytes :: "string \<Rightarrow> nat \<Rightarrow> bytes decode" where
  "read_bounded_bytes what limit r =
     rbind (read_head r) (\<lambda>((kind, len), r).
     if kind = 2 then
       if limit < unat len then Inl (TooLarge what (unat len) limit) else dec_take (unat len) r
     else Inl (UnexpectedItem kind ''byte string''))"

definition read_text :: "bytes decode" where
  "read_text r =
     rbind (rbind (read_head r) (\<lambda>((kind, len), r).
       if kind = 3 then dec_take (unat len) r else Inl (UnexpectedItem kind ''text string''))) (\<lambda>(bs, r).
     if utf8_valid bs then Inr (bs, r) else Inl InvalidUtf8)"

definition read_bounded_text :: "string \<Rightarrow> nat \<Rightarrow> bytes decode" where
  "read_bounded_text what limit r =
     rbind (read_head r) (\<lambda>((kind, len), r).
     if kind = 3 then
       if limit < unat len then Inl (TooLarge what (unat len) limit)
       else rbind (dec_take (unat len) r) (\<lambda>(bs, r).
         if utf8_valid bs then Inr (bs, r) else Inl InvalidUtf8)
     else Inl (UnexpectedItem kind ''text string''))"

definition read_array :: "nat decode" where
  "read_array r =
     rbind (read_head r) (\<lambda>((kind, len), r).
     if kind = 4 then Inr (unat len, r) else Inl (UnexpectedItem kind ''array''))"

definition read_word :: "b256 decode" where
  "read_word r =
     rbind (read_bytes r) (\<lambda>(bs, r).
     if length bs \<noteq> 32 then Inl (WrongByteStringLength 32 (length bs)) else Inr (from_be bs, r))"

definition read_nullable_word :: "b256 option decode" where
  "read_nullable_word r =
     rbind (dec_peek r) (\<lambda>b.
     if b = 0xf6 then Inr (None, r\<lparr>rd_offset := rd_offset r + 1\<rparr>)
     else rbind (read_word r) (\<lambda>(w, r). Inr (Some w, r)))"

section \<open>Heads\<close>

lemma unat_drop_bit5: "unat (drop_bit 5 (b :: u8)) = unat b div 32"
  by (simp add: drop_bit_eq_div unat_div)

lemma unat_and_31: "unat (b AND 0x1f :: u8) = unat b mod 32"
proof -
  have "b AND 0x1f = take_bit 5 b" by (simp add: take_bit_eq_mask mask_eq_decr_exp)
  then show ?thesis by (simp add: take_bit_eq_mod unat_mod)
qed

lemma unat_head_byte:
  assumes "kind < 8" "info < 32"
  shows "unat (head_byte kind info) = 32 * unat kind + unat info"
proof -
  have "take_bit 5 info = info"
    using assms(2) by (simp add: word_unat_eq_iff take_bit_eq_mod unat_mod word_less_nat_alt)
  moreover have "push_bit 5 kind AND take_bit 5 info = 0" by (rule bit_eqI) (auto simp: bit_simps)
  ultimately have "push_bit 5 kind AND info = 0" by simp
  then have "head_byte kind info = push_bit 5 kind + info"
    by (simp add: head_byte_def disjunctive_add_eq_or)
  moreover have "unat (push_bit 5 kind) = 32 * unat kind"
    using assms(1) by (simp add: push_bit_eq_mult unat_mult_exact word_less_nat_alt)
  ultimately show ?thesis using assms by (simp add: unat_add_exact word_less_nat_alt)
qed

lemma head_byte_fields:
  assumes "kind < 8" "info < 32"
  shows "drop_bit 5 (head_byte kind info) = kind" "head_byte kind info AND 0x1f = info"
  using unat_head_byte [OF assms] assms
  by (simp_all add: word_unat_eq_iff unat_drop_bit5 unat_and_31 word_less_nat_alt)

lemma byte_head:
  "drop_bit 5 (b :: u8) < 8" "b AND 0x1f < (32 :: u8)" "head_byte (drop_bit 5 b) (b AND 0x1f) = b"
proof -
  show 1: "drop_bit 5 b < 8" and 2: "b AND 0x1f < 32"
    using unat_less_pow [of b] by (simp_all add: word_less_nat_alt unat_drop_bit5 unat_and_31)
  show "head_byte (drop_bit 5 b) (b AND 0x1f) = b"
    using unat_head_byte [OF 1 2] by (simp add: word_unat_eq_iff unat_drop_bit5 unat_and_31)
qed

section \<open>Items\<close>

lemma dec_take_iff: "short r \<Longrightarrow> dec_take n r = Inr (xs, r') \<longleftrightarrow> length xs = n \<and> reads r xs r'"
proof
  assume "dec_take n r = Inr (xs, r')"
  then have "rd_offset r + n \<le> length (rd_bytes r)" "xs = take n (drop (rd_offset r) (rd_bytes r))"
    "r' = r\<lparr>rd_offset := rd_offset r + n\<rparr>"
    by (auto simp: dec_take_def Let_def split: if_splits)
  then show "length xs = n \<and> reads r xs r'" using readsI by auto
next
  assume s: "short r" and h: "length xs = n \<and> reads r xs r'"
  then have "take n (drop (rd_offset r) (rd_bytes r)) = xs" using reads_take by metis
  with s h show "dec_take n r = Inr (xs, r')"
    by (auto simp: dec_take_def Let_def reads_def short_def slice_def)
qed

lemma dec_take_step:
  "short r \<Longrightarrow> dec_take n r = Inr (xs, r') \<longleftrightarrow> length xs = n \<and> reads r xs r' \<and> short r'"
  using dec_take_iff reads_short by blast

lemma dec_read_u8_iff: "short r \<Longrightarrow> dec_read_u8 r = Inr (b, r') \<longleftrightarrow> reads r [b] r'"
  by (auto simp: dec_read_u8_def result_iff dec_take_iff length_Suc_conv)

interpretation byte_item: item_codec "\<lambda>b. [b]" dec_read_u8 "\<lambda>_. True"
  by unfold_locales (simp add: dec_read_u8_iff)

definition argument_bytes :: "u8 \<Rightarrow> u64 \<Rightarrow> bytes" where
  "argument_bytes info v =
     (if info \<le> 23 then [] else if info = 24 then [ucast v]
      else if info = 25 then to_be 2 (ucast v :: u16)
      else if info = 26 then to_be 4 (ucast v :: u32) else to_be 8 v)"

definition argument_info :: "u64 \<Rightarrow> u8" where
  "argument_info v = (if v \<le> 23 then ucast v else if v \<le> 0xff then 24 else if v \<le> 0xffff then 25
     else if v \<le> 0xffffffff then 26 else 27)"

lemma unat_ucast_small: "unat (w :: 'a::len word) < 2 ^ LENGTH('b) \<Longrightarrow> unat (ucast w :: 'b::len word) = unat w"
  by (simp add: unsigned_ucast_eq take_bit_nat_eq_self)

lemma major_split: "major k v = head_byte k (argument_info v) # argument_bytes (argument_info v) v"
proof -
  have "ucast v \<le> (23 :: u8)" if "v \<le> 23"
    using that by (simp add: word_le_nat_alt unat_ucast_small)
  then show ?thesis by (simp add: major_def argument_info_def argument_bytes_def)
qed

lemma argument_info_less: "argument_info v < 32"
  by (auto simp: argument_info_def word_less_nat_alt word_le_nat_alt unat_ucast_small)

lemma argument_info_simps:
  "argument_info v = 24 \<longleftrightarrow> 23 < v \<and> v \<le> 0xff" "argument_info v = 25 \<longleftrightarrow> 0xff < v \<and> v \<le> 0xffff"
  "argument_info v = 26 \<longleftrightarrow> 0xffff < v \<and> v \<le> 0xffffffff" "argument_info v = 27 \<longleftrightarrow> 0xffffffff < v"
  "argument_info v \<le> 23 \<longleftrightarrow> v \<le> 23"
proof -
  have small: "(ucast v :: u8) \<le> 23" "(ucast v :: u8) \<noteq> 24" "(ucast v :: u8) \<noteq> 25" "(ucast v :: u8) \<noteq> 26"
    "(ucast v :: u8) \<noteq> 27" if "v \<le> 23"
    using that by (auto simp: word_le_nat_alt word_unat_eq_iff unat_ucast_small)
  show "argument_info v = 24 \<longleftrightarrow> 23 < v \<and> v \<le> 0xff" "argument_info v = 25 \<longleftrightarrow> 0xff < v \<and> v \<le> 0xffff"
    "argument_info v = 26 \<longleftrightarrow> 0xffff < v \<and> v \<le> 0xffffffff" "argument_info v = 27 \<longleftrightarrow> 0xffffffff < v"
    "argument_info v \<le> 23 \<longleftrightarrow> v \<le> 23"
    using small by (auto simp: argument_info_def word_le_nat_alt word_less_nat_alt)
qed

lemma wide_argument:
  fixes v :: u64
  assumes "LENGTH('b) = 8 * n" "length xs = n" and that: "LENGTH('b) \<le> 64"
  shows "v = ucast (from_be xs :: 'b::len word) \<longleftrightarrow> unat v < 2 ^ LENGTH('b) \<and> xs = to_be n (ucast v :: 'b word)"
proof
  assume v: "v = ucast (from_be xs :: 'b word)"
  then have "unat v = unat (from_be xs :: 'b word)" using that by (simp add: unat_ucast_up)
  moreover from this have "ucast v = (from_be xs :: 'b word)"
    by (simp add: word_unat_eq_iff unat_ucast_small unat_less_pow)
  ultimately show "unat v < 2 ^ LENGTH('b) \<and> xs = to_be n (ucast v :: 'b word)"
    using assms unat_less_pow [of "from_be xs :: 'b word"] by (simp add: to_be_from_be)
next
  assume h: "unat v < 2 ^ LENGTH('b) \<and> xs = to_be n (ucast v :: 'b word)"
  then have "from_be xs = (ucast v :: 'b word)" using assms by (simp add: from_be_to_be)
  with h that show "v = ucast (from_be xs :: 'b word)"
    by (simp add: word_unat_eq_iff unat_ucast_up unat_ucast_small)
qed

lemma read_wide:
  assumes "short r" "length e = n"
    and eq: "\<And>xs. length xs = n \<Longrightarrow> v = f xs \<and> \<not> v \<le> (c :: u64) \<longleftrightarrow> Q \<and> xs = e"
  shows "rbind (dec_take n r) (\<lambda>(bs, r). let value = f bs in
      if value \<le> c then Inl NonMinimalLength else Inr (value, r)) = Inr (v, r') \<longleftrightarrow> Q \<and> reads r e r'"
proof -
  have "rbind (dec_take n r) (\<lambda>(bs, r). let value = f bs in
      if value \<le> c then Inl NonMinimalLength else Inr (value, r)) = Inr (v, r') \<longleftrightarrow>
      (\<exists>xs. length xs = n \<and> reads r xs r' \<and> v = f xs \<and> \<not> v \<le> c)"
    using assms(1) by (auto simp: result_iff Let_def dec_take_iff)
  also have "\<dots> \<longleftrightarrow> (\<exists>xs. length xs = n \<and> reads r xs r' \<and> Q \<and> xs = e)" using eq by blast
  finally show ?thesis using assms(2) by auto
qed

lemma unat_u64_less [simp]: "unat (n :: u64) < 18446744073709551616"
  by (rule less_le_trans [OF unat_less_pow]) simp

lemma read_argument_iff:
  assumes "short r" "i < 32"
  shows "read_argument i r = Inr (v, r') \<longleftrightarrow> i = argument_info v \<and> reads r (argument_bytes i v) r'"
proof -
  consider "i \<le> 23" | "i = 24" | "i = 25" | "i = 26" | "i = 27" | "27 < i"
    unfolding word_le_nat_alt word_less_nat_alt word_unat_eq_iff by simp linarith
  then show ?thesis
  proof cases
    case 1
    then have "v = ucast i \<longleftrightarrow> i = argument_info v"
      by (auto simp: argument_info_def word_le_nat_alt word_unat_eq_iff unat_ucast_small unat_ucast_up
          split: if_splits)
    with 1 assms show ?thesis by (auto simp: read_argument_def argument_bytes_def)
  next
    case 2
    have eq: "v = ucast b \<and> \<not> v < 24 \<longleftrightarrow> 24 = argument_info v \<and> b = ucast v" for b :: u8
      using unat_less_pow [of b]
      unfolding eq_commute [of 24 "argument_info v"] argument_info_simps
      by (auto simp: word_le_nat_alt word_less_nat_alt word_unat_eq_iff unat_ucast_small unat_ucast_up)
    have "read_argument i r = Inr (v, r') \<longleftrightarrow> (\<exists>b. reads r [b] r' \<and> v = ucast b \<and> \<not> v < 24)"
      using 2 assms by (auto simp: read_argument_def result_iff Let_def dec_read_u8_iff)
    with 2 show ?thesis by (auto simp: eq argument_bytes_def)
  next
    case 3
    have "v = ucast (from_be xs :: u16) \<and> \<not> v \<le> 0xff \<longleftrightarrow> 25 = argument_info v \<and> xs = to_be 2 (ucast v :: u16)"
      if "length xs = 2" for xs
      using wide_argument [where 'b = 16, of 2 xs v] that
      by (auto simp: eq_commute [of 25] argument_info_simps word_le_nat_alt word_less_nat_alt)
    from read_wide [OF assms(1) _ this] show ?thesis
      using 3 by (simp add: read_argument_def argument_bytes_def)
  next
    case 4
    have "v = ucast (from_be xs :: u32) \<and> \<not> v \<le> 0xffff \<longleftrightarrow> 26 = argument_info v \<and> xs = to_be 4 (ucast v :: u32)"
      if "length xs = 4" for xs
      using wide_argument [where 'b = 32, of 4 xs v] that
      by (auto simp: eq_commute [of 26] argument_info_simps word_le_nat_alt word_less_nat_alt)
    from read_wide [OF assms(1) _ this] show ?thesis
      using 4 by (simp add: read_argument_def argument_bytes_def)
  next
    case 5
    have "v = from_be xs \<and> \<not> v \<le> 0xffffffff \<longleftrightarrow> 27 = argument_info v \<and> xs = to_be 8 v" if "length xs = 8" for xs
      using that by (auto simp: eq_commute [of 27] argument_info_simps to_be_from_be from_be_to_be)
    from read_wide [OF assms(1) _ this] show ?thesis
      using 5 by (simp add: read_argument_def argument_bytes_def)
  next
    case 6
    have "argument_info v \<le> 27"
      by (auto simp: argument_info_def word_le_nat_alt unat_ucast_small)
    with 6 show ?thesis
      by (auto simp: read_argument_def word_le_nat_alt word_less_nat_alt word_unat_eq_iff)
  qed
qed

lemma read_head_iff:
  assumes "short r"
  shows "read_head r = Inr ((k, v), r') \<longleftrightarrow> k < 8 \<and> reads r (major k v) r'"
proof -
  have "read_head r = Inr ((k, v), r') \<longleftrightarrow>
      (\<exists>b r1. reads r [b] r1 \<and> k = drop_bit 5 b \<and> b AND 0x1f = argument_info v \<and>
        reads r1 (argument_bytes (argument_info v) v) r')"
    using assms
    by (simp add: read_head_def result_iff Let_def byte_item.get_step read_argument_iff byte_head
        cong: conj_cong) (blast dest: reads_short)
  also have "\<dots> \<longleftrightarrow> k < 8 \<and> (\<exists>r1. reads r [head_byte k (argument_info v)] r1 \<and>
      reads r1 (argument_bytes (argument_info v) v) r')"
    using byte_head argument_info_less [of v] head_byte_fields [of k "argument_info v"] by metis
  also have "\<dots> \<longleftrightarrow> k < 8 \<and> reads r (major k v) r'"
    unfolding major_split using reads_Cons_iff by blast
  finally show ?thesis .
qed

interpretation head_item: item_codec "\<lambda>(k, v). major k v" read_head "\<lambda>(k, v). k < 8"
  by unfold_locales (auto simp: read_head_iff)

lemma read_uint_iff: "short r \<Longrightarrow> read_uint r = Inr (v, r') \<longleftrightarrow> reads r (put_uint v) r'"
  by (auto simp: read_uint_def result_iff head_item.get_iff put_uint_def)

lemma read_array_iff:
  assumes "short r"
  shows "read_array r = Inr (n, r') \<longleftrightarrow> n < 2 ^ 64 \<and> reads r (put_array n) r'"
proof -
  have "read_array r = Inr (n, r') \<longleftrightarrow> (\<exists>v :: u64. reads r (major 4 v) r' \<and> n = unat v)"
    using assms by (auto simp: read_array_def result_iff head_item.get_iff intro!: exI [of _ "4 :: u8"])
  also have "\<dots> \<longleftrightarrow> n < 2 ^ 64 \<and> reads r (put_array n) r'"
    by (auto intro!: exI [of _ "of_nat n"] simp: put_array_def unat_of_nat)
  finally show ?thesis .
qed

lemma read_string:
  assumes "short r" "k < 8"
  shows "(\<exists>n r1. read_head r = Inr ((k, n), r1) \<and> dec_take (unat n) r1 = Inr (bs, r') \<and> P (unat n)) \<longleftrightarrow>
    length bs < 2 ^ 64 \<and> P (length bs) \<and> reads r (major k (of_nat (length bs)) @ bs) r'"
proof -
  have "(\<exists>n r1. read_head r = Inr ((k, n), r1) \<and> dec_take (unat n) r1 = Inr (bs, r') \<and> P (unat n)) \<longleftrightarrow>
      (\<exists>n r1. reads r (major k n) r1 \<and> length bs = unat (n :: u64) \<and> reads r1 bs r' \<and> P (unat n))"
    using assms by (simp add: head_item.get_step dec_take_iff cong: conj_cong) (blast dest: reads_short)
  also have "\<dots> \<longleftrightarrow> length bs < 2 ^ 64 \<and> P (length bs) \<and> reads r (major k (of_nat (length bs)) @ bs) r'"
    unfolding reads_append_iff
    by (auto intro!: exI [of _ "of_nat (length bs)"] simp: unat_of_nat)
  finally show ?thesis .
qed

lemma read_bytes_iff: "short r \<Longrightarrow> read_bytes r = Inr (bs, r') \<longleftrightarrow> length bs < 2 ^ 64 \<and> reads r (put_bytes bs) r'"
  using read_string [of r 2 bs r' "\<lambda>_. True"]
  by (simp add: read_bytes_def result_iff put_bytes_def)

lemma read_bounded_bytes_iff:
  "short r \<Longrightarrow> limit < 2 ^ 64 \<Longrightarrow>
     read_bounded_bytes what limit r = Inr (bs, r') \<longleftrightarrow> length bs \<le> limit \<and> reads r (put_bytes bs) r'"
  using read_string [of r 2 bs r' "\<lambda>n. n \<le> limit"]
  by (auto simp: read_bounded_bytes_def result_iff put_bytes_def not_less)

lemma read_text_iff:
  "short r \<Longrightarrow> read_text r = Inr (bs, r') \<longleftrightarrow>
     length bs < 2 ^ 64 \<and> utf8_valid bs \<and> reads r (put_text bs) r'"
  using read_string [of r 3 bs r' "\<lambda>_. True"]
  by (auto simp: read_text_def result_iff put_text_def)

lemma read_bounded_text_iff:
  "short r \<Longrightarrow> limit < 2 ^ 64 \<Longrightarrow>
     read_bounded_text what limit r = Inr (bs, r') \<longleftrightarrow>
       length bs \<le> limit \<and> utf8_valid bs \<and> reads r (put_text bs) r'"
  using read_string [of r 3 bs r' "\<lambda>n. n \<le> limit"]
  by (auto simp: read_bounded_text_def result_iff put_text_def not_less)

lemma read_word_iff: "short r \<Longrightarrow> read_word r = Inr (w, r') \<longleftrightarrow> reads r (put_word w) r'"
  by (auto simp: read_word_def result_iff read_bytes_iff put_word_def to_be_from_be from_be_to_be
      intro!: exI [of _ "b256_bytes w"])

lemma dec_peek_iff: "dec_peek r = Inr x \<longleftrightarrow> reads r [x] (r\<lparr>rd_offset := rd_offset r + 1\<rparr>)"
proof
  assume "dec_peek r = Inr x"
  then have "rd_offset r < length (rd_bytes r)" "x = rd_bytes r ! rd_offset r"
    by (auto simp: dec_peek_def split: if_splits)
  then show "reads r [x] (r\<lparr>rd_offset := rd_offset r + 1\<rparr>)" by (auto simp: reads_def Cons_nth_drop_Suc)
next
  assume "reads r [x] (r\<lparr>rd_offset := rd_offset r + 1\<rparr>)"
  then have "rd_offset r < length (rd_bytes r)" "drop (rd_offset r) (rd_bytes r) = x # drop (Suc (rd_offset r)) (rd_bytes r)"
    by (auto simp: reads_def)
  then show "dec_peek r = Inr x" by (auto simp: dec_peek_def simp flip: Cons_nth_drop_Suc)
qed

lemma put_word_head: "put_word w = 0x58 # 0x20 # b256_bytes w"
  by (simp add: put_word_def put_bytes_def major_def head_byte_def del: nat_be_numeral)

lemma reads_Cons_peek:
  assumes "reads r (x # xs) r'"
  shows "dec_peek r = Inr x"
proof -
  from assms obtain r1 where "reads r [x] r1" using reads_Cons_iff by blast
  moreover from this have "r1 = r\<lparr>rd_offset := rd_offset r + 1\<rparr>" by (auto simp: reads_def)
  ultimately show ?thesis by (simp add: dec_peek_iff)
qed

lemma read_nullable_word_iff:
  assumes "short r"
  shows "read_nullable_word r = Inr (v, r') \<longleftrightarrow> reads r (nullable_word v) r'"
proof (cases v)
  case None
  have "reads r [0xf6] r' \<longleftrightarrow> dec_peek r = Inr 0xf6 \<and> r' = r\<lparr>rd_offset := rd_offset r + 1\<rparr>"
    using reads_Cons_peek [of r 246 "[]" r'] dec_peek_iff [of r 246] reads_unique [of r "[246]" r'] by auto
  with None show ?thesis
    by (auto simp: read_nullable_word_def result_iff nullable_word_def)
next
  case (Some w)
  have "dec_peek r = Inr 0x58" if "reads r (put_word w) r'"
    using that unfolding put_word_head by (rule reads_Cons_peek)
  with Some assms show ?thesis
    by (auto simp: read_nullable_word_def result_iff nullable_word_def read_word_iff
        intro!: exI [of _ "0x58 :: u8"])
qed

interpretation uint_item: item_codec put_uint read_uint "\<lambda>_. True"
  by unfold_locales (simp add: read_uint_iff)

interpretation array_item: item_codec put_array read_array "\<lambda>n. n < 2 ^ 64"
  by unfold_locales (simp add: read_array_iff)

lemma reads_bytes_slice: "short r \<Longrightarrow> reads r (put_bytes bs) r' \<Longrightarrow> slice bs"
  by (auto simp: reads_def short_def slice_def put_bytes_def)

interpretation bytes_item: item_codec put_bytes read_bytes slice
proof (unfold_locales, goal_cases)
  case (1 r bs r')
  then show ?case using reads_bytes_slice [of r bs r'] by (auto simp: read_bytes_iff slice_def)
qed

interpretation text_item: item_codec put_text read_text "\<lambda>bs. length bs < 2 ^ 64 \<and> utf8_valid bs"
  by unfold_locales (simp add: read_text_iff)

interpretation word_item: item_codec put_word read_word "\<lambda>_. True"
  by unfold_locales (simp add: read_word_iff)

interpretation nullable_item: item_codec nullable_word read_nullable_word "\<lambda>_. True"
  by unfold_locales (simp add: read_nullable_word_iff)

lemma read_bounded_bytes_step:
  "short r \<Longrightarrow> limit < 2 ^ 64 \<Longrightarrow>
     read_bounded_bytes what limit r = Inr (bs, r') \<longleftrightarrow>
       length bs \<le> limit \<and> reads r (put_bytes bs) r' \<and> short r'"
  using read_bounded_bytes_iff reads_short by blast

lemma read_bounded_text_step:
  "short r \<Longrightarrow> limit < 2 ^ 64 \<Longrightarrow>
     read_bounded_text what limit r = Inr (bs, r') \<longleftrightarrow>
       length bs \<le> limit \<and> utf8_valid bs \<and> reads r (put_text bs) r' \<and> short r'"
  using read_bounded_text_iff reads_short by blast

lemmas cbor_steps = uint_item.get_step array_item.get_step bytes_item.get_step text_item.get_step
  word_item.get_step nullable_item.get_step read_bounded_bytes_step read_bounded_text_step

lemma decoder_whole:
  "slice bs \<Longrightarrow> (\<exists>r. reads (decoder_new bs) xs r \<and> dec_finish r = Inr ()) \<longleftrightarrow> xs = bs"
  using reads_whole [of bs xs] by (auto simp: decoder_new_def dec_finish_def)

lemma short_decoder_new [simp]: "short (decoder_new bs) \<longleftrightarrow> slice bs"
  by (simp add: decoder_new_def short_def)

section \<open>Heads read as a fold\<close>

text \<open>
  The update reader and the certificate scanner read the argument of a head as a fold over its bytes and
  check minimality afterwards. The rule below is their common specification: it holds of a byte, an
  argument and a rest exactly when the bytes are the one minimal head of the value.
\<close>

definition minimal_argument :: "nat \<Rightarrow> u64 \<Rightarrow> bool" where
  "minimal_argument n v \<longleftrightarrow>
     (if n = 1 then 24 \<le> v else if n = 2 then 0xff < v else if n = 4 then 0xffff < v else 0xffffffff < v)"

lemma wide_from_be:
  fixes v :: u64
  assumes "LENGTH('b) = 8 * n" "length xs = n" "LENGTH('b) \<le> 64"
  shows "v = from_be xs \<longleftrightarrow> unat v < 2 ^ LENGTH('b) \<and> xs = to_be n (ucast v :: 'b::len word)"
proof -
  have "unat (from_be xs :: u64) = unat (from_be xs :: 'b word)"
    using assms by (simp add: unat_from_be)
  then have "(from_be xs :: u64) = ucast (from_be xs :: 'b word)"
    using assms(3) by (simp add: word_unat_eq_iff unat_ucast_up)
  then show ?thesis using wide_argument [OF assms, of v] by simp
qed

lemma long_argument:
  assumes "24 \<le> i" "i \<le> 27"
  shows "length xs = 2 ^ (unat i - 24) \<and> v = from_be xs \<and> minimal_argument (2 ^ (unat i - 24)) v \<longleftrightarrow>
    i = argument_info v \<and> xs = argument_bytes i v"
proof -
  consider "i = 24" | "i = 25" | "i = 26" | "i = 27"
    using assms unfolding word_le_nat_alt word_unat_eq_iff by simp linarith
  then show ?thesis
  proof cases
    case 1
    have one: "to_be (Suc 0) (w :: u8) = [w]" for w
      using unat_byte_less [of w] by (simp add: to_be_def)
    show ?thesis using 1 wide_from_be [where 'b = 8, of 1 xs v]
      by (auto simp: eq_commute [of 24] argument_info_simps minimal_argument_def argument_bytes_def one
          word_le_nat_alt word_less_nat_alt)
  next
    case 2
    then show ?thesis using wide_from_be [where 'b = 16, of 2 xs v]
      by (auto simp: eq_commute [of 25] argument_info_simps minimal_argument_def argument_bytes_def
          word_le_nat_alt word_less_nat_alt)
  next
    case 3
    then show ?thesis using wide_from_be [where 'b = 32, of 4 xs v]
      by (auto simp: eq_commute [of 26] argument_info_simps minimal_argument_def argument_bytes_def
          word_le_nat_alt word_less_nat_alt)
  next
    case 4
    then show ?thesis using wide_from_be [where 'b = 64, of 8 xs v]
      by (auto simp: eq_commute [of 27] argument_info_simps minimal_argument_def argument_bytes_def)
  qed
qed

definition folded_head :: "u8 \<Rightarrow> bytes \<Rightarrow> u8 \<Rightarrow> u64 \<Rightarrow> bool" where
  "folded_head b xs k v \<longleftrightarrow>
     k = drop_bit 5 b \<and>
     (let info = b AND 0x1f in
      if info < 24 then xs = [] \<and> v = ucast info
      else info \<le> 27 \<and> length xs = 2 ^ (unat info - 24) \<and> v = from_be xs \<and>
        minimal_argument (2 ^ (unat info - 24)) v)"

lemma folded_head_iff: "folded_head b xs k v \<longleftrightarrow> k < 8 \<and> b # xs = major k v"
proof -
  let ?i = "b AND 0x1f"
  have arg: "(if ?i < 24 then xs = [] \<and> v = ucast ?i
      else ?i \<le> 27 \<and> length xs = 2 ^ (unat ?i - 24) \<and> v = from_be xs \<and> minimal_argument (2 ^ (unat ?i - 24)) v) \<longleftrightarrow>
    ?i = argument_info v \<and> xs = argument_bytes ?i v"
  proof (cases "?i < 24")
    case True
    then have "?i \<le> 23" by (simp add: word_le_nat_alt word_less_nat_alt)
    moreover from this have "v = ucast ?i \<longleftrightarrow> ?i = argument_info v"
      by (auto simp: argument_info_def word_le_nat_alt word_unat_eq_iff unat_ucast_small unat_ucast_up
          split: if_splits)
    ultimately show ?thesis using True by (auto simp: argument_bytes_def)
  next
    case False
    have "argument_info v \<le> 27" by (auto simp: argument_info_def word_le_nat_alt unat_ucast_small)
    with False show ?thesis using long_argument [of ?i xs v] by auto
  qed
  have "folded_head b xs k v \<longleftrightarrow> k = drop_bit 5 b \<and> ?i = argument_info v \<and> xs = argument_bytes (argument_info v) v"
    unfolding folded_head_def Let_def arg by auto
  also have "\<dots> \<longleftrightarrow> k < 8 \<and> b = head_byte k (argument_info v) \<and> xs = argument_bytes (argument_info v) v"
    using byte_head argument_info_less [of v] head_byte_fields [of k "argument_info v"] by metis
  finally show ?thesis by (simp add: major_split)
qed

end
