(* ===== verification/Root_Input.thy ===== *)
theory Root_Input
  imports Canonical_Cbor Record_Codec
begin

text \<open>
  The canonical v2 root input: its data and validation (\<open>origin_class\<close>, the canonical encoders and the
  commitments of \<open>execution/src/lib.rs\<close>) and its strict decoder with the epoch-transition body
  (\<open>execution/src/wire.rs\<close>). SHA-256 comes from the sha2 crate and is the parameter \<open>sha256\<close>. Strings
  are their UTF-8 bytes.
\<close>

section \<open>Data\<close>

type_synonym sha256 = "bytes \<Rightarrow> b256"

record input_record =
  ir_round :: u64
  ir_epoch :: u64
  ir_previous_hash :: "b256 option"
  ir_state_hash :: "b256 option"
  ir_timestamp :: u64
  ir_block_hash :: "b256 option"

record root_origin =
  ro_network_id :: u64
  ro_root_round :: u64
  ro_root_epoch :: u64
  ro_reference_time :: u64
  ro_tree_root :: b256
  ro_input_record_version :: u64
  ro_input_record :: input_record
  ro_tr_hash :: b256
  ro_shard_conf_hash :: b256

record technical_record =
  tr_round :: u64
  tr_epoch :: u64
  tr_leader :: bytes
  tr_stat_hash :: b256
  tr_fee_hash :: b256

record root_input =
  ri_version :: u64
  ri_network_id :: u64
  ri_partition_id :: u64
  ri_shard_id :: bytes
  ri_authorized_round :: u64
  ri_certified_epoch :: u64
  ri_authorized_epoch :: u64
  ri_parent_hash :: b256
  ri_origin :: root_origin
  ri_technical :: technical_record
  ri_transitions :: "bytes list"
  ri_b1_update_hash :: b256
  ri_root_records_hash :: b256

record epoch_transition =
  et_old_root_epoch :: u64
  et_new_root_epoch :: u64
  et_old_shard_epoch :: u64
  et_new_shard_epoch :: u64
  et_old_active_conf_hash :: b256
  et_new_active_conf_hash :: b256
  et_supersession_span :: u64
  et_supersession_commitment :: b256
  et_body_id :: b256
  et_genesis_id :: b256
  et_frozen_id :: b256
  et_commit_id :: b256
  et_frozen_parent :: b256
  et_successor_tr :: b256
  et_evm_round :: u64

datatype origin_class = Bootstrap | FirstCertified | Ordinary

section \<open>Epoch transitions\<close>

definition MAX_EPOCH_TRANSITION_BYTES :: nat where
  "MAX_EPOCH_TRANSITION_BYTES = 16 * 1024"

definition MAX_SUPERSESSION_SPAN :: u64 where
  "MAX_SUPERSESSION_SPAN = 2"

definition expect_array :: "nat \<Rightarrow> unit decode" where
  "expect_array expected r =
     rbind (read_array r) (\<lambda>(arity, r).
     if arity \<noteq> expected then Inl (WrongArity expected arity) else Inr ((), r))"

definition expect_domain :: "bytes \<Rightarrow> u64 \<Rightarrow> string \<Rightarrow> unit decode" where
  "expect_domain domain version reason r =
     rbind (read_text r) (\<lambda>(t, r).
     if t \<noteq> domain then Inl (InvalidRootInput reason)
     else rbind (read_uint r) (\<lambda>(v, r).
       if v \<noteq> version then Inl (InvalidRootInput reason) else Inr ((), r)))"

definition span_ok :: "u64 option \<Rightarrow> u64 option \<Rightarrow> bool \<Rightarrow> b256 \<Rightarrow> b256 \<Rightarrow> u64 \<Rightarrow> b256 \<Rightarrow> bool" where
  "span_ok root_delta shard_delta assignment_changed old_active new_active span commitment =
     (case root_delta of
        None \<Rightarrow> False
      | Some delta \<Rightarrow>
          if delta = 1 \<and> \<not> assignment_changed then shard_delta = Some 0 \<and> span = 0 \<and> commitment = 0
          else if delta = 1 then shard_delta = Some 1 \<and> new_active \<noteq> old_active \<and> span = 0 \<and> commitment = 0
          else if 1 < delta then
            shard_delta = Some delta \<and> new_active \<noteq> old_active \<and> span = delta \<and> commitment \<noteq> 0
          else False)"

definition decode_ack :: "bytes \<Rightarrow> canonical_cbor_error + (b256 \<times> b256 \<times> b256 \<times> b256 \<times> b256 \<times> u64)" where
  "decode_ack ack_bytes =
     rbind (expect_array 8 (decoder_new ack_bytes)) (\<lambda>(_, r).
     rbind (expect_domain (ascii ''UNICITY_HANDOFF_ACK'') 2 ''invalid acknowledgement domain or version'' r) (\<lambda>(_, r).
     rbind (read_word r) (\<lambda>(frozen_id, r).
     rbind (read_word r) (\<lambda>(commit_id, r).
     rbind (read_word r) (\<lambda>(frozen_parent, r).
     rbind (read_word r) (\<lambda>(successor_parent, r).
     rbind (read_word r) (\<lambda>(successor_tr, r).
     rbind (read_uint r) (\<lambda>(evm_round, r).
     rbind (dec_finish r) (\<lambda>_.
     Inr (frozen_id, commit_id, frozen_parent, successor_parent, successor_tr, evm_round))))))))))"

text \<open>The checks at the end of \<open>decode_epoch_transition\<close>, on the fields it has read.\<close>

definition check_epoch_transition ::
    "epoch_transition \<Rightarrow> b256 \<Rightarrow> canonical_cbor_error + epoch_transition" where
  "check_epoch_transition t successor_parent =
     (let root_delta = checked_sub (et_new_root_epoch t) (et_old_root_epoch t);
          shard_delta = checked_sub (et_new_shard_epoch t) (et_old_shard_epoch t);
          assignment_changed = (et_new_shard_epoch t \<noteq> et_old_shard_epoch t \<or>
            et_new_active_conf_hash t \<noteq> et_old_active_conf_hash t)
      in
      if (case root_delta of Some delta \<Rightarrow> MAX_SUPERSESSION_SPAN < delta | None \<Rightarrow> False)
      then Inl (InvalidRootInput ''supersession span exceeds bound'')
      else if \<not> span_ok root_delta shard_delta assignment_changed (et_old_active_conf_hash t)
                  (et_new_active_conf_hash t) (et_supersession_span t) (et_supersession_commitment t) \<or>
        et_old_active_conf_hash t = 0 \<or> et_new_active_conf_hash t = 0 \<or>
        0 \<in> set [et_body_id t, et_genesis_id t, et_frozen_id t, et_commit_id t, et_frozen_parent t,
          et_successor_tr t] \<or>
        et_frozen_parent t \<noteq> successor_parent \<or> et_evm_round t = 0
      then Inl (InvalidRootInput ''invalid epoch transition fields'')
      else Inr t)"

definition decode_epoch_transition :: "bytes \<Rightarrow> canonical_cbor_error + epoch_transition" where
  "decode_epoch_transition input =
     (if MAX_EPOCH_TRANSITION_BYTES < length input
      then Inl (InvalidRootInput ''epoch transition exceeds size limit'')
      else
      rbind (expect_array 13 (decoder_new input)) (\<lambda>(_, r).
      rbind (expect_domain (ascii ''UNICITY_HANDOFF_EVM_TRANSITION'') 3
               ''invalid epoch transition domain or version'' r) (\<lambda>(_, r).
      rbind (read_uint r) (\<lambda>(old_root_epoch, r).
      rbind (read_uint r) (\<lambda>(new_root_epoch, r).
      rbind (read_uint r) (\<lambda>(old_shard_epoch, r).
      rbind (read_uint r) (\<lambda>(new_shard_epoch, r).
      rbind (read_word r) (\<lambda>(old_active_conf_hash, r).
      rbind (read_word r) (\<lambda>(new_active_conf_hash, r).
      rbind (read_uint r) (\<lambda>(supersession_span, r).
      rbind (read_word r) (\<lambda>(supersession_commitment, r).
      rbind (read_word r) (\<lambda>(body_id, r).
      rbind (read_word r) (\<lambda>(genesis_id, r).
      rbind (read_bytes r) (\<lambda>(ack_bytes, r).
      rbind (dec_finish r) (\<lambda>_.
      rbind (decode_ack ack_bytes)
        (\<lambda>(frozen_id, commit_id, frozen_parent, successor_parent, successor_tr, evm_round).
      check_epoch_transition
        \<lparr>et_old_root_epoch = old_root_epoch, et_new_root_epoch = new_root_epoch,
        et_old_shard_epoch = old_shard_epoch, et_new_shard_epoch = new_shard_epoch,
        et_old_active_conf_hash = old_active_conf_hash, et_new_active_conf_hash = new_active_conf_hash,
        et_supersession_span = supersession_span, et_supersession_commitment = supersession_commitment,
        et_body_id = body_id, et_genesis_id = genesis_id, et_frozen_id = frozen_id,
        et_commit_id = commit_id, et_frozen_parent = frozen_parent, et_successor_tr = successor_tr,
        et_evm_round = evm_round\<rparr> successor_parent))))))))))))))))"

section \<open>Validation and encoding\<close>

definition encode_origin :: "root_origin \<Rightarrow> bytes" where
  "encode_origin orig =
     (let ir = ro_input_record orig in
      put_array 8 @ put_uint (ro_network_id orig) @ put_uint (ro_root_round orig) @ put_uint (ro_root_epoch orig) @
      put_uint (ro_reference_time orig) @ put_word (ro_tree_root orig) @
      put_array 6 @ put_uint (ir_round ir) @ put_uint (ir_epoch ir) @ nullable_word (ir_previous_hash ir) @
      nullable_word (ir_state_hash ir) @ put_uint (ir_timestamp ir) @ nullable_word (ir_block_hash ir) @
      put_word (ro_tr_hash orig) @ put_word (ro_shard_conf_hash orig))"

definition encode_technical :: "technical_record \<Rightarrow> bytes" where
  "encode_technical t =
     put_array 5 @ put_uint (tr_round t) @ put_uint (tr_epoch t) @ put_text (tr_leader t) @
     put_word (tr_stat_hash t) @ put_word (tr_fee_hash t)"

definition technical_record_hash :: "sha256 \<Rightarrow> technical_record \<Rightarrow> b256" where
  "technical_record_hash sha256 t = sha256 (encode_technical t)"

text \<open>
  \<open>origin_class\<close> fails only with \<open>ExecutionError::InvalidInput\<close>; its error is the reason it carries.
\<close>

definition origin_shape :: "input_record \<Rightarrow> string + origin_class" where
  "origin_shape ir =
     (case (ir_previous_hash ir, ir_state_hash ir, ir_block_hash ir) of
        (None, None, None) \<Rightarrow>
          if ir_round ir = 0 \<and> ir_timestamp ir = 0 then
            if ir_epoch ir = 0 then Inr Bootstrap else Inl ''bootstrap input-record epoch must be zero''
          else Inl ''invalid v2 origin shape''
      | (None, Some _, Some _) \<Rightarrow>
          if 0 < ir_round ir then Inr FirstCertified else Inl ''invalid v2 origin shape''
      | (Some previous, Some state, None) \<Rightarrow>
          if 0 < ir_round ir \<and> previous = state then Inr Ordinary else Inl ''invalid v2 origin shape''
      | (Some previous, Some state, Some _) \<Rightarrow>
          if 0 < ir_round ir \<and> previous \<noteq> state then Inr Ordinary else Inl ''invalid v2 origin shape''
      | _ \<Rightarrow> Inl ''invalid v2 origin shape'')"

definition check_transitions :: "root_input \<Rightarrow> string + unit" where
  "check_transitions i =
     (case ri_transitions i of
        raw # _ \<Rightarrow>
          rbind (map_err (\<lambda>_. ''invalid epoch transition encoding'') (decode_epoch_transition raw)) (\<lambda>t.
          if et_evm_round t \<noteq> ri_authorized_round i \<or> et_new_root_epoch t \<noteq> ro_root_epoch (ri_origin i) \<or>
             et_frozen_parent t \<noteq> ri_parent_hash i \<or> ri_certified_epoch i \<noteq> et_old_shard_epoch t \<or>
             ri_authorized_epoch i \<noteq> et_new_shard_epoch t \<or>
             ir_epoch (ro_input_record (ri_origin i)) \<noteq> et_old_shard_epoch t \<or>
             ro_shard_conf_hash (ri_origin i) \<noteq> et_new_active_conf_hash t
          then Inl ''epoch transition context mismatch'' else Inr ())
      | [] \<Rightarrow>
          if ri_certified_epoch i \<noteq> ri_authorized_epoch i
          then Inl ''ordinary execution must use one certified and authorized shard epoch'' else Inr ())"

definition origin_class :: "sha256 \<Rightarrow> root_input \<Rightarrow> string + origin_class" where
  "origin_class sha256 i =
     (let ir = ro_input_record (ri_origin i) in
      if ri_version i \<noteq> 2 then Inl ''profile version must be 2''
      else if ri_b1_update_hash i = 0 then Inl ''B1 update hash must be non-zero''
      else if ri_root_records_hash i = 0 then Inl ''root records hash must be non-zero''
      else if ro_input_record_version (ri_origin i) \<noteq> 1 then Inl ''input record version must be 1''
      else if ri_authorized_round i = 0 \<or> tr_round (ri_technical i) \<noteq> ri_authorized_round i
      then Inl ''authorized round must be positive and equal the technical-record round''
      else if ri_certified_epoch i \<noteq> ir_epoch ir
      then Inl ''certified epoch must match the authenticated input-record epoch''
      else if tr_epoch (ri_technical i) \<noteq> ri_authorized_epoch i
      then Inl ''technical-record epoch must match the authorized epoch''
      else if ri_network_id i \<noteq> ro_network_id (ri_origin i) then Inl ''network identity mismatch''
      else if 1 < length (ri_transitions i) then Inl ''only one epoch transition is supported''
      else rbind (check_transitions i) (\<lambda>_.
        if technical_record_hash sha256 (ri_technical i) \<noteq> ro_tr_hash (ri_origin i)
        then Inl ''technical record hash mismatch''
        else origin_shape ir))"

definition root_input_bytes :: "root_input \<Rightarrow> bytes" where
  "root_input_bytes i =
     put_array 13 @ put_uint (ri_version i) @ put_uint (ri_network_id i) @ put_uint (ri_partition_id i) @
     put_bytes (ri_shard_id i) @ put_uint (ri_authorized_round i) @ put_uint (ri_certified_epoch i) @
     put_uint (ri_authorized_epoch i) @ put_word (ri_parent_hash i) @ encode_origin (ri_origin i) @
     encode_technical (ri_technical i) @ put_array (length (ri_transitions i)) @
     concat (map put_bytes (ri_transitions i)) @ put_word (ri_b1_update_hash i) @
     put_word (ri_root_records_hash i)"

definition canonical_cbor :: "sha256 \<Rightarrow> root_input \<Rightarrow> string + bytes" where
  "canonical_cbor sha256 i = rbind (origin_class sha256 i) (\<lambda>_. Inr (root_input_bytes i))"

definition input_commitment :: "sha256 \<Rightarrow> root_input \<Rightarrow> string + b256" where
  "input_commitment sha256 i = rbind (canonical_cbor sha256 i) (\<lambda>bs. Inr (sha256 bs))"

definition origin_identity :: "sha256 \<Rightarrow> root_input \<Rightarrow> string + b256" where
  "origin_identity sha256 i =
     rbind (origin_class sha256 i) (\<lambda>_. Inr (sha256 (encode_origin (ri_origin i))))"

section \<open>Derivations from the root rounds\<close>

definition system_outcome_commitment :: "sha256 \<Rightarrow> u64 \<Rightarrow> b256 \<Rightarrow> b256" where
  "system_outcome_commitment sha256 open_gas_spent commitment =
     sha256 (put_array 1 @ put_array 5 @ put_text (ascii ''system'') @ put_uint open_gas_spent @
       put_uint 1 @ put_text [] @ put_word commitment)"

definition derive_round_domain :: "sha256 \<Rightarrow> bytes \<Rightarrow> u64 \<Rightarrow> u64 \<Rightarrow> b256" where
  "derive_round_domain sha256 domain root_round shard_round =
     sha256 (put_array 3 @ put_text domain @ put_uint root_round @ put_uint shard_round)"

definition derive_prev_randao :: "sha256 \<Rightarrow> u64 \<Rightarrow> u64 \<Rightarrow> b256" where
  "derive_prev_randao sha256 = derive_round_domain sha256 (ascii ''UNICITY_EVM_RANDAO'')"

definition derive_beacon_root :: "sha256 \<Rightarrow> u64 \<Rightarrow> u64 \<Rightarrow> b256" where
  "derive_beacon_root sha256 = derive_round_domain sha256 (ascii ''UNICITY_EVM_BEACON'')"

definition derive_timestamp :: "u64 \<Rightarrow> u64 \<Rightarrow> u64 option" where
  "derive_timestamp reference_time parent_timestamp =
     map_option (\<lambda>t. max reference_time t) (checked_add parent_timestamp 1)"

section \<open>Decoding\<close>

definition MAX_ROOT_TRANSITIONS :: nat where
  "MAX_ROOT_TRANSITIONS = 1"

definition MAX_ROOT_INPUT_BYTES :: nat where
  "MAX_ROOT_INPUT_BYTES = 32 * 1024"

definition MAX_SHARD_ID_BYTES :: nat where
  "MAX_SHARD_ID_BYTES = 32"

definition MAX_LEADER_BYTES :: nat where
  "MAX_LEADER_BYTES = 256"

definition decode_origin :: "root_origin decode" where
  "decode_origin r =
     rbind (expect_array 8 r) (\<lambda>(_, r).
     rbind (read_uint r) (\<lambda>(network_id, r).
     rbind (read_uint r) (\<lambda>(root_round, r).
     rbind (read_uint r) (\<lambda>(root_epoch, r).
     rbind (read_uint r) (\<lambda>(reference_time, r).
     rbind (read_word r) (\<lambda>(tree_root, r).
     rbind (expect_array 6 r) (\<lambda>(_, r).
     rbind (read_uint r) (\<lambda>(round, r).
     rbind (read_uint r) (\<lambda>(epoch, r).
     rbind (read_nullable_word r) (\<lambda>(previous_hash, r).
     rbind (read_nullable_word r) (\<lambda>(state_hash, r).
     rbind (read_uint r) (\<lambda>(timestamp, r).
     rbind (read_nullable_word r) (\<lambda>(block_hash, r).
     rbind (read_word r) (\<lambda>(tr_hash, r).
     rbind (read_word r) (\<lambda>(shard_conf_hash, r).
     Inr (\<lparr>ro_network_id = network_id, ro_root_round = root_round, ro_root_epoch = root_epoch,
       ro_reference_time = reference_time, ro_tree_root = tree_root, ro_input_record_version = 1,
       ro_input_record = \<lparr>ir_round = round, ir_epoch = epoch, ir_previous_hash = previous_hash,
         ir_state_hash = state_hash, ir_timestamp = timestamp, ir_block_hash = block_hash\<rparr>,
       ro_tr_hash = tr_hash, ro_shard_conf_hash = shard_conf_hash\<rparr>, r))))))))))))))))"

definition decode_technical :: "technical_record decode" where
  "decode_technical r =
     rbind (expect_array 5 r) (\<lambda>(_, r).
     rbind (read_uint r) (\<lambda>(round, r).
     rbind (read_uint r) (\<lambda>(epoch, r).
     rbind (read_bounded_text ''leader'' MAX_LEADER_BYTES r) (\<lambda>(leader, r).
     rbind (read_word r) (\<lambda>(stat_hash, r).
     rbind (read_word r) (\<lambda>(fee_hash, r).
     Inr (\<lparr>tr_round = round, tr_epoch = epoch, tr_leader = leader, tr_stat_hash = stat_hash,
       tr_fee_hash = fee_hash\<rparr>, r)))))))"

fun decode_byte_strings :: "nat \<Rightarrow> bytes list decode" where
  "decode_byte_strings 0 r = Inr ([], r)"
| "decode_byte_strings (Suc n) r =
     rbind (read_bounded_bytes ''transition'' MAX_EPOCH_TRANSITION_BYTES r) (\<lambda>(v, r).
     rbind (decode_byte_strings n r) (\<lambda>(vs, r). Inr (v # vs, r)))"

definition decode_byte_string_array :: "bytes list decode" where
  "decode_byte_string_array r =
     rbind (read_array r) (\<lambda>(len, r).
     if MAX_ROOT_TRANSITIONS < len then Inl (TooLarge ''transition count'' len MAX_ROOT_TRANSITIONS)
     else decode_byte_strings len r)"

definition decode_root_input :: "root_input decode" where
  "decode_root_input r =
     rbind (expect_array 13 r) (\<lambda>(_, r).
     rbind (read_uint r) (\<lambda>(version, r).
     rbind (read_uint r) (\<lambda>(network_id, r).
     rbind (read_uint r) (\<lambda>(partition_id, r).
     rbind (read_bounded_bytes ''shard id'' MAX_SHARD_ID_BYTES r) (\<lambda>(shard_id, r).
     rbind (read_uint r) (\<lambda>(authorized_round, r).
     rbind (read_uint r) (\<lambda>(certified_epoch, r).
     rbind (read_uint r) (\<lambda>(authorized_epoch, r).
     rbind (read_word r) (\<lambda>(parent_hash, r).
     rbind (decode_origin r) (\<lambda>(origin, r).
     rbind (decode_technical r) (\<lambda>(technical, r).
     rbind (decode_byte_string_array r) (\<lambda>(transitions, r).
     rbind (read_word r) (\<lambda>(b1_update_hash, r).
     rbind (read_word r) (\<lambda>(root_records_hash, r).
     Inr (\<lparr>ri_version = version, ri_network_id = network_id, ri_partition_id = partition_id,
       ri_shard_id = shard_id, ri_authorized_round = authorized_round,
       ri_certified_epoch = certified_epoch, ri_authorized_epoch = authorized_epoch,
       ri_parent_hash = parent_hash, ri_origin = origin, ri_technical = technical,
       ri_transitions = transitions, ri_b1_update_hash = b1_update_hash,
       ri_root_records_hash = root_records_hash\<rparr>, r)))))))))))))))"

definition from_canonical_cbor :: "sha256 \<Rightarrow> bytes \<Rightarrow> canonical_cbor_error + root_input" where
  "from_canonical_cbor sha256 input =
     (if MAX_ROOT_INPUT_BYTES < length input
      then Inl (TooLarge ''root input'' (length input) MAX_ROOT_INPUT_BYTES)
      else rbind (decode_root_input (decoder_new input)) (\<lambda>(value, r).
        rbind (dec_finish r) (\<lambda>_.
        case origin_class sha256 value of
          Inr _ \<Rightarrow> Inr value
        | Inl reason \<Rightarrow> Inl (InvalidRootInput reason))))"

definition check_update :: "sha256 \<Rightarrow> root_input \<Rightarrow> bytes \<Rightarrow> canonical_cbor_error + unit" where
  "check_update sha256 i update =
     (if sha256 update \<noteq> ri_b1_update_hash i
      then Inl (InvalidRootInput ''B1 update does not hash to the committed value'') else Inr ())"

definition check_records :: "sha256 \<Rightarrow> root_input \<Rightarrow> bytes \<Rightarrow> canonical_cbor_error + unit" where
  "check_records sha256 i records =
     (if sha256 records \<noteq> ri_root_records_hash i
      then Inl (InvalidRootInput ''root-record import does not hash to the committed value'') else Inr ())"

record seal_build_input =
  sb_root_input :: bytes
  sb_transitions :: "bytes list"
  sb_b1_update :: bytes
  sb_records :: bytes
  sb_pair_binding :: bytes

definition build_decode_root_input :: "sha256 \<Rightarrow> seal_build_input \<Rightarrow> canonical_cbor_error + root_input" where
  "build_decode_root_input sha256 b =
     (if MAX_ROOT_TRANSITIONS < length (sb_transitions b)
      then Inl (TooLarge ''envelope transition count'' (length (sb_transitions b)) MAX_ROOT_TRANSITIONS)
      else rbind (from_canonical_cbor sha256 (sb_root_input b)) (\<lambda>root.
        if length (ri_transitions root) \<noteq> length (sb_transitions b) \<or>
           (\<exists>(x, y) \<in> set (zip (ri_transitions root) (sb_transitions b)). x \<noteq> y)
        then Inl (InvalidRootInput ''build transition envelope does not match root input'')
        else rbind (check_update sha256 root (sb_b1_update b)) (\<lambda>_.
          rbind (check_records sha256 root (sb_records b)) (\<lambda>_. Inr root))))"

definition companion_decode_root_input :: "sha256 \<Rightarrow> seal_companion \<Rightarrow> canonical_cbor_error + root_input" where
  "companion_decode_root_input sha256 c =
     rbind (from_canonical_cbor sha256 (sc_root_input c)) (\<lambda>root.
     rbind (check_update sha256 root (sc_b1_update c)) (\<lambda>_.
     rbind (check_records sha256 root (sc_records c)) (\<lambda>_. Inr root)))"

section \<open>The decoder is exact\<close>

lemma expect_array_iff:
  "n < 2 ^ 64 \<Longrightarrow> short r \<Longrightarrow> expect_array n r = Inr (u, r') \<longleftrightarrow> True \<and> reads r (put_array n) r'"
  by (auto simp: expect_array_def result_iff array_item.get_iff)

lemma expect_first:
  "short r \<Longrightarrow> n < 2 ^ 64 \<Longrightarrow> rbind (expect_array n r) f = Inr y \<longleftrightarrow>
     (\<exists>r1. reads r (put_array n) r1 \<and> f ((), r1) = Inr y)"
  using read_first [of "expect_array n" "\<lambda>_. True" "\<lambda>_. put_array n"] by (simp add: expect_array_iff)

lemma expect_chain:
  "short r0 \<Longrightarrow> n < 2 ^ 64 \<Longrightarrow> (\<exists>r. reads r0 acc r \<and> rbind (expect_array n r) f = Inr y) \<longleftrightarrow>
     (\<exists>r. reads r0 (acc @ put_array n) r \<and> f ((), r) = Inr y)"
  using read_next [of "expect_array n" "\<lambda>_. True" "\<lambda>_. put_array n"] by (simp add: expect_array_iff)

interpretation leader: item_codec put_text "read_bounded_text ''leader'' MAX_LEADER_BYTES"
  "\<lambda>bs. length bs \<le> MAX_LEADER_BYTES \<and> utf8_valid bs"
  by unfold_locales (simp add: read_bounded_text_iff MAX_LEADER_BYTES_def)

lemmas chains = expect_first expect_chain leader.chain uint_item.chain word_item.chain nullable_item.chain read_ends

definition technical_ok :: "technical_record \<Rightarrow> bool" where
  "technical_ok t \<longleftrightarrow> length (tr_leader t) \<le> MAX_LEADER_BYTES \<and> utf8_valid (tr_leader t)"

lemma decode_technical_iff:
  assumes "short r"
  shows "decode_technical r = Inr (t, r') \<longleftrightarrow> technical_ok t \<and> reads r (encode_technical t) r'"
  using assms
  by (cases t) (auto simp: decode_technical_def encode_technical_def technical_ok_def chains)

lemma decode_origin_iff:
  assumes "short r"
  shows "decode_origin r = Inr (t, r') \<longleftrightarrow> ro_input_record_version t = 1 \<and> reads r (encode_origin t) r'"
  using assms
  by (cases t, cases "ro_input_record t")
    (auto simp: decode_origin_def encode_origin_def Let_def chains)

interpretation origin_item: item_codec encode_origin decode_origin "\<lambda>t. ro_input_record_version t = 1"
  by unfold_locales (simp add: decode_origin_iff)

interpretation technical_item: item_codec encode_technical decode_technical technical_ok
  by unfold_locales (simp add: decode_technical_iff)

interpretation transition_item: item_codec put_bytes
  "read_bounded_bytes ''transition'' MAX_EPOCH_TRANSITION_BYTES" "\<lambda>bs. length bs \<le> MAX_EPOCH_TRANSITION_BYTES"
  by unfold_locales (simp add: read_bounded_bytes_iff MAX_EPOCH_TRANSITION_BYTES_def)

interpretation shard_item: item_codec put_bytes
  "read_bounded_bytes ''shard id'' MAX_SHARD_ID_BYTES" "\<lambda>bs. length bs \<le> MAX_SHARD_ID_BYTES"
  by unfold_locales (simp add: read_bounded_bytes_iff MAX_SHARD_ID_BYTES_def)

lemma decode_byte_strings_iff:
  "short r \<Longrightarrow> decode_byte_strings n r = Inr (vs, r') \<longleftrightarrow>
     (length vs = n \<and> (\<forall>v \<in> set vs. length v \<le> MAX_EPOCH_TRANSITION_BYTES)) \<and>
     reads r (concat (map put_bytes vs)) r'"
proof (induction n arbitrary: r vs)
  case (Suc n)
  have rec: "rbind (decode_byte_strings n r1) (\<lambda>(vs, r). Inr (v # vs, r)) = Inr (ws, r') \<longleftrightarrow>
      (\<exists>us. ws = v # us \<and> decode_byte_strings n r1 = Inr (us, r'))" for v ws r1
    by (auto simp: rbind_Inr_iff)
  have "decode_byte_strings (Suc n) r = Inr (vs, r') \<longleftrightarrow>
      (\<exists>v r1. length v \<le> MAX_EPOCH_TRANSITION_BYTES \<and> reads r (put_bytes v) r1 \<and>
        (\<exists>us. vs = v # us \<and> decode_byte_strings n r1 = Inr (us, r')))"
    using Suc.prems by (simp add: transition_item.first rec)
  also have "\<dots> \<longleftrightarrow> (\<exists>v us. vs = v # us \<and> length v \<le> MAX_EPOCH_TRANSITION_BYTES \<and>
      length us = n \<and> (\<forall>v \<in> set us. length v \<le> MAX_EPOCH_TRANSITION_BYTES) \<and>
      reads r (put_bytes v @ concat (map put_bytes us)) r')"
    using Suc.IH reads_short [OF _ Suc.prems] unfolding reads_append_iff by blast
  also have "\<dots> \<longleftrightarrow> (length vs = Suc n \<and> (\<forall>v \<in> set vs. length v \<le> MAX_EPOCH_TRANSITION_BYTES)) \<and>
     reads r (concat (map put_bytes vs)) r'"
    by (cases vs) auto
  finally show ?case .
qed auto

definition transitions_ok :: "bytes list \<Rightarrow> bool" where
  "transitions_ok vs \<longleftrightarrow>
     length vs \<le> MAX_ROOT_TRANSITIONS \<and> (\<forall>v \<in> set vs. length v \<le> MAX_EPOCH_TRANSITION_BYTES)"

interpretation transitions_item: item_codec "\<lambda>vs. put_array (length vs) @ concat (map put_bytes vs)"
  decode_byte_string_array transitions_ok
proof (unfold_locales, goal_cases)
  case (1 r vs r')
  have "(\<exists>r1. reads r acc r1 \<and> decode_byte_strings n r1 = Inr (vs, r')) \<longleftrightarrow>
      (length vs = n \<and> (\<forall>v \<in> set vs. length v \<le> MAX_EPOCH_TRANSITION_BYTES)) \<and>
      reads r (acc @ concat (map put_bytes vs)) r'" for n acc
    using decode_byte_strings_iff 1 by (rule read_tail)
  with 1 show ?case
    by (auto simp: decode_byte_string_array_def array_item.first read_guard transitions_ok_def
        MAX_ROOT_TRANSITIONS_def)
qed

definition root_input_ok :: "root_input \<Rightarrow> bool" where
  "root_input_ok i \<longleftrightarrow>
     length (ri_shard_id i) \<le> MAX_SHARD_ID_BYTES \<and> ro_input_record_version (ri_origin i) = 1 \<and>
     technical_ok (ri_technical i) \<and> transitions_ok (ri_transitions i)"

lemma decode_root_input_iff:
  assumes "short r"
  shows "decode_root_input r = Inr (i, r') \<longleftrightarrow> root_input_ok i \<and> reads r (root_input_bytes i) r'"
  using assms
  by (cases i) (auto simp: decode_root_input_def root_input_bytes_def root_input_ok_def chains
    shard_item.chain origin_item.chain technical_item.chain transitions_item.chain)

interpretation root_item: item_codec root_input_bytes decode_root_input root_input_ok
  by unfold_locales (simp add: decode_root_input_iff)

lemma length_major: "length (major k v) \<le> 9"
  by (simp add: major_def)

lemma length_put_uint: "length (put_uint v) \<le> 9"
  by (simp add: put_uint_def length_major)

lemma length_put_array: "length (put_array n) \<le> 9"
  by (simp add: put_array_def length_major)

lemma length_put_bytes: "length (put_bytes bs) \<le> 9 + length bs"
  by (simp add: put_bytes_def length_major)

lemma length_put_text: "length (put_text bs) \<le> 9 + length bs"
  by (simp add: put_text_def length_major)

lemma length_put_word: "length (put_word w) = 34"
  by (simp add: put_word_head)

lemma length_nullable_word: "length (nullable_word w) \<le> 34"
  by (simp add: nullable_word_def length_put_word split: option.splits)

lemma length_encode_origin: "length (encode_origin orig) \<le> 300"
proof -
  let ?ir = "ro_input_record orig"
  show ?thesis
    using length_put_uint [of "ro_network_id orig"] length_put_uint [of "ro_root_round orig"]
      length_put_uint [of "ro_root_epoch orig"] length_put_uint [of "ro_reference_time orig"]
      length_put_uint [of "ir_round ?ir"] length_put_uint [of "ir_epoch ?ir"]
      length_put_uint [of "ir_timestamp ?ir"] length_put_array [of 8] length_put_array [of 6]
      length_nullable_word [of "ir_previous_hash ?ir"] length_nullable_word [of "ir_state_hash ?ir"]
      length_nullable_word [of "ir_block_hash ?ir"]
    by (simp add: encode_origin_def Let_def length_put_word)
qed

lemma length_encode_technical: "technical_ok t \<Longrightarrow> length (encode_technical t) \<le> 368"
  using length_put_uint [of "tr_round t"] length_put_uint [of "tr_epoch t"]
    length_put_text [of "tr_leader t"] length_put_array [of 5]
  by (simp add: encode_technical_def technical_ok_def MAX_LEADER_BYTES_def length_put_word)

lemma length_transitions:
  assumes "transitions_ok ts"
  shows "length (concat (map put_bytes ts)) \<le> 16393"
proof (cases ts)
  case (Cons t us)
  with assms have "us = []" "length t \<le> 16384"
    by (auto simp: transitions_ok_def MAX_ROOT_TRANSITIONS_def MAX_EPOCH_TRANSITION_BYTES_def)
  then show ?thesis using length_put_bytes [of t] by (simp add: Cons)
qed simp

lemma length_root_input_bytes:
  assumes "root_input_ok i"
  shows "length (root_input_bytes i) \<le> MAX_ROOT_INPUT_BYTES"
proof -
  have "length (ri_shard_id i) \<le> 32" "technical_ok (ri_technical i)" "transitions_ok (ri_transitions i)"
    using assms by (simp_all add: root_input_ok_def MAX_SHARD_ID_BYTES_def)
  then show ?thesis
    using length_put_uint [of "ri_version i"] length_put_uint [of "ri_network_id i"]
      length_put_uint [of "ri_partition_id i"] length_put_uint [of "ri_authorized_round i"]
      length_put_uint [of "ri_certified_epoch i"] length_put_uint [of "ri_authorized_epoch i"]
      length_put_bytes [of "ri_shard_id i"] length_encode_origin [of "ri_origin i"]
      length_encode_technical [of "ri_technical i"] length_transitions [of "ri_transitions i"]
      length_put_array [of 13] length_put_array [of "length (ri_transitions i)"]
    by (simp add: root_input_bytes_def MAX_ROOT_INPUT_BYTES_def length_put_word)
qed

lemma slice_root_input_bytes: "root_input_ok i \<Longrightarrow> slice (root_input_bytes i)"
  using length_root_input_bytes [of i] by (simp add: slice_def MAX_ROOT_INPUT_BYTES_def)

text \<open>
  Every valid root input, within the decoder's bounds or not, is determined by its encoding: each field is self-delimiting,
  the record version is pinned by the validity check and so is the number of transitions.
\<close>

lemma string_next:
  assumes "major k (of_nat (length a)) @ a @ r = major k (of_nat (length b)) @ b @ r'" "k < 8"
    "slice (major k (of_nat (length a)) @ a @ r)"
  shows "a = b \<and> r = r'"
proof -
  have *: "(of_nat (length a) :: u64) = of_nat (length b) \<and> a @ r = b @ r'"
    using head_item.prefix_free [of "(k, of_nat (length a))" "(k, of_nat (length b))" "a @ r" "b @ r'"] assms by simp
  have "slice (a @ r)" using assms(3) by (simp add: slice_def)
  then have "slice (b @ r')" using * by simp
  with \<open>slice (a @ r)\<close> have "length a < 2 ^ 64" "length b < 2 ^ 64" by (simp_all add: slice_def)
  then have "unat (of_nat (length a) :: u64) = length a" "unat (of_nat (length b) :: u64) = length b"
    by (simp_all add: unat_of_nat)
  then have "length a = length b" using conjunct1 [OF *] by metis
  then show ?thesis using conjunct2 [OF *] by simp
qed

lemma uint_next: "slice (put_uint v @ r) \<Longrightarrow> put_uint v @ r = put_uint v' @ r' \<longleftrightarrow> v = v' \<and> r = r'"
  using uint_item.prefix_free [where a = v and b = v' and xs = r and ys = r'] by blast

lemma word_next: "slice (put_word v @ r) \<Longrightarrow> put_word v @ r = put_word v' @ r' \<longleftrightarrow> v = v' \<and> r = r'"
  using word_item.prefix_free [where a = v and b = v' and xs = r and ys = r'] by blast

lemma bytes_next: "slice (put_bytes v @ r) \<Longrightarrow> put_bytes v @ r = put_bytes v' @ r' \<longleftrightarrow> v = v' \<and> r = r'"
  using string_next [of 2 v r v' r'] by (auto simp: put_bytes_def)

lemma text_next: "slice (put_text v @ r) \<Longrightarrow> put_text v @ r = put_text v' @ r' \<longleftrightarrow> v = v' \<and> r = r'"
  using string_next [of 3 v r v' r'] by (auto simp: put_text_def)

lemma array_next:
  "slice (put_array n @ r) \<Longrightarrow> n < 2 ^ 64 \<Longrightarrow> n' < 2 ^ 64 \<Longrightarrow> put_array n @ r = put_array n' @ r' \<longleftrightarrow> n = n' \<and> r = r'"
  using array_item.prefix_free [where a = n and b = n' and xs = r and ys = r'] by blast

lemma technical_next:
  assumes "slice (encode_technical a @ r)"
  shows "encode_technical a @ r = encode_technical b @ r' \<longleftrightarrow> a = b \<and> r = r'"
proof -
  have s: "slice (put_uint (tr_round a) @ put_uint (tr_epoch a) @ put_text (tr_leader a) @ put_word (tr_stat_hash a) @ put_word (tr_fee_hash a) @ r)"
    using slice_suffix assms unfolding encode_technical_def append_assoc by blast
  note s1 = slice_suffix [OF s] note s2 = slice_suffix [OF s1] note s3 = slice_suffix [OF s2] note s4 = slice_suffix [OF s3]
  show ?thesis unfolding encode_technical_def append_assoc same_append_eq uint_next [OF s] uint_next [OF s1] text_next [OF s2] word_next [OF s3] word_next [OF s4]
    by (auto simp: technical_record.equality)
qed

definition root_tail :: "root_input \<Rightarrow> bytes" where
  "root_tail i = put_array (length (ri_transitions i)) @
     concat (map put_bytes (ri_transitions i)) @ put_word (ri_b1_update_hash i) @ put_word (ri_root_records_hash i)"

lemma root_tail_inj:
  assumes "slice (root_tail i)" "length (ri_transitions i) \<le> 1" "length (ri_transitions j) \<le> 1" "root_tail i = root_tail j"
  shows "ri_transitions i = ri_transitions j \<and> ri_b1_update_hash i = ri_b1_update_hash j \<and> ri_root_records_hash i = ri_root_records_hash j"
proof -
  have n: "length (ri_transitions i) < 2 ^ 64" "length (ri_transitions j) < 2 ^ 64" using assms(2,3) by simp_all
  note s = assms(1) [unfolded root_tail_def]
  have e: "length (ri_transitions i) = length (ri_transitions j)" 
      "concat (map put_bytes (ri_transitions i)) @ put_word (ri_b1_update_hash i) @ put_word (ri_root_records_hash i) =
       concat (map put_bytes (ri_transitions j)) @ put_word (ri_b1_update_hash j) @ put_word (ri_root_records_hash j)"
    using assms(4) unfolding root_tail_def array_next [OF s n] by simp_all
  note s1 = slice_suffix [OF s] note s2 = slice_suffix [OF s1]
  have words: "put_word a @ put_word b = put_word a' @ put_word b' \<Longrightarrow> a = a' \<and> b = b'" for a b a' b'
    using word_next [of a "put_word b" a' "put_word b'"] word_next [of b "[]" b' "[]"] by (simp add: slice_def length_put_word)
  show ?thesis
  proof (cases "ri_transitions i")
    case Nil
    then show ?thesis using e words by simp
  next
    case (Cons t ts)
    then obtain u where ts: "ri_transitions i = [t]" "ri_transitions j = [u]"
      using e(1) assms(2,3) by (cases "ri_transitions j") auto
    have t: "slice (put_bytes t @ put_word (ri_b1_update_hash i) @ put_word (ri_root_records_hash i))"
      "put_bytes t @ put_word (ri_b1_update_hash i) @ put_word (ri_root_records_hash i) =
       put_bytes u @ put_word (ri_b1_update_hash j) @ put_word (ri_root_records_hash j)"
      using s1 e(2) unfolding ts by simp_all
    then have "t = u \<and> put_word (ri_b1_update_hash i) @ put_word (ri_root_records_hash i) =
       put_word (ri_b1_update_hash j) @ put_word (ri_root_records_hash j)" unfolding bytes_next [OF t(1)] by blast
    then show ?thesis using words [of "ri_b1_update_hash i" "ri_root_records_hash i"] ts by auto
  qed
qed

lemma root_input_bytes_inj:
  assumes "is_ok (origin_class sha256 i)" "is_ok (origin_class sha256 j)" "slice (root_input_bytes i)"
    and "root_input_bytes i = root_input_bytes j"
  shows "i = j"
proof -
  have valid: "ro_input_record_version (ri_origin i) = 1 \<and> length (ri_transitions i) \<le> 1" if "is_ok (origin_class sha256 i)" for i
    using that by (auto simp: is_ok_def origin_class_def Let_def split: if_splits)
  note ok = valid [OF assms(1)] valid [OF assms(2)]
  let ?t5 = "\<lambda>i. encode_origin (ri_origin i) @ encode_technical (ri_technical i) @ root_tail i"
  let ?t4 = "\<lambda>i. put_uint (ri_authorized_round i) @ put_uint (ri_certified_epoch i) @ put_uint (ri_authorized_epoch i) @
    put_word (ri_parent_hash i) @ ?t5 i"
  have bytes: "root_input_bytes i = put_array 13 @ put_uint (ri_version i) @ put_uint (ri_network_id i) @ put_uint (ri_partition_id i) @
     put_bytes (ri_shard_id i) @ ?t4 i" for i
    by (simp add: root_input_bytes_def root_tail_def)
  note s0 = slice_suffix [OF assms(3) [unfolded bytes]] note s1 = slice_suffix [OF s0] note s2 = slice_suffix [OF s1]
  note s3 = slice_suffix [OF s2] note s4 = slice_suffix [OF s3] note s5 = slice_suffix [OF s4] note s6 = slice_suffix [OF s5]
  note s7 = slice_suffix [OF s6] note s8 = slice_suffix [OF s7] note s9 = slice_suffix [OF s8] note s10 = slice_suffix [OF s9]
  have e: "ri_version i = ri_version j" "ri_network_id i = ri_network_id j" "ri_partition_id i = ri_partition_id j"
    "ri_shard_id i = ri_shard_id j" "ri_authorized_round i = ri_authorized_round j" "ri_certified_epoch i = ri_certified_epoch j"
    "ri_authorized_epoch i = ri_authorized_epoch j" "ri_parent_hash i = ri_parent_hash j" "?t5 i = ?t5 j"
    using assms(4) unfolding bytes same_append_eq uint_next [OF s0] uint_next [OF s1] uint_next [OF s2] bytes_next [OF s3]
      uint_next [OF s4] uint_next [OF s5] uint_next [OF s6] word_next [OF s7] by simp_all
  have "ri_origin i = ri_origin j \<and> encode_technical (ri_technical i) @ root_tail i = encode_technical (ri_technical j) @ root_tail j"
    by (rule origin_item.prefix_free [OF _ _ e(9) s8]) (use ok in simp_all)
  then have "ri_origin i = ri_origin j" "ri_technical i = ri_technical j" "root_tail i = root_tail j"
    unfolding technical_next [OF s9] by simp_all
  then show ?thesis using e root_tail_inj [OF s10 conjunct2 [OF ok(1)] conjunct2 [OF ok(2)]] by (auto intro: root_input.equality)
qed

lemma canonical_cbor_iff:
  "canonical_cbor sha256 i = Inr bs \<longleftrightarrow> is_ok (origin_class sha256 i) \<and> bs = root_input_bytes i"
  by (auto simp: canonical_cbor_def rbind_Inr_iff elim: is_okE)

lemma commitment_collision:
  assumes "input_commitment sha256 i = Inr c" "input_commitment sha256 j = Inr c" "slice (root_input_bytes i)" "i \<noteq> j"
  shows "root_input_bytes i \<noteq> root_input_bytes j \<and> sha256 (root_input_bytes i) = sha256 (root_input_bytes j)"
proof -
  have c: "is_ok (origin_class sha256 i) \<and> sha256 (root_input_bytes i) = c" if "input_commitment sha256 i = Inr c" for i
    using that unfolding input_commitment_def rbind_Inr_iff canonical_cbor_iff by blast
  show ?thesis
    using c [OF assms(1)] c [OF assms(2)] assms(3,4) root_input_bytes_inj [of sha256 i j] by metis
qed

lemma from_canonical_cbor_iff:
  "from_canonical_cbor sha256 bs = Inr i \<longleftrightarrow>
     root_input_ok i \<and> is_ok (origin_class sha256 i) \<and> bs = root_input_bytes i"
proof -
  have cls: "(case c of Inr _ \<Rightarrow> Inr v | Inl reason \<Rightarrow> Inl (InvalidRootInput reason)) = Inr i \<longleftrightarrow>
      v = i \<and> is_ok c" for c :: "string + origin_class" and v
    by (cases c) auto
  have "from_canonical_cbor sha256 bs = Inr i \<longleftrightarrow> length bs \<le> MAX_ROOT_INPUT_BYTES \<and>
      (\<exists>r. decode_root_input (decoder_new bs) = Inr (i, r) \<and> dec_finish r = Inr ()) \<and>
      is_ok (origin_class sha256 i)"
    by (auto simp: from_canonical_cbor_def result_iff cls not_less)
  also have "\<dots> \<longleftrightarrow> length bs \<le> MAX_ROOT_INPUT_BYTES \<and> root_input_ok i \<and> bs = root_input_bytes i \<and>
      is_ok (origin_class sha256 i)"
  proof (cases "length bs \<le> MAX_ROOT_INPUT_BYTES")
    case True
    then have "slice bs" by (simp add: slice_def MAX_ROOT_INPUT_BYTES_def)
    then show ?thesis
      using decoder_whole [of bs "root_input_bytes i"] by (auto simp: decode_root_input_iff)
  qed simp
  also have "\<dots> \<longleftrightarrow> root_input_ok i \<and> is_ok (origin_class sha256 i) \<and> bs = root_input_bytes i"
    using length_root_input_bytes by blast
  finally show ?thesis .
qed

section \<open>Epoch transitions are exact\<close>

definition ack_body :: "epoch_transition \<Rightarrow> bytes" where
  "ack_body t =
     put_array 8 @ put_text (ascii ''UNICITY_HANDOFF_ACK'') @ put_uint 2 @ put_word (et_frozen_id t) @
     put_word (et_commit_id t) @ put_word (et_frozen_parent t) @ put_word (et_frozen_parent t) @
     put_word (et_successor_tr t) @ put_uint (et_evm_round t)"

definition transition_body :: "epoch_transition \<Rightarrow> bytes" where
  "transition_body t =
     put_array 13 @ put_text (ascii ''UNICITY_HANDOFF_EVM_TRANSITION'') @ put_uint 3 @
     put_uint (et_old_root_epoch t) @ put_uint (et_new_root_epoch t) @ put_uint (et_old_shard_epoch t) @
     put_uint (et_new_shard_epoch t) @ put_word (et_old_active_conf_hash t) @
     put_word (et_new_active_conf_hash t) @ put_uint (et_supersession_span t) @
     put_word (et_supersession_commitment t) @ put_word (et_body_id t) @ put_word (et_genesis_id t) @
     put_bytes (ack_body t)"

text \<open>
  A transition spans one root epoch, or exactly two when it folds a superseded handoff; it either keeps
  the shard assignment or moves it by as many epochs, and only a fold carries a span and commitment.
\<close>

definition handoff_ok :: "epoch_transition \<Rightarrow> bool" where
  "handoff_ok t \<longleftrightarrow>
     (\<exists>d \<in> {1, 2}. unat (et_new_root_epoch t) = unat (et_old_root_epoch t) + d \<and>
        (if d = 1 \<and> et_new_shard_epoch t = et_old_shard_epoch t then
           et_new_active_conf_hash t = et_old_active_conf_hash t
         else unat (et_new_shard_epoch t) = unat (et_old_shard_epoch t) + d \<and>
           et_new_active_conf_hash t \<noteq> et_old_active_conf_hash t) \<and>
        (if d = 1 then et_supersession_span t = 0 \<and> et_supersession_commitment t = 0
         else et_supersession_span t = 2 \<and> et_supersession_commitment t \<noteq> 0)) \<and>
     et_old_active_conf_hash t \<noteq> 0 \<and> et_new_active_conf_hash t \<noteq> 0 \<and> et_body_id t \<noteq> 0 \<and>
     et_genesis_id t \<noteq> 0 \<and> et_frozen_id t \<noteq> 0 \<and> et_commit_id t \<noteq> 0 \<and> et_frozen_parent t \<noteq> 0 \<and>
     et_successor_tr t \<noteq> 0 \<and> et_evm_round t \<noteq> 0"

lemma length_ack_body: "length (ack_body t) < 2 ^ 14 - 400"
  using length_put_array [of 8] length_put_text [of "ascii ''UNICITY_HANDOFF_ACK''"] length_put_uint [of 2]
    length_put_uint [of "et_evm_round t"]
  by (simp add: ack_body_def length_put_word)

lemma length_transition_body: "length (transition_body t) \<le> MAX_EPOCH_TRANSITION_BYTES"
  using length_put_array [of 13] length_put_text [of "ascii ''UNICITY_HANDOFF_EVM_TRANSITION''"]
    length_put_uint [of 3] length_put_uint [of "et_old_root_epoch t"] length_put_uint [of "et_new_root_epoch t"]
    length_put_uint [of "et_old_shard_epoch t"] length_put_uint [of "et_new_shard_epoch t"]
    length_put_uint [of "et_supersession_span t"] length_put_bytes [of "ack_body t"] length_ack_body [of t]
  by (simp add: transition_body_def MAX_EPOCH_TRANSITION_BYTES_def length_put_word)

lemma expect_domain_iff:
  assumes "short r" "utf8_valid domain" "length domain < 2 ^ 64"
  shows "expect_domain domain version reason r = Inr (u, r') \<longleftrightarrow>
    True \<and> reads r (put_text domain @ put_uint version) r'"
  using assms by (auto simp: expect_domain_def text_item.first uint_item.chain read_ends)

lemma expect_domain_next:
  assumes "short r0" "utf8_valid domain" "length domain < 2 ^ 64"
  shows "(\<exists>r. reads r0 acc r \<and> rbind (expect_domain domain version reason r) f = Inr y) \<longleftrightarrow>
    (\<exists>r. reads r0 (acc @ put_text domain @ put_uint version) r \<and> f ((), r) = Inr y)"
  using read_next [of "expect_domain domain version reason" "\<lambda>_. True"
      "\<lambda>_. put_text domain @ put_uint version", OF expect_domain_iff] assms
  by simp

lemma read_finish:
  "slice bs \<Longrightarrow> (\<exists>r. reads (decoder_new bs) acc r \<and> rbind (dec_finish r) (\<lambda>_. m) = Inr y) \<longleftrightarrow>
     acc = bs \<and> m = Inr y"
  using decoder_whole [of bs acc] by (auto simp: rbind_Inr_iff)

lemma read_finish_err:
  "slice bs \<Longrightarrow> (\<exists>r. reads (decoder_new bs) acc r \<and> rbind (map_err g (dec_finish r)) (\<lambda>_. m) = Inr y) \<longleftrightarrow>
     acc = bs \<and> m = Inr y"
  using decoder_whole [of bs acc] by (auto simp: rbind_Inr_iff map_err_Inr_iff)

lemma utf8_domains:
  "utf8_valid (ascii ''UNICITY_HANDOFF_ACK'')" "utf8_valid (ascii ''UNICITY_HANDOFF_EVM_TRANSITION'')"
  by (simp_all add: ascii_def)

lemma decode_ack_iff:
  assumes "slice bs"
  shows "decode_ack bs = Inr (frozen_id, commit_id, frozen_parent, successor_parent, successor_tr, evm_round) \<longleftrightarrow>
    bs = put_array 8 @ put_text (ascii ''UNICITY_HANDOFF_ACK'') @ put_uint 2 @ put_word frozen_id @
     put_word commit_id @ put_word frozen_parent @ put_word successor_parent @
     put_word successor_tr @ put_uint evm_round"
  using assms
  by (auto simp: decode_ack_def chains expect_domain_next utf8_domains read_finish)

definition span_rule :: "u64 \<Rightarrow> u64 \<Rightarrow> u64 \<Rightarrow> u64 \<Rightarrow> b256 \<Rightarrow> b256 \<Rightarrow> u64 \<Rightarrow> b256 \<Rightarrow> bool" where
  "span_rule old_root new_root old_shard new_shard old_conf new_conf span commitment \<longleftrightarrow>
     (\<exists>d \<in> {1, 2}. unat new_root = unat old_root + d \<and>
        (if d = 1 \<and> new_shard = old_shard then new_conf = old_conf
         else unat new_shard = unat old_shard + d \<and> new_conf \<noteq> old_conf) \<and>
        (if d = 1 then span = 0 \<and> commitment = 0 else span = 2 \<and> commitment \<noteq> 0))"

lemma span_rule_iff:
  "\<not> (case checked_sub new_root old_root of Some delta \<Rightarrow> MAX_SUPERSESSION_SPAN < delta | None \<Rightarrow> False) \<and>
   span_ok (checked_sub new_root old_root) (checked_sub new_shard old_shard)
     (new_shard \<noteq> old_shard \<or> new_conf \<noteq> old_conf) old_conf new_conf span commitment \<longleftrightarrow>
   span_rule old_root new_root old_shard new_shard old_conf new_conf span commitment"
proof (cases "checked_sub new_root old_root")
  case None
  then have "unat new_root < unat old_root" by (auto simp: checked_sub_def word_le_nat_alt split: if_splits)
  then show ?thesis by (simp add: None span_ok_def span_rule_def)
next
  case (Some delta)
  then have root: "unat new_root = unat old_root + unat delta" by (simp add: checked_sub_Some_iff)
  have same: "checked_sub new_shard old_shard = Some 0 \<longleftrightarrow> new_shard = old_shard"
    by (simp add: checked_sub_Some_iff word_unat_eq_iff)
  have shard: "checked_sub new_shard old_shard = Some k \<longleftrightarrow> unat new_shard = unat old_shard + unat k" for k
    by (simp add: checked_sub_Some_iff)
  consider "unat delta = 0" | "delta = 1" | "delta = 2" | "2 < unat delta"
    unfolding word_unat_eq_iff by simp linarith
  then show ?thesis
    by cases (auto simp: Some span_ok_def span_rule_def MAX_SUPERSESSION_SPAN_def root same shard
        word_less_nat_alt word_unat_eq_iff)
qed

lemma check_epoch_transition_iff:
  "check_epoch_transition c parent = Inr t \<longleftrightarrow> t = c \<and> handoff_ok c \<and> parent = et_frozen_parent c"
proof -
  let ?span = "span_rule (et_old_root_epoch c) (et_new_root_epoch c) (et_old_shard_epoch c)
    (et_new_shard_epoch c) (et_old_active_conf_hash c) (et_new_active_conf_hash c)
    (et_supersession_span c) (et_supersession_commitment c)"
  have "handoff_ok c \<longleftrightarrow> ?span \<and> et_old_active_conf_hash c \<noteq> 0 \<and> et_new_active_conf_hash c \<noteq> 0 \<and>
      0 \<notin> set [et_body_id c, et_genesis_id c, et_frozen_id c, et_commit_id c, et_frozen_parent c,
        et_successor_tr c] \<and> et_evm_round c \<noteq> 0"
    by (auto simp: handoff_ok_def span_rule_def)
  then show ?thesis
    unfolding check_epoch_transition_def Let_def if_Inl_Inr_iff
    by (auto simp flip: span_rule_iff)
qed

lemma decode_epoch_transition_iff:
  "decode_epoch_transition bs = Inr t \<longleftrightarrow> handoff_ok t \<and> bs = transition_body t"
proof (cases "length bs \<le> MAX_EPOCH_TRANSITION_BYTES")
  case False
  then show ?thesis using length_transition_body [of t] by (auto simp: decode_epoch_transition_def)
next
  case True
  then have "slice bs" by (simp add: slice_def MAX_EPOCH_TRANSITION_BYTES_def)
  moreover have "slice (ack_body t)" using length_ack_body [of t] by (simp add: slice_def)
  ultimately show ?thesis
    using True
    by (cases t) (auto simp: decode_epoch_transition_def chains expect_domain_next utf8_domains
        bytes_item.chain read_finish rbind_Inr_iff [of "decode_ack a" for a] decode_ack_iff check_epoch_transition_iff
        transition_body_def ack_body_def cong: conj_cong)
qed

section \<open>Properties\<close>

text \<open>
  Claim C11. The root-input decoder is the exact inverse of the canonical encoder: it accepts a byte
  string if and only if that string is the encoding of a valid root input whose fields respect the wire
  bounds, and it returns that input. Every other encoding of the same value is refused, and the total
  size cap never refuses an input whose fields are within bounds.
\<close>

theorem from_canonical_cbor_exact:
  "from_canonical_cbor sha256 bs = Inr i \<longleftrightarrow> canonical_cbor sha256 i = Inr bs \<and> root_input_ok i"
  by (auto simp: from_canonical_cbor_iff canonical_cbor_iff)

text \<open>
  Claim C12. The input commitment binds every field: two root inputs that carry the same commitment are equal, unless their
  distinct encodings are a SHA-256 collision. The inputs need not be within the decoder's bounds; only that the
  encoding fits in memory is assumed.
\<close>

theorem input_commitment_binds:
  assumes "input_commitment sha256 i = Inr c" "input_commitment sha256 j = Inr c" "slice (root_input_bytes i)"
  shows "i = j \<or> (\<exists>bs cs. bs \<noteq> cs \<and> sha256 bs = sha256 cs \<and>
    canonical_cbor sha256 i = Inr bs \<and> canonical_cbor sha256 j = Inr cs)"
proof (cases "i = j")
  case False
  have c: "canonical_cbor sha256 i = Inr (root_input_bytes i)" if "input_commitment sha256 i = Inr c" for i
    using that unfolding input_commitment_def rbind_Inr_iff canonical_cbor_iff by blast
  show ?thesis using commitment_collision [OF assms False] c [OF assms(1)] c [OF assms(2)] by blast
qed simp

text \<open>A valid root input over a parameterised shard identifier, for a hash that is constant on records.\<close>

definition sample_root :: "bytes \<Rightarrow> root_input" where
  "sample_root shard = \<lparr>ri_version = 2, ri_network_id = 3, ri_partition_id = 8, ri_shard_id = shard,
     ri_authorized_round = 1, ri_certified_epoch = 0, ri_authorized_epoch = 0, ri_parent_hash = 5,
     ri_origin = \<lparr>ro_network_id = 3, ro_root_round = 4, ro_root_epoch = 1, ro_reference_time = 100,
       ro_tree_root = 6, ro_input_record_version = 1,
       ro_input_record = \<lparr>ir_round = 0, ir_epoch = 0, ir_previous_hash = None, ir_state_hash = None,
         ir_timestamp = 0, ir_block_hash = None\<rparr>, ro_tr_hash = 9, ro_shard_conf_hash = 7\<rparr>,
     ri_technical = \<lparr>tr_round = 1, tr_epoch = 0, tr_leader = [], tr_stat_hash = 0, tr_fee_hash = 0\<rparr>,
     ri_transitions = [], ri_b1_update_hash = 1, ri_root_records_hash = 1\<rparr>"

lemma sample_root_class: "origin_class (\<lambda>_. 9) (sample_root shard) = Inr Bootstrap"
  by (simp add: origin_class_def sample_root_def check_transitions_def origin_shape_def
      technical_record_hash_def Let_def)

lemma sample_root_ok: "root_input_ok (sample_root shard) \<longleftrightarrow> length shard \<le> 32"
  by (simp add: root_input_ok_def sample_root_def technical_ok_def transitions_ok_def MAX_SHARD_ID_BYTES_def)

theorem input_commitment_binds_witness:
  "\<exists>bs cs. bs \<noteq> cs \<and> canonical_cbor (\<lambda>_. 9) (sample_root []) = Inr bs \<and>
     canonical_cbor (\<lambda>_. 9) (sample_root [0]) = Inr cs"
proof -
  have c: "input_commitment (\<lambda>_. 9) (sample_root shard) = Inr 9" for shard
    by (simp add: input_commitment_def canonical_cbor_def sample_root_class)
  have "sample_root [] \<noteq> sample_root [0]" by (simp add: sample_root_def)
  with input_commitment_binds [OF c [of "[]"] c [of "[0]"]] show ?thesis
    using slice_root_input_bytes [of "sample_root []"] by (auto simp: sample_root_ok)
qed

text \<open>
  Claim C13. The codec's bounds are not part of the validity check: a valid root input whose shard
  identifier is longer than 32 bytes has a canonical encoding, and the decoder refuses that encoding.
\<close>

theorem wide_shard_id_not_decoded:
  assumes "is_ok (origin_class sha256 i)" "MAX_SHARD_ID_BYTES < length (ri_shard_id i)"
  shows "\<exists>bs. canonical_cbor sha256 i = Inr bs \<and> \<not> is_ok (from_canonical_cbor sha256 bs)"
proof -
  have "\<not> is_ok (from_canonical_cbor sha256 (root_input_bytes i))"
  proof
    assume "is_ok (from_canonical_cbor sha256 (root_input_bytes i))"
    then obtain j where j: "root_input_ok j" "root_input_bytes i = root_input_bytes j" "is_ok (origin_class sha256 j)"
      by (auto elim!: is_okE simp: from_canonical_cbor_iff)
    have "j = i"
      using j(2) slice_root_input_bytes [OF j(1)] by (intro root_input_bytes_inj [OF j(3) assms(1)]) simp_all
    with j(1) assms(2) show False by (simp add: root_input_ok_def)
  qed
  with assms(1) show ?thesis by (auto simp: canonical_cbor_iff)
qed

theorem wide_shard_id_not_decoded_witness:
  "\<exists>bs. canonical_cbor (\<lambda>_. 9) (sample_root (replicate 33 0)) = Inr bs \<and>
     \<not> is_ok (from_canonical_cbor (\<lambda>_. 9) bs)"
  by (rule wide_shard_id_not_decoded)
    (simp_all add: sample_root_class, simp add: sample_root_def MAX_SHARD_ID_BYTES_def)

text \<open>
  Claim C14. An epoch-transition body is accepted exactly when it is the one encoding of a legal handoff:
  one root epoch forward, or two with a non-zero supersession commitment; the shard assignment unchanged
  or moved by as many epochs with a new configuration; every identifier non-zero and the acknowledged
  successor parent equal to the frozen parent.
\<close>

theorem decode_epoch_transition_exact:
  "decode_epoch_transition bs = Inr t \<longleftrightarrow> handoff_ok t \<and> bs = transition_body t"
  by (rule decode_epoch_transition_iff)

lemma zip_differs_iff:
  "length xs = length ys \<Longrightarrow> (\<exists>(x, y) \<in> set (zip xs ys). x \<noteq> y) \<longleftrightarrow> xs \<noteq> ys"
  by (induction xs ys rule: list_induct2) auto

text \<open>
  Claim C15. A decoded build request is bound in full: its root input is the decoded value's only
  encoding, its transition envelope repeats the committed bodies byte for byte, and the update and
  root-record bytes hash to the committed values. Nothing else is accepted.
\<close>

theorem build_decode_exact:
  "build_decode_root_input sha256 b = Inr i \<longleftrightarrow>
     canonical_cbor sha256 i = Inr (sb_root_input b) \<and> root_input_ok i \<and>
     ri_transitions i = sb_transitions b \<and> sha256 (sb_b1_update b) = ri_b1_update_hash i \<and>
     sha256 (sb_records b) = ri_root_records_hash i"
proof -
  have "root_input_ok i \<Longrightarrow> length (ri_transitions i) \<le> MAX_ROOT_TRANSITIONS"
    by (simp add: root_input_ok_def transitions_ok_def)
  then show ?thesis
    by (auto simp: build_decode_root_input_def result_iff check_update_def check_records_def
        from_canonical_cbor_iff canonical_cbor_iff zip_differs_iff)
qed

text \<open>
  Claim C16. The block timestamp is the least time that is strictly after the parent and not before the
  authenticated reference time; the derivation refuses only when the parent already has the largest
  representable time.
\<close>

theorem derive_timestamp_least:
  "(derive_timestamp ref parent = None \<longleftrightarrow> parent = - 1) \<and>
   (derive_timestamp ref parent = Some t \<longleftrightarrow>
     parent < t \<and> ref \<le> t \<and> (t = ref \<or> unat t = unat parent + 1))"
proof -
  have unat_max: "unat (- 1 :: u64) = 2 ^ 64 - 1" by (simp add: unsigned_minus_1_eq_mask mask_eq_exp_minus_1)
  have none: "checked_add parent 1 = None \<longleftrightarrow> parent = - 1"
    using unat_less_pow [of parent] by (auto simp: checked_add_def unat_max word_unat_eq_iff simp del: unat_u64_less)
  show ?thesis
  proof (cases "checked_add parent 1")
    case None
    with none have "\<not> parent < t" using unat_less_pow [of t] by (auto simp: word_less_nat_alt unat_max simp del: unat_u64_less)
    with None none show ?thesis by (simp add: derive_timestamp_def)
  next
    case (Some u)
    then have u: "unat u = unat parent + 1" by (simp add: checked_add_Some_iff)
    have "max ref u = t \<longleftrightarrow> parent < t \<and> ref \<le> t \<and> (t = ref \<or> unat t = unat parent + 1)"
      using u by (auto simp: max_def word_less_nat_alt word_le_nat_alt word_unat_eq_iff)
    with Some none show ?thesis by (auto simp: derive_timestamp_def)
  qed
qed

end
