(* ===== verification/Block_Accounting.thy ===== *)
theory Block_Accounting
  imports Record_Codec
begin

text \<open>
  Gas and fee accounting of a block: \<open>execution/src/block.rs\<close> and the parent-accounting token
  \<open>CompletedParent\<close> of \<open>execution/src/block_executor.rs\<close>. Gas stays in \<open>u64\<close> and fee products in
  \<open>u128\<close>, so the theorems on overflow are about the arithmetic the node performs. The header's hash
  (\<open>hash_slow\<close>, the Ethereum header hash of alloy) is a parameter.
\<close>


section \<open>Profile and gas split\<close>

datatype block_accounting_error =
    ZeroParameter
  | UnsupportedProfile
  | NoOrdinaryCapacity
  | Overflow
  | CapacityExceeded
  | ParentGasMismatch
  | InvalidParentBaseFee
  | UpdateHashMismatch
  | RecordsHashMismatch
  | B1Profile

definition MAX_BASE_FEE :: u64 where
  "MAX_BASE_FEE = push_bit 62 1"

definition validate_profile :: "block_profile \<Rightarrow> block_accounting_error + block_profile" where
  "validate_profile p =
     (if bp_max_gas p = 0 \<or> bp_system_gas p = 0 \<or> bp_base_fee_floor p = 0 \<or> bp_elasticity p = 0 \<or>
         bp_change_denominator p = 0 then Inl ZeroParameter
      else if bp_max_gas p \<le> bp_system_gas p then Inl NoOrdinaryCapacity
      else if MAX_BASE_FEE < bp_base_fee_floor p then Inl InvalidParentBaseFee
      else let ordinary_capacity = bp_max_gas p - bp_system_gas p in
        if bp_elasticity p \<noteq> 2 \<or> ordinary_capacity mod bp_elasticity p \<noteq> 0 then Inl UnsupportedProfile
        else Inr p)"

definition ordinary_capacity :: "block_profile \<Rightarrow> block_accounting_error + u64" where
  "ordinary_capacity p = rbind (validate_profile p) (\<lambda>_. Inr (bp_max_gas p - bp_system_gas p))"

record block_gas_accounting =
  ga_system :: u64
  ga_ordinary :: u64
  ga_header :: u64

definition derive_gas :: "block_profile \<Rightarrow> u64 \<Rightarrow> u64 \<Rightarrow> block_accounting_error + block_gas_accounting" where
  "derive_gas profile system ordinary =
     rbind (ordinary_capacity profile) (\<lambda>capacity.
     if bp_system_gas profile < system \<or> capacity < ordinary then Inl CapacityExceeded
     else rbind (ok_or Overflow (checked_add system ordinary)) (\<lambda>header.
       if bp_max_gas profile < header then Inl CapacityExceeded
       else Inr \<lparr>ga_system = system, ga_ordinary = ordinary, ga_header = header\<rparr>))"

section \<open>Parent outcome and base fee\<close>

record parent_execution_outcome =
  po_profile :: block_profile
  po_parent_hash :: b256
  po_gas :: block_gas_accounting
  po_base_fee :: u64

definition reconcile ::
    "block_profile \<Rightarrow> b256 \<Rightarrow> u64 \<Rightarrow> u64 \<Rightarrow> u64 \<Rightarrow> block_accounting_error + parent_execution_outcome" where
  "reconcile profile parent_hash header_gas system_gas base_fee =
     rbind (validate_profile profile) (\<lambda>_.
     if base_fee < bp_base_fee_floor profile \<or> MAX_BASE_FEE < base_fee then Inl InvalidParentBaseFee
     else rbind (ok_or ParentGasMismatch (checked_sub header_gas system_gas)) (\<lambda>ordinary.
       rbind (derive_gas profile system_gas ordinary) (\<lambda>gas.
       if ga_header gas \<noteq> header_gas then Inl ParentGasMismatch
       else Inr \<lparr>po_profile = profile, po_parent_hash = parent_hash, po_gas = gas,
                 po_base_fee = base_fee\<rparr>)))"

definition unclamped_fee :: "u64 \<Rightarrow> u64 \<Rightarrow> u64 \<Rightarrow> u64 \<Rightarrow> block_accounting_error + u64" where
  "unclamped_fee base used target change_denominator =
     (if used = target then Inr base
      else let numerator = abs_diff used target in
        rbind (ok_or Overflow (checked_mul (ucast base :: u128) (ucast numerator))) (\<lambda>product.
        let delta = product div ucast target div ucast change_denominator in
        rbind (if unat delta < 2 ^ 64 then Inr (ucast delta :: u64) else Inl Overflow) (\<lambda>delta.
        if target < used then ok_or Overflow (checked_add base (max delta 1))
        else Inr (saturating_sub base delta))))"

definition next_base_fee :: "parent_execution_outcome \<Rightarrow> block_accounting_error + u64" where
  "next_base_fee parent =
     (let profile = po_profile parent in
      rbind (ordinary_capacity profile) (\<lambda>capacity.
      let target = capacity div bp_elasticity profile in
      if target = 0 then Inl NoOrdinaryCapacity
      else
        rbind (unclamped_fee (po_base_fee parent) (ga_ordinary (po_gas parent)) target
                (bp_change_denominator profile)) (\<lambda>next.
        Inr (clamp (bp_base_fee_floor profile) MAX_BASE_FEE next))))"

section \<open>The parent-accounting token\<close>

text \<open>
  The fields of an Ethereum header the program reads. A sealed header pairs it with the hash it was
  sealed with, which the checks compare with the recomputed one.
\<close>

record header =
  hd_parent_hash :: b256
  hd_number :: u64
  hd_gas_limit :: u64
  hd_gas_used :: u64
  hd_base_fee_per_gas :: "u64 option"
  hd_timestamp :: u64
  hd_mix_hash :: b256
  hd_extra_data :: bytes
  hd_beneficiary :: address
  hd_parent_beacon_block_root :: "b256 option"
  hd_state_root :: b256
  hd_blob_gas_used :: "u64 option"
  hd_excess_blob_gas :: "u64 option"
  hd_requests_hash :: "b256 option"
  hd_block_access_list_hash :: "b256 option"
  hd_slot_number :: "u64 option"

record sealed_header =
  sh_header :: header
  sh_hash :: b256

type_synonym hash_slow = "header \<Rightarrow> b256"

definition for_local_storage :: "parent_execution_outcome \<Rightarrow> local_parent_accounting" where
  "for_local_storage outcome =
     \<lparr>la_block_hash = po_parent_hash outcome, la_profile = po_profile outcome,
      la_header_gas = ga_header (po_gas outcome), la_system_gas = ga_system (po_gas outcome),
      la_ordinary_gas = ga_ordinary (po_gas outcome), la_base_fee = po_base_fee outcome\<rparr>"

definition from_local_storage ::
    "hash_slow \<Rightarrow> local_parent_accounting \<Rightarrow> sealed_header \<Rightarrow> block_profile
      \<Rightarrow> block_accounting_error + parent_execution_outcome" where
  "from_local_storage hash_slow r header profile =
     (let h = sh_header header in
      if hash_slow h \<noteq> sh_hash header \<or> la_block_hash r \<noteq> sh_hash header \<or> la_profile r \<noteq> profile \<or>
         hd_gas_limit h \<noteq> bp_max_gas profile \<or> hd_gas_used h \<noteq> la_header_gas r \<or>
         hd_base_fee_per_gas h \<noteq> Some (la_base_fee r) then Inl ParentGasMismatch
      else rbind (reconcile profile (la_block_hash r) (la_header_gas r) (la_system_gas r) (la_base_fee r))
        (\<lambda>outcome. if ga_ordinary (po_gas outcome) \<noteq> la_ordinary_gas r then Inl ParentGasMismatch
                   else Inr outcome))"

definition checked_next_base_fee ::
    "hash_slow \<Rightarrow> parent_execution_outcome \<Rightarrow> sealed_header \<Rightarrow> block_profile
      \<Rightarrow> block_accounting_error + u64" where
  "checked_next_base_fee hash_slow token parent profile =
     (let h = sh_header parent in
      if hash_slow h \<noteq> sh_hash parent \<or> po_parent_hash token \<noteq> sh_hash parent \<or>
         po_profile token \<noteq> profile \<or> hd_gas_limit h \<noteq> bp_max_gas profile \<or>
         hd_gas_used h \<noteq> ga_header (po_gas token) \<or>
         hd_base_fee_per_gas h \<noteq> Some (po_base_fee token) then Inl ParentGasMismatch
      else rbind (reconcile profile (sh_hash parent) (hd_gas_used h) (ga_system (po_gas token))
                   (po_base_fee token)) (\<lambda>checked.
        if ga_ordinary (po_gas checked) \<noteq> ga_ordinary (po_gas token) then Inl ParentGasMismatch
        else next_base_fee checked))"

definition genesis_next_base_fee ::
    "hash_slow \<Rightarrow> sealed_header \<Rightarrow> b256 \<Rightarrow> block_profile \<Rightarrow> block_accounting_error + u64" where
  "genesis_next_base_fee hash_slow parent genesis_hash profile =
     (let h = sh_header parent in
      if hd_number h \<noteq> 0 \<or> sh_hash parent \<noteq> genesis_hash \<or> hash_slow h \<noteq> genesis_hash \<or> hd_gas_used h \<noteq> 0
      then Inl ParentGasMismatch
      else rbind (ok_or InvalidParentBaseFee (hd_base_fee_per_gas h)) (\<lambda>fee.
        rbind (reconcile profile genesis_hash 0 0 fee) next_base_fee))"

section \<open>The gas split\<close>

definition capacity_nat :: "block_profile \<Rightarrow> nat" where
  "capacity_nat p = unat (bp_max_gas p) - unat (bp_system_gas p)"

definition profile_ok :: "block_profile \<Rightarrow> bool" where
  "profile_ok p \<longleftrightarrow>
     0 < bp_system_gas p \<and> bp_system_gas p < bp_max_gas p \<and> 0 < bp_base_fee_floor p \<and>
     bp_base_fee_floor p \<le> MAX_BASE_FEE \<and> bp_elasticity p = 2 \<and> 0 < bp_change_denominator p \<and>
     even (capacity_nat p)"

text \<open>What a reconciled outcome satisfies; the fee rule relies on nothing else.\<close>

definition outcome_ok :: "parent_execution_outcome \<Rightarrow> bool" where
  "outcome_ok out \<longleftrightarrow>
     (let p = po_profile out; g = po_gas out in
      profile_ok p \<and> bp_base_fee_floor p \<le> po_base_fee out \<and> po_base_fee out \<le> MAX_BASE_FEE \<and>
      ga_system g \<le> bp_system_gas p \<and> unat (ga_ordinary g) \<le> capacity_nat p \<and>
      unat (ga_header g) = unat (ga_system g) + unat (ga_ordinary g))"

lemma unat_MAX_BASE_FEE: "unat MAX_BASE_FEE = 2 ^ 62"
  by (simp add: MAX_BASE_FEE_def)

lemma mod2_zero_iff: "(w :: u64) mod 2 = 0 \<longleftrightarrow> even (unat w)"
  by (simp add: word_unat_eq_iff unat_mod even_iff_mod_2_eq_zero)

lemma unat_capacity:
  "bp_system_gas p < bp_max_gas p \<Longrightarrow> unat (bp_max_gas p - bp_system_gas p) = capacity_nat p"
  by (simp add: capacity_nat_def unat_sub_exact)

lemma validate_profile_iff: "validate_profile p = Inr q \<longleftrightarrow> q = p \<and> profile_ok p"
proof -
  have "(bp_max_gas p - bp_system_gas p) mod 2 = 0 \<longleftrightarrow> even (capacity_nat p)"
    if "bp_system_gas p < bp_max_gas p"
    unfolding mod2_zero_iff unat_capacity [OF that] ..
  then show ?thesis
    unfolding validate_profile_def profile_ok_def Let_def
    by (auto simp add: word_gt_0 not_le split: if_splits)
qed

lemma profile_ok_less: "profile_ok p \<Longrightarrow> bp_system_gas p < bp_max_gas p"
  by (simp add: profile_ok_def)

lemma ordinary_capacity_iff:
  "ordinary_capacity p = Inr c \<longleftrightarrow> profile_ok p \<and> unat c = capacity_nat p"
  using unat_capacity [OF profile_ok_less, of p]
  by (auto simp: ordinary_capacity_def rbind_Inr_iff validate_profile_iff word_unat_eq_iff)

lemma derive_gas_iff:
  "derive_gas p s r = Inr g \<longleftrightarrow>
     profile_ok p \<and> s \<le> bp_system_gas p \<and> unat r \<le> capacity_nat p \<and>
     ga_system g = s \<and> ga_ordinary g = r \<and> unat (ga_header g) = unat s + unat r" (is "?l = ?r")
proof
  assume ?l
  then show ?r
    by (auto simp: derive_gas_def result_iff ordinary_capacity_iff checked_add_Some_iff
        not_less word_le_nat_alt)
next
  assume r: ?r
  then have le: "unat s + unat r \<le> unat (bp_max_gas p)"
    by (auto simp: profile_ok_def word_le_nat_alt word_less_nat_alt capacity_nat_def)
  have "checked_add s r = Some (ga_header g)" using r by (simp add: checked_add_Some_iff)
  with r le profile_ok_less [of p] show ?l
    by (auto simp: derive_gas_def ordinary_capacity_def validate_profile_iff [THEN iffD2]
        word_less_nat_alt word_le_nat_alt unat_capacity)
qed

lemma reconcile_iff:
  "reconcile p h hg sg fee = Inr out \<longleftrightarrow>
     outcome_ok out \<and> po_profile out = p \<and> po_parent_hash out = h \<and> ga_header (po_gas out) = hg \<and>
     ga_system (po_gas out) = sg \<and> po_base_fee out = fee" (is "?l = ?r")
proof
  assume ?l
  then show ?r
    by (auto simp: reconcile_def result_iff derive_gas_iff outcome_ok_def Let_def not_less validate_profile_iff)
next
  assume r: ?r
  have "checked_sub hg sg = Some (ga_ordinary (po_gas out))"
    using r by (auto simp: checked_sub_Some_iff outcome_ok_def Let_def)
  moreover have "derive_gas p sg (ga_ordinary (po_gas out)) = Inr (po_gas out)"
    using r by (auto simp: derive_gas_iff outcome_ok_def Let_def)
  ultimately show ?l
    using r by (auto simp: reconcile_def validate_profile_iff [THEN iffD2] outcome_ok_def Let_def not_less)
qed

section \<open>The fee rule\<close>

text \<open>
  The EIP-1559 step on naturals, with the profile's floor and the cap: up by at least one when more
  than the target was used, down by the same proportion when less was.
\<close>

definition fee_step :: "nat \<Rightarrow> nat \<Rightarrow> nat \<Rightarrow> nat \<Rightarrow> nat" where
  "fee_step base used target denominator =
     (if used = target then base
      else if target < used then base + max 1 (base * (used - target) div target div denominator)
      else base - base * (target - used) div target div denominator)"

lemma delta_bound:
  fixes base n target d :: nat
  assumes "n \<le> target" "0 < target"
  shows "base * n div target div d \<le> base"
proof -
  have "base * n div target \<le> base * target div target"
    using assms by (intro div_le_mono mult_le_mono2)
  also have "\<dots> = base" using assms by simp
  finally show ?thesis using div_le_dividend le_trans by blast
qed

lemma unat_abs_diff:
  "unat (abs_diff a b) = (if unat a < unat b then unat b - unat a else unat a - unat (b :: 'a::len word))"
  by (auto simp: abs_diff_def word_less_nat_alt unat_sub_exact word_le_nat_alt)

lemma unat_u128_of_u64 [simp]: "unat (ucast (w :: u64) :: u128) = unat w"
  by (simp add: unsigned_ucast_eq take_bit_nat_eq_self less_trans [OF unat_less_pow])

lemma unat_u64_of_u128: "unat d < 2 ^ 64 \<Longrightarrow> unat (ucast (d :: u128) :: u64) = unat d"
  by (simp add: unsigned_ucast_eq take_bit_nat_eq_self)

lemma fee_step_words:
  fixes base used target den :: u64
  assumes base: "base \<le> MAX_BASE_FEE" and target: "0 < target" and used: "unat used \<le> 2 * unat target"
  shows "\<exists>f. unclamped_fee base used target den = Inr f \<and>
    unat f = fee_step (unat base) (unat used) (unat target) (unat den)"
proof (cases "used = target")
  case True
  then show ?thesis by (auto simp: fee_step_def unclamped_fee_def)
next
  case False
  let ?n = "abs_diff used target"
  have b: "unat base \<le> 2 ^ 62" using base by (simp add: word_le_nat_alt unat_MAX_BASE_FEE)
  have t: "0 < unat target" using target by (simp add: word_less_nat_alt)
  have n: "unat ?n \<le> unat target" using used unfolding unat_abs_diff by (auto split: if_splits)
  have "unat base * unat ?n \<le> 2 ^ 62 * 2 ^ 64"
    using b unat_less_pow [of ?n] by (intro mult_le_mono) simp_all
  then have small: "unat base * unat ?n < 2 ^ LENGTH(128)" by simp
  then have prod: "unat (ucast base * ucast ?n :: u128) = unat base * unat ?n"
    by (subst unat_mult_exact) simp_all
  define delta where "delta = (ucast base * ucast ?n :: u128) div ucast target div ucast den"
  have delta: "unat delta = unat base * unat ?n div unat target div unat den"
    by (simp add: delta_def unat_div prod)
  then have le: "unat delta \<le> unat base" using delta_bound [OF n t] by simp
  with b have d64: "unat delta < 2 ^ 64" by simp
  have max1: "unat (max (ucast delta :: u64) 1) = max 1 (unat delta)"
    using unat_u64_of_u128 [OF d64] by (auto simp: max_def word_le_nat_alt)
  have up: "unat base + max 1 (unat delta) < 2 ^ 64" using b le by simp
  have sub: "unat (saturating_sub base (ucast delta)) = unat base - unat delta"
    using unat_u64_of_u128 [OF d64] le
    by (simp add: saturating_sub_def word_le_nat_alt unat_sub_exact)
  show ?thesis
  proof (cases "target < used")
    case True
    with \<open>used \<noteq> target\<close> small d64 up max1 show ?thesis
      by (auto simp: unclamped_fee_def checked_mul_def Let_def checked_add_def unat_add_exact fee_step_def delta
          word_less_nat_alt unat_abs_diff simp flip: delta_def)
  next
    case False
    with \<open>used \<noteq> target\<close> have "unat used < unat target" "unat used \<noteq> unat target"
      by (auto simp: word_unat_eq_iff word_less_nat_alt)
    with False \<open>used \<noteq> target\<close> small d64 sub show ?thesis
      by (simp add: unclamped_fee_def checked_mul_def Let_def fee_step_def delta unat_abs_diff
          flip: delta_def)
  qed
qed

lemma unat_clamp: "unat (clamp lo hi x) = clamp (unat lo) (unat hi) (unat (x :: 'a::len word))"
  by (simp add: clamp_def word_less_nat_alt)

lemma next_base_fee_value:
  assumes "outcome_ok out"
  shows "\<exists>f. next_base_fee out = Inr f \<and>
    unat f = clamp (unat (bp_base_fee_floor (po_profile out))) (2 ^ 62)
      (fee_step (unat (po_base_fee out)) (unat (ga_ordinary (po_gas out)))
        (capacity_nat (po_profile out) div 2) (unat (bp_change_denominator (po_profile out))))"
proof -
  let ?p = "po_profile out" and ?used = "ga_ordinary (po_gas out)"
  have p: "profile_ok ?p" and used: "unat ?used \<le> capacity_nat ?p" and fee: "po_base_fee out \<le> MAX_BASE_FEE"
    using assms by (simp_all add: outcome_ok_def Let_def)
  define c where "c = bp_max_gas ?p - bp_system_gas ?p"
  have c: "ordinary_capacity ?p = Inr c" "unat c = capacity_nat ?p"
    using p profile_ok_less [OF p] by (simp_all add: ordinary_capacity_iff c_def unat_capacity)
  have el: "bp_elasticity ?p = 2" and ev: "even (capacity_nat ?p)" using p by (simp_all add: profile_ok_def)
  have pos: "0 < capacity_nat ?p"
    using profile_ok_less [OF p] by (simp add: capacity_nat_def word_less_nat_alt)
  define target where "target = c div 2"
  have t: "unat target = capacity_nat ?p div 2" by (simp add: target_def unat_div c)
  with ev pos have tpos: "0 < target" by (auto simp: word_less_nat_alt elim!: evenE)
  have "unat ?used \<le> 2 * unat target" using used ev t by simp
  from fee_step_words [OF fee tpos this, of "bp_change_denominator ?p"]
  obtain f where "unclamped_fee (po_base_fee out) ?used target (bp_change_denominator ?p) = Inr f"
    and "unat f = fee_step (unat (po_base_fee out)) (unat ?used) (unat target)
      (unat (bp_change_denominator ?p))" by blast
  then show ?thesis using tpos
    by (simp add: next_base_fee_def Let_def c(1) el t unat_clamp unat_MAX_BASE_FEE flip: target_def)
qed

lemma delta_per_denominator:
  fixes base n target d :: nat
  assumes "n \<le> target" "0 < target"
  shows "base * n div target div d \<le> base div d"
  using delta_bound [OF assms, of base 1] by (simp add: div_le_mono)

lemma fee_step_bounds:
  assumes "used \<le> 2 * target" "0 < target"
  shows "target \<le> used \<Longrightarrow> base \<le> fee_step base used target d"
    and "used \<le> target \<Longrightarrow> fee_step base used target d \<le> base"
    and "fee_step base used target d \<le> base + max 1 (base div d)"
    and "base \<le> fee_step base used target d + base div d"
proof -
  have "used - target \<le> target" "target - used \<le> target" using assms by simp_all
  note d = this [THEN delta_per_denominator [OF _ assms(2), of _ base d]]
  show "target \<le> used \<Longrightarrow> base \<le> fee_step base used target d"
    and "used \<le> target \<Longrightarrow> fee_step base used target d \<le> base"
    by (auto simp: fee_step_def)
  show "fee_step base used target d \<le> base + max 1 (base div d)"
    and "base \<le> fee_step base used target d + base div d"
    using d by (auto simp: fee_step_def le_max_iff_disj)
qed

section \<open>Properties\<close>

text \<open>
  Claim C8. Every parent the node can reconcile has a next base fee: the derivation never overflows
  and never reports an error, and its value is the EIP-1559 step on unbounded integers over half the
  ordinary capacity, clamped between the profile's floor and \<open>2^62\<close>. Only ordinary gas enters it.
\<close>

theorem next_base_fee_exact:
  assumes "reconcile p h header_gas system_gas fee = Inr out"
  shows "\<exists>f. next_base_fee out = Inr f \<and>
    unat f = clamp (unat (bp_base_fee_floor p)) (2 ^ 62)
      (fee_step (unat fee) (unat header_gas - unat system_gas)
        ((unat (bp_max_gas p) - unat (bp_system_gas p)) div 2) (unat (bp_change_denominator p)))"
proof -
  from assms have "outcome_ok out" "po_profile out = p" "po_base_fee out = fee"
    "ga_header (po_gas out) = header_gas" "ga_system (po_gas out) = system_gas"
    by (simp_all add: reconcile_iff)
  with next_base_fee_value [of out] show ?thesis
    by (auto simp: outcome_ok_def Let_def capacity_nat_def)
qed

definition sample_profile :: block_profile where
  "sample_profile = \<lparr>bp_max_gas = 30000000, bp_system_gas = 10000000, bp_base_fee_floor = 7,
     bp_elasticity = 2, bp_change_denominator = 8\<rparr>"

definition sample_outcome :: parent_execution_outcome where
  "sample_outcome = \<lparr>po_profile = sample_profile, po_parent_hash = 1,
     po_gas = \<lparr>ga_system = 2000000, ga_ordinary = 15000000, ga_header = 17000000\<rparr>,
     po_base_fee = 1000000000\<rparr>"

lemma sample_reconcile: "reconcile sample_profile 1 17000000 2000000 1000000000 = Inr sample_outcome"
  by (simp add: reconcile_iff outcome_ok_def profile_ok_def capacity_nat_def sample_profile_def
      sample_outcome_def word_le_nat_alt word_less_nat_alt unat_MAX_BASE_FEE)

lemma sample_fee: "next_base_fee sample_outcome = Inr 1062500000"
proof -
  have "outcome_ok sample_outcome" using sample_reconcile by (simp add: reconcile_iff)
  from next_base_fee_value [OF this] show ?thesis
    by (auto simp: sample_outcome_def sample_profile_def fee_step_def clamp_def capacity_nat_def
        word_unat_eq_iff)
qed

theorem next_base_fee_exact_witness:
  "\<exists>f. next_base_fee sample_outcome = Inr f \<and> unat f = 1062500000"
  using next_base_fee_exact [OF sample_reconcile]
  by (simp add: sample_profile_def fee_step_def clamp_def)

text \<open>
  Claim C9. The fee follows demand and moves slowly: after a block at or above the target it does not
  fall, at or below the target it does not rise, and one step changes it by at most
  \<open>max 1 (fee / change_denominator)\<close>, always inside the profile's bounds.
\<close>

theorem next_base_fee_follows_demand:
  assumes "reconcile p h header_gas system_gas fee = Inr out" "next_base_fee out = Inr f"
  shows "bp_base_fee_floor p \<le> f \<and> f \<le> MAX_BASE_FEE \<and>
    (unat (bp_max_gas p) - unat (bp_system_gas p) \<le> 2 * unat (ga_ordinary (po_gas out)) \<longrightarrow> fee \<le> f) \<and>
    (2 * unat (ga_ordinary (po_gas out)) \<le> unat (bp_max_gas p) - unat (bp_system_gas p) \<longrightarrow> f \<le> fee) \<and>
    unat f \<le> unat fee + max 1 (unat fee div unat (bp_change_denominator p)) \<and>
    unat fee \<le> unat f + unat fee div unat (bp_change_denominator p)"
proof -
  let ?used = "unat (ga_ordinary (po_gas out))" and ?t = "capacity_nat p div 2"
    and ?d = "unat (bp_change_denominator p)"
  from assms(1) have out: "outcome_ok out" "po_profile out = p" "po_base_fee out = fee"
    by (simp_all add: reconcile_iff)
  from out have ok: "profile_ok p" "?used \<le> capacity_nat p" "even (capacity_nat p)"
    and fee: "bp_base_fee_floor p \<le> fee" "fee \<le> MAX_BASE_FEE"
    by (auto simp: outcome_ok_def Let_def profile_ok_def)
  have "0 < capacity_nat p"
    using profile_ok_less [OF ok(1)] by (simp add: capacity_nat_def word_less_nat_alt)
  with ok have "?used \<le> 2 * ?t" "0 < ?t" by (auto elim!: evenE)
  note b = fee_step_bounds [OF this, of "unat fee" ?d]
  have f: "unat f = clamp (unat (bp_base_fee_floor p)) (2 ^ 62) (fee_step (unat fee) ?used ?t ?d)"
    using next_base_fee_value [OF out(1)] assms(2) out by auto
  have "bp_base_fee_floor p \<le> MAX_BASE_FEE" using ok(1) by (simp add: profile_ok_def)
  then show ?thesis
    using b fee ok(3) f
    by (auto simp: clamp_def word_le_nat_alt unat_MAX_BASE_FEE capacity_nat_def [symmetric]
        split: if_splits elim!: evenE)
qed

theorem next_base_fee_follows_demand_witness:
  "next_base_fee sample_outcome = Inr 1062500000 \<and> 1000000000 \<le> (1062500000 :: u64) \<and>
     (1062500000 :: u64) \<le> MAX_BASE_FEE"
  using next_base_fee_follows_demand [OF sample_reconcile sample_fee] sample_fee
  by (simp add: sample_profile_def sample_outcome_def)

text \<open>
  Claim C10. Accounting survives local storage exactly: a stored record restores a token if and only if
  the token exports that very record, its gas split is the one the profile admits, and the sealed header
  it is checked against is genuine and carries the record's hash, gas limit, gas used and base fee.
\<close>

theorem from_local_storage_exact:
  "from_local_storage hash_slow r sealed p = Inr out \<longleftrightarrow>
     outcome_ok out \<and> po_profile out = p \<and> for_local_storage out = r \<and>
     hash_slow (sh_header sealed) = sh_hash sealed \<and> sh_hash sealed = la_block_hash r \<and>
     hd_gas_limit (sh_header sealed) = bp_max_gas p \<and>
     hd_gas_used (sh_header sealed) = la_header_gas r \<and>
     hd_base_fee_per_gas (sh_header sealed) = Some (la_base_fee r)"
  by (auto simp: from_local_storage_def for_local_storage_def result_iff Let_def reconcile_iff
      intro!: local_parent_accounting.equality)

end
