(* ===== verification/Pair_Binding.thy ===== *)
theory Pair_Binding
  imports Root_Input Block_Accounting
begin

text \<open>
  The paired-execution binding of \<open>execution/src/pairing.rs\<close>: its canonical encoding and strict decoder,
  the digests it names, and the gate that compares it with the node's own pins, genesis, parent, root
  input and subject before anything is installed or executed.
\<close>

section \<open>Data\<close>

definition PAIR_BINDING_DOMAIN :: bytes where
  "PAIR_BINDING_DOMAIN = ascii ''UNICITY_PAIR_BINDING''"

definition PAIR_BINDING_VERSION :: u64 where
  "PAIR_BINDING_VERSION = 1"

definition PAIR_JOB_DOMAIN :: bytes where
  "PAIR_JOB_DOMAIN = ascii ''UNICITY_PAIR_JOB''"

definition MAX_PAIR_BINDING_BYTES :: nat where
  "MAX_PAIR_BINDING_BYTES = 512"

definition SUBJECT_BUILD :: u64 where
  "SUBJECT_BUILD = 1"

definition SUBJECT_IMPORT :: u64 where
  "SUBJECT_IMPORT = 2"

datatype pair_subject = Build b256 | Import b256

fun subject_kind :: "pair_subject \<Rightarrow> u64" where
  "subject_kind (Build _) = SUBJECT_BUILD"
| "subject_kind (Import _) = SUBJECT_IMPORT"

fun subject_id :: "pair_subject \<Rightarrow> b256" where
  "subject_id (Build attributes_digest) = attributes_digest"
| "subject_id (Import block_hash) = block_hash"

record pair_binding =
  pb_network_id :: u64
  pb_root_genesis_id :: b256
  pb_execution_genesis_hash :: b256
  pb_parent_hash :: b256
  pb_parent_number :: u64
  pb_origin_root_epoch :: u64
  pb_origin_root_round :: u64
  pb_configuration_id :: b256
  pb_activation_id :: b256
  pb_root_input_hash :: b256
  pb_transitions_hash :: b256
  pb_subject :: pair_subject

datatype pair_binding_error =
    Missing
  | BindingTooLarge nat
  | Malformed canonical_cbor_error
  | WrongDomain
  | WrongVersion u64
  | UnknownSubject u64
  | ZeroIdentity string
  | RootInput string
  | NetworkMismatch
  | RootGenesisMismatch
  | ExecutionGenesisMismatch
  | InputNetworkMismatch
  | ParentHashMismatch
  | ParentNumberMismatch
  | OriginEpochMismatch
  | OriginRoundMismatch
  | ConfigurationMismatch
  | ActivationMismatch
  | RootInputMismatch
  | TransitionsMismatch
  | WrongSubjectKind u64 u64
  | JobMismatch
  | BlockMismatch

record pair_pins =
  pp_network_id :: u64
  pp_root_genesis_id :: b256

datatype expected_subject = ExpectBuild b256 | ExpectImport b256

record pair_context =
  pc_pins :: pair_pins
  pc_execution_genesis_hash :: b256
  pc_parent :: sealed_header
  pc_root :: root_input
  pc_subject :: expected_subject

section \<open>Codec\<close>

definition binding_canonical_cbor :: "pair_binding \<Rightarrow> bytes" where
  "binding_canonical_cbor b =
     put_array 15 @ put_text PAIR_BINDING_DOMAIN @ put_uint PAIR_BINDING_VERSION @
     put_uint (pb_network_id b) @ put_word (pb_root_genesis_id b) @
     put_word (pb_execution_genesis_hash b) @ put_word (pb_parent_hash b) @
     put_uint (pb_parent_number b) @ put_uint (pb_origin_root_epoch b) @
     put_uint (pb_origin_root_round b) @ put_word (pb_configuration_id b) @
     put_word (pb_activation_id b) @ put_word (pb_root_input_hash b) @
     put_word (pb_transitions_hash b) @ put_uint (subject_kind (pb_subject b)) @
     put_word (subject_id (pb_subject b))"

definition decode_subject :: "u64 \<Rightarrow> b256 \<Rightarrow> pair_binding_error + pair_subject" where
  "decode_subject kind sid =
     (if kind = SUBJECT_BUILD then Inr (Build sid)
      else if kind = SUBJECT_IMPORT then Inr (Import sid)
      else Inl (UnknownSubject kind))"

definition binding_identities :: "pair_binding \<Rightarrow> (string \<times> b256) list" where
  "binding_identities b =
     [(''rootGenesisId'', pb_root_genesis_id b), (''executionGenesisHash'', pb_execution_genesis_hash b),
      (''parentHash'', pb_parent_hash b), (''configurationId'', pb_configuration_id b),
      (''activationId'', pb_activation_id b), (''rootInputHash'', pb_root_input_hash b),
      (''transitionsHash'', pb_transitions_hash b), (''subjectId'', subject_id (pb_subject b))]"

fun check_identities :: "(string \<times> b256) list \<Rightarrow> pair_binding_error + unit" where
  "check_identities [] = Inr ()"
| "check_identities ((name, word) # rest) =
     (if word = 0 then Inl (ZeroIdentity name) else check_identities rest)"

definition binding_from_canonical_cbor :: "bytes \<Rightarrow> pair_binding_error + pair_binding" where
  "binding_from_canonical_cbor raw =
     (if raw = [] then Inl Missing
      else if MAX_PAIR_BINDING_BYTES < length raw then Inl (BindingTooLarge (length raw))
      else
      rbind (map_err Malformed (read_array (decoder_new raw))) (\<lambda>(arity, r).
      if arity \<noteq> 15 then Inl (Malformed (WrongArity 15 arity)) else
      rbind (map_err Malformed (read_text r)) (\<lambda>(domain, r).
      if domain \<noteq> PAIR_BINDING_DOMAIN then Inl WrongDomain else
      rbind (map_err Malformed (read_uint r)) (\<lambda>(version, r).
      if version \<noteq> PAIR_BINDING_VERSION then Inl (WrongVersion version) else
      rbind (map_err Malformed (read_uint r)) (\<lambda>(network_id, r).
      rbind (map_err Malformed (read_word r)) (\<lambda>(root_genesis_id, r).
      rbind (map_err Malformed (read_word r)) (\<lambda>(execution_genesis_hash, r).
      rbind (map_err Malformed (read_word r)) (\<lambda>(parent_hash, r).
      rbind (map_err Malformed (read_uint r)) (\<lambda>(parent_number, r).
      rbind (map_err Malformed (read_uint r)) (\<lambda>(origin_root_epoch, r).
      rbind (map_err Malformed (read_uint r)) (\<lambda>(origin_root_round, r).
      rbind (map_err Malformed (read_word r)) (\<lambda>(configuration_id, r).
      rbind (map_err Malformed (read_word r)) (\<lambda>(activation_id, r).
      rbind (map_err Malformed (read_word r)) (\<lambda>(root_input_hash, r).
      rbind (map_err Malformed (read_word r)) (\<lambda>(transitions_hash, r).
      rbind (map_err Malformed (read_uint r)) (\<lambda>(kind, r).
      rbind (map_err Malformed (read_word r)) (\<lambda>(sid, r).
      rbind (map_err Malformed (dec_finish r)) (\<lambda>_.
      rbind (decode_subject kind sid) (\<lambda>subject.
      let b = \<lparr>pb_network_id = network_id, pb_root_genesis_id = root_genesis_id,
        pb_execution_genesis_hash = execution_genesis_hash, pb_parent_hash = parent_hash,
        pb_parent_number = parent_number, pb_origin_root_epoch = origin_root_epoch,
        pb_origin_root_round = origin_root_round, pb_configuration_id = configuration_id,
        pb_activation_id = activation_id, pb_root_input_hash = root_input_hash,
        pb_transitions_hash = transitions_hash, pb_subject = subject\<rparr> in
      rbind (check_identities (binding_identities b)) (\<lambda>_. Inr b))))))))))))))))))))"

section \<open>Digests\<close>

definition transitions_hash :: "sha256 \<Rightarrow> bytes list \<Rightarrow> b256" where
  "transitions_hash sha256 transitions =
     sha256 (put_array (length transitions) @ concat (map put_bytes transitions))"

definition attributes_digest :: "sha256 \<Rightarrow> u64 \<Rightarrow> b256 \<Rightarrow> address \<Rightarrow> b256 \<Rightarrow> b256" where
  "attributes_digest sha256 timestamp prev_randao suggested_fee_recipient parent_beacon_block_root =
     sha256 (put_array 6 @ put_text PAIR_JOB_DOMAIN @ put_uint 1 @ put_uint timestamp @
       put_word prev_randao @ put_bytes (to_be 20 suggested_fee_recipient) @
       put_word parent_beacon_block_root)"

definition header_attributes_digest :: "sha256 \<Rightarrow> header \<Rightarrow> b256 option" where
  "header_attributes_digest sha256 h =
     map_option (attributes_digest sha256 (hd_timestamp h) (hd_mix_hash h) (hd_beneficiary h))
       (hd_parent_beacon_block_root h)"

section \<open>Verification\<close>

definition check_activation :: "root_input \<Rightarrow> b256 \<Rightarrow> pair_binding_error + unit" where
  "check_activation root activation_id =
     (case ri_transitions root of
        raw # _ \<Rightarrow>
          rbind (map_err (\<lambda>_. ActivationMismatch) (decode_epoch_transition raw)) (\<lambda>t.
          if activation_id \<noteq> et_commit_id t then Inl ActivationMismatch else Inr ())
      | [] \<Rightarrow> Inr ())"

fun check_subject :: "pair_subject \<Rightarrow> expected_subject \<Rightarrow> pair_binding_error + unit" where
  "check_subject (Build digest) (ExpectBuild expected) =
     (if digest \<noteq> expected then Inl JobMismatch else Inr ())"
| "check_subject (Import block) (ExpectImport expected) =
     (if block \<noteq> expected then Inl BlockMismatch else Inr ())"
| "check_subject found (ExpectBuild _) = Inl (WrongSubjectKind SUBJECT_BUILD (subject_kind found))"
| "check_subject found (ExpectImport _) = Inl (WrongSubjectKind SUBJECT_IMPORT (subject_kind found))"

definition verify_pair_binding :: "sha256 \<Rightarrow> bytes \<Rightarrow> pair_context \<Rightarrow> pair_binding_error + pair_binding" where
  "verify_pair_binding sha256 raw context =
     rbind (binding_from_canonical_cbor raw) (\<lambda>binding.
     let root = pc_root context; pins = pc_pins context; parent = pc_parent context in
     if pb_network_id binding \<noteq> pp_network_id pins then Inl NetworkMismatch
     else if pb_root_genesis_id binding \<noteq> pp_root_genesis_id pins then Inl RootGenesisMismatch
     else if pb_execution_genesis_hash binding \<noteq> pc_execution_genesis_hash context
     then Inl ExecutionGenesisMismatch
     else if ri_network_id root \<noteq> pb_network_id binding then Inl InputNetworkMismatch
     else if pb_parent_hash binding \<noteq> sh_hash parent then Inl ParentHashMismatch
     else if pb_parent_number binding \<noteq> hd_number (sh_header parent) then Inl ParentNumberMismatch
     else if pb_origin_root_epoch binding \<noteq> ro_root_epoch (ri_origin root) then Inl OriginEpochMismatch
     else if pb_origin_root_round binding \<noteq> ro_root_round (ri_origin root) then Inl OriginRoundMismatch
     else if pb_configuration_id binding \<noteq> ro_shard_conf_hash (ri_origin root) then Inl ConfigurationMismatch
     else rbind (check_activation root (pb_activation_id binding)) (\<lambda>_.
     rbind (map_err RootInput (input_commitment sha256 root)) (\<lambda>commitment.
     if pb_root_input_hash binding \<noteq> commitment then Inl RootInputMismatch
     else if pb_transitions_hash binding \<noteq> transitions_hash sha256 (ri_transitions root)
     then Inl TransitionsMismatch
     else rbind (check_subject (pb_subject binding) (pc_subject context)) (\<lambda>_. Inr binding))))"

definition reference_binding :: "sha256 \<Rightarrow> pair_context \<Rightarrow> b256 \<Rightarrow> pair_binding_error + pair_binding" where
  "reference_binding sha256 context activation_id =
     (let root = pc_root context; pins = pc_pins context; parent = pc_parent context in
      rbind (case ri_transitions root of
               raw # _ \<Rightarrow> rbind (map_err (\<lambda>_. ActivationMismatch) (decode_epoch_transition raw))
                 (\<lambda>t. Inr (et_commit_id t))
             | [] \<Rightarrow> Inr activation_id) (\<lambda>activation.
      rbind (map_err RootInput (input_commitment sha256 root)) (\<lambda>commitment.
      Inr \<lparr>pb_network_id = pp_network_id pins, pb_root_genesis_id = pp_root_genesis_id pins,
        pb_execution_genesis_hash = pc_execution_genesis_hash context, pb_parent_hash = sh_hash parent,
        pb_parent_number = hd_number (sh_header parent),
        pb_origin_root_epoch = ro_root_epoch (ri_origin root),
        pb_origin_root_round = ro_root_round (ri_origin root),
        pb_configuration_id = ro_shard_conf_hash (ri_origin root), pb_activation_id = activation,
        pb_root_input_hash = commitment,
        pb_transitions_hash = transitions_hash sha256 (ri_transitions root),
        pb_subject = (case pc_subject context of ExpectBuild d \<Rightarrow> Build d | ExpectImport h \<Rightarrow> Import h)\<rparr>)))"

section \<open>The decoder is exact\<close>

definition binding_ok :: "pair_binding \<Rightarrow> bool" where
  "binding_ok b \<longleftrightarrow> 0 \<notin> snd ` set (binding_identities b)"

lemma check_identities_iff: "check_identities ws = Inr u \<longleftrightarrow> 0 \<notin> snd ` set ws"
  by (induction ws rule: check_identities.induct) auto

lemma decode_subject_iff:
  "decode_subject kind sid = Inr s \<longleftrightarrow> kind = subject_kind s \<and> sid = subject_id s"
  by (cases s) (auto simp: decode_subject_def SUBJECT_BUILD_def SUBJECT_IMPORT_def)

lemma length_binding: "length (binding_canonical_cbor b) \<le> MAX_PAIR_BINDING_BYTES"
  using length_put_array [of 15] length_put_text [of PAIR_BINDING_DOMAIN]
    length_put_uint [of PAIR_BINDING_VERSION] length_put_uint [of "pb_network_id b"]
    length_put_uint [of "pb_parent_number b"] length_put_uint [of "pb_origin_root_epoch b"]
    length_put_uint [of "pb_origin_root_round b"] length_put_uint [of "subject_kind (pb_subject b)"]
  by (simp add: binding_canonical_cbor_def MAX_PAIR_BINDING_BYTES_def length_put_word PAIR_BINDING_DOMAIN_def)

lemma utf8_pair_domain: "utf8_valid PAIR_BINDING_DOMAIN" "length PAIR_BINDING_DOMAIN < 2 ^ 64"
  by (simp_all add: PAIR_BINDING_DOMAIN_def ascii_def)

lemma binding_from_canonical_cbor_iff:
  "binding_from_canonical_cbor raw = Inr b \<longleftrightarrow> binding_ok b \<and> raw = binding_canonical_cbor b"
proof (cases "length raw \<le> MAX_PAIR_BINDING_BYTES")
  case False
  then show ?thesis using length_binding [of b] by (auto simp: binding_from_canonical_cbor_def)
next
  case True
  then have "slice raw" by (simp add: slice_def MAX_PAIR_BINDING_BYTES_def)
  moreover have "binding_canonical_cbor b \<noteq> []" by (simp add: binding_canonical_cbor_def put_array_def major_def)
  ultimately show ?thesis
    using True utf8_pair_domain
    by (cases b) (auto simp: binding_from_canonical_cbor_def array_item.first_err text_item.chain_err
        uint_item.chain_err word_item.chain_err read_guard read_finish_err Let_def
        rbind_Inr_iff [of "decode_subject k i" for k i] decode_subject_iff
        rbind_Inr_iff [of "check_identities w" for w] check_identities_iff binding_ok_def
        binding_canonical_cbor_def)
qed

section \<open>The gate\<close>

lemma check_activation_iff:
  "check_activation root a = Inr u \<longleftrightarrow>
     (case ri_transitions root of raw # _ \<Rightarrow> \<exists>t. decode_epoch_transition raw = Inr t \<and> a = et_commit_id t
      | [] \<Rightarrow> True)"
  by (auto simp: check_activation_def result_iff split: list.splits)

lemma check_subject_iff:
  "check_subject s e = Inr u \<longleftrightarrow> s = (case e of ExpectBuild d \<Rightarrow> Build d | ExpectImport h \<Rightarrow> Import h)"
  by (cases s; cases e) auto

lemma verify_pair_binding_iff:
  "verify_pair_binding sha256 raw context = Inr b \<longleftrightarrow>
     raw = binding_canonical_cbor b \<and> binding_ok b \<and>
     ri_network_id (pc_root context) = pp_network_id (pc_pins context) \<and>
     reference_binding sha256 context (pb_activation_id b) = Inr b"
proof -
  have "verify_pair_binding sha256 raw context = Inr b \<longleftrightarrow>
      raw = binding_canonical_cbor b \<and> binding_ok b \<and>
      pb_network_id b = pp_network_id (pc_pins context) \<and>
      pb_root_genesis_id b = pp_root_genesis_id (pc_pins context) \<and>
      pb_execution_genesis_hash b = pc_execution_genesis_hash context \<and>
      ri_network_id (pc_root context) = pb_network_id b \<and> pb_parent_hash b = sh_hash (pc_parent context) \<and>
      pb_parent_number b = hd_number (sh_header (pc_parent context)) \<and>
      pb_origin_root_epoch b = ro_root_epoch (ri_origin (pc_root context)) \<and>
      pb_origin_root_round b = ro_root_round (ri_origin (pc_root context)) \<and>
      pb_configuration_id b = ro_shard_conf_hash (ri_origin (pc_root context)) \<and>
      check_activation (pc_root context) (pb_activation_id b) = Inr () \<and>
      input_commitment sha256 (pc_root context) = Inr (pb_root_input_hash b) \<and>
      pb_transitions_hash b = transitions_hash sha256 (ri_transitions (pc_root context)) \<and>
      check_subject (pb_subject b) (pc_subject context) = Inr ()"
    by (auto simp: verify_pair_binding_def Let_def result_iff binding_from_canonical_cbor_iff)
  also have "\<dots> \<longleftrightarrow> raw = binding_canonical_cbor b \<and> binding_ok b \<and>
      ri_network_id (pc_root context) = pp_network_id (pc_pins context) \<and>
      reference_binding sha256 context (pb_activation_id b) = Inr b"
    by (cases b) (auto simp: reference_binding_def Let_def result_iff check_activation_iff check_subject_iff
        split: list.splits)
  finally show ?thesis .
qed

lemma reference_binding_fields:
  assumes "reference_binding sha256 context a = Inr b"
  shows "pb_network_id b = pp_network_id (pc_pins context)"
    "pb_root_genesis_id b = pp_root_genesis_id (pc_pins context)"
    "pb_execution_genesis_hash b = pc_execution_genesis_hash context"
    "pb_parent_hash b = sh_hash (pc_parent context)"
    "input_commitment sha256 (pc_root context) = Inr (pb_root_input_hash b)"
    "pb_subject b = (case pc_subject context of ExpectBuild d \<Rightarrow> Build d | ExpectImport h \<Rightarrow> Import h)"
    "pb_configuration_id b = ro_shard_conf_hash (ri_origin (pc_root context))"
    "pb_parent_number b = hd_number (sh_header (pc_parent context))"
    "pb_origin_root_epoch b = ro_root_epoch (ri_origin (pc_root context))"
    "pb_origin_root_round b = ro_root_round (ri_origin (pc_root context))"
  using assms by (auto simp: reference_binding_def Let_def result_iff)

section \<open>Properties\<close>

text \<open>
  Claim C17. The gate admits exactly one byte string per binding and compares every field: it returns a
  binding if and only if the bytes are its canonical encoding, no identity in it is zero, the root input
  names the pinned network, and the binding is the one the node's own pins, genesis, parent, root input and
  subject determine. Only the activation identity of an input without a transition is taken as given.
\<close>

theorem verify_pair_binding_exact:
  "verify_pair_binding sha256 raw context = Inr b \<longleftrightarrow>
     raw = binding_canonical_cbor b \<and> binding_ok b \<and>
     ri_network_id (pc_root context) = pp_network_id (pc_pins context) \<and>
     reference_binding sha256 context (pb_activation_id b) = Inr b"
  by (rule verify_pair_binding_iff)

text \<open>
  Claim C18. A binding cannot be moved: one byte string that passes the gate in two local contexts names the
  same network, root genesis, execution genesis, parent, shard configuration, origin and subject in both, and the same
  root input, unless the canonical encodings of the two root inputs are a SHA-256 collision. Build and import subjects
  are never confused.
\<close>

theorem pair_binding_not_transferable:
  assumes "verify_pair_binding sha256 raw c = Inr b" "verify_pair_binding sha256 raw d = Inr b'"
    and "slice (root_input_bytes (pc_root c))"
  shows "pc_pins c = pc_pins d \<and> pc_execution_genesis_hash c = pc_execution_genesis_hash d \<and>
    sh_hash (pc_parent c) = sh_hash (pc_parent d) \<and> hd_number (sh_header (pc_parent c)) = hd_number (sh_header (pc_parent d)) \<and>
    ro_shard_conf_hash (ri_origin (pc_root c)) = ro_shard_conf_hash (ri_origin (pc_root d)) \<and>
    ro_root_epoch (ri_origin (pc_root c)) = ro_root_epoch (ri_origin (pc_root d)) \<and>
    ro_root_round (ri_origin (pc_root c)) = ro_root_round (ri_origin (pc_root d)) \<and> pc_subject c = pc_subject d \<and>
    (pc_root c = pc_root d \<or>
      root_input_bytes (pc_root c) \<noteq> root_input_bytes (pc_root d) \<and>
      sha256 (root_input_bytes (pc_root c)) = sha256 (root_input_bytes (pc_root d)))"
proof -
  have "binding_from_canonical_cbor raw = Inr b" "binding_from_canonical_cbor raw = Inr b'"
    using assms(1,2) by (auto simp: verify_pair_binding_def rbind_Inr_iff Let_def split: if_splits)
  then have b': "b' = b" by simp
  have "reference_binding sha256 c (pb_activation_id b) = Inr b"
    "reference_binding sha256 d (pb_activation_id b) = Inr b"
    using assms(1,2) by (simp_all add: verify_pair_binding_iff b')
  note c = reference_binding_fields [OF this(1)] and d = reference_binding_fields [OF this(2)]
  have "pc_subject c = pc_subject d" using c(6) d(6) by (auto split: expected_subject.splits)
  moreover note commitment_collision [OF c(5) d(5) assms(3)]
  moreover have "pc_pins c = pc_pins d" using c(1,2) d(1,2) by (simp add: pair_pins.equality)
  ultimately show ?thesis using c(3,4,7-10) d(3,4,7-10) by auto
qed

definition sample_header :: header where
  "sample_header = \<lparr>hd_parent_hash = 0, hd_number = 0, hd_gas_limit = 30000000, hd_gas_used = 0,
     hd_base_fee_per_gas = Some 7, hd_timestamp = 90, hd_mix_hash = 0, hd_extra_data = [],
     hd_beneficiary = 0, hd_parent_beacon_block_root = None, hd_state_root = 0, hd_blob_gas_used = None,
     hd_excess_blob_gas = None, hd_requests_hash = None, hd_block_access_list_hash = None,
     hd_slot_number = None\<rparr>"

definition sample_context :: "u64 \<Rightarrow> pair_context" where
  "sample_context gas_used = \<lparr>pc_pins = \<lparr>pp_network_id = 3, pp_root_genesis_id = 11\<rparr>,
     pc_execution_genesis_hash = 12,
     pc_parent = \<lparr>sh_header = sample_header\<lparr>hd_gas_used := gas_used\<rparr>, sh_hash = 5\<rparr>,
     pc_root = sample_root [], pc_subject = ExpectImport 13\<rparr>"

definition sample_pair_binding :: pair_binding where
  "sample_pair_binding = \<lparr>pb_network_id = 3, pb_root_genesis_id = 11, pb_execution_genesis_hash = 12,
     pb_parent_hash = 5, pb_parent_number = 0, pb_origin_root_epoch = 1, pb_origin_root_round = 4,
     pb_configuration_id = 7, pb_activation_id = 1, pb_root_input_hash = 9, pb_transitions_hash = 9,
     pb_subject = Import 13\<rparr>"

lemma sample_verified:
  "verify_pair_binding (\<lambda>_. 9) (binding_canonical_cbor sample_pair_binding) (sample_context g) =
     Inr sample_pair_binding"
proof -
  have "input_commitment (\<lambda>_. 9) (sample_root []) = Inr 9"
    by (simp add: input_commitment_def canonical_cbor_def sample_root_class)
  then show ?thesis
    by (simp add: verify_pair_binding_iff reference_binding_def sample_context_def Let_def
        transitions_hash_def binding_ok_def binding_identities_def sample_pair_binding_def)
      (simp add: sample_root_def sample_header_def)
qed

theorem pair_binding_not_transferable_witness:
  "sample_context 0 \<noteq> sample_context 1 \<and> pc_subject (sample_context 0) = pc_subject (sample_context 1) \<and>
   verify_pair_binding (\<lambda>_. 9) (binding_canonical_cbor sample_pair_binding) (sample_context 0) =
     Inr sample_pair_binding"
proof -
  have "slice (root_input_bytes (pc_root (sample_context 0)))"
    by (rule slice_root_input_bytes) (simp add: sample_context_def sample_root_ok)
  from pair_binding_not_transferable [OF sample_verified [of 0] sample_verified [of 1] this]
  show ?thesis using sample_verified by (simp add: sample_context_def sample_header_def)
qed

end
