(* ===== verification/Quantization.thy ===== *)
theory Quantization
  imports Complex_Main Unicity_Prelude
begin

text \<open>
  The weight quantization rule of \<open>execution/src/quant.rs\<close>: committed weights derived from raw bonded
  weights so that their total never exceeds the profile cap. Weights are \<open>u64\<close>, so the bounds also show
  that no step of the rule wraps.
\<close>

definition WEIGHT_CAP_B :: u64 where
  "WEIGHT_CAP_B = 65536"

datatype quant_error = Committee | QuantZeroWeight | QuantOverflow

fun total_weight :: "u64 \<Rightarrow> u64 list \<Rightarrow> quant_error + u64" where
  "total_weight acc [] = Inr acc"
| "total_weight acc (v # x) =
     (if v = 0 then Inl QuantZeroWeight
      else rbind (ok_or QuantOverflow (checked_add acc v)) (\<lambda>acc. total_weight acc x))"

definition div_ceil :: "'a::len word \<Rightarrow> 'a word \<Rightarrow> 'a word" where
  "div_ceil a b = (if a mod b > 0 then a div b + 1 else a div b)"

definition quantize :: "u64 list \<Rightarrow> u64 \<Rightarrow> quant_error + u64 list \<times> u64" where
  "quantize x b =
     (let n = of_nat (length x) in
      if n = 0 \<or> b \<le> n then Inl Committee
      else rbind (total_weight 0 x) (\<lambda>sum.
        if sum \<le> b then Inr (x, 1)
        else let room = b - n; s = div_ceil sum room in
          Inr (map (\<lambda>v. max (v div s) 1) x, s)))"

section \<open>Totals\<close>

definition weight_sum :: "u64 list \<Rightarrow> nat" where
  "weight_sum x = sum_list (map unat x)"

lemma weight_sum_simps [simp]: "weight_sum [] = 0" "weight_sum (v # x) = unat v + weight_sum x"
  by (simp_all add: weight_sum_def)

lemma total_weight_iff:
  "total_weight t x = Inr w \<longleftrightarrow> 0 \<notin> set x \<and> unat w = unat t + weight_sum x"
proof (induction x arbitrary: t)
  case Nil
  show ?case by (auto simp: word_unat_eq_iff)
next
  case (Cons v x)
  show ?case
  proof (cases "checked_add t v")
    case None
    then have "2 ^ 64 \<le> unat t + unat v" by (simp add: checked_add_def split: if_splits)
    then show ?thesis using unat_less_pow [of w] None by auto
  next
    case (Some u)
    then have "unat u = unat t + unat v" by (simp add: checked_add_Some_iff)
    with Some Cons.IH show ?thesis by auto
  qed
qed

lemma ceil_bounds:
  fixes a b :: nat
  assumes "0 < a" "0 < b"
  defines "s \<equiv> if a mod b = 0 then a div b else a div b + 1"
  shows "a \<le> s * b" "(s - 1) * b < a" "0 < s"
proof -
  define q r where "q = a div b" and "r = a mod b"
  then have a: "a = q * b + r" and r: "r < b" using assms(2) by (simp_all only: div_mult_mod_eq mod_less_divisor)
  have s: "s = (if r = 0 then q else q + 1)" by (simp add: s_def q_def r_def)
  show "0 < s" using assms(1) a by (auto simp: s)
  show "a \<le> s * b" using r by (auto simp: s a)
  show "(s - 1) * b < a" using assms(1,2) a by (cases "r = 0") (simp_all add: s diff_mult_distrib)
qed

lemma unat_div_ceil:
  assumes "b \<noteq> 0" "a \<noteq> (0 :: u64)"
  shows "unat (div_ceil a b) =
    (if unat a mod unat b = 0 then unat a div unat b else unat a div unat b + 1)"
proof (cases "unat a mod unat b = 0")
  case True
  then show ?thesis by (simp add: div_ceil_def word_less_nat_alt unat_mod unat_div)
next
  case False
  then have "unat b \<noteq> 1" by (metis mod_by_1)
  moreover have "0 < unat b" "0 < unat a" using assms by (simp_all add: unat_gt_0)
  ultimately have "unat a div unat b < unat a" by (intro div_less_dividend) linarith+
  then have "unat (a div b) + unat (1 :: u64) < 2 ^ LENGTH(64)"
    using unat_less_pow [of a] by (simp add: unat_div)
  then have "unat (a div b + 1) = unat a div unat b + 1" by (simp add: unat_add_exact unat_div)
  moreover have "0 < a mod b" using False by (simp add: word_less_nat_alt unat_mod)
  ultimately show ?thesis using False by (simp only: div_ceil_def if_True if_False)
qed

lemma floor_sum_le: "sum_list (map (\<lambda>v. v div s) xs) \<le> sum_list xs div (s :: nat)"
proof (induction xs)
  case (Cons v xs)
  have "v div s + sum_list xs div s \<le> (v + sum_list xs) div s"
    unfolding div_add1_eq [of v "sum_list xs" s] by simp
  with Cons show ?case by simp
qed simp

lemma floor_sum_ge: "sum_list xs \<le> Suc t * sum_list (map (\<lambda>v. v div Suc t) xs) + t * length xs"
proof (induction xs)
  case (Cons v xs)
  have "v = Suc t * (v div Suc t) + v mod Suc t" by (simp only: mult_div_mod_eq)
  moreover have "v mod Suc t \<le> t" using mod_less_divisor [of "Suc t" v] by simp
  ultimately have "v \<le> Suc t * (v div Suc t) + t" by linarith
  with Cons show ?case by (simp only: list.map sum_list.Cons distrib_left list.size mult_Suc_right)
qed simp

section \<open>The rule\<close>

lemma weight_sum_positive: "0 \<notin> set x \<Longrightarrow> length x \<le> weight_sum x"
proof (induction x)
  case (Cons v x)
  then have "0 < unat v" "length x \<le> weight_sum x" by (auto simp: unat_gt_0)
  then show ?case by simp
qed simp

lemma unat_quantized: "unat (max (v div s) 1 :: u64) = max (unat v div unat s) 1"
  by (auto simp: max_def word_le_nat_alt unat_div)

lemma quantize_iff:
  assumes "slice x"
  shows "quantize x b = Inr (q, s) \<longleftrightarrow>
    x \<noteq> [] \<and> length x < unat b \<and> 0 \<notin> set x \<and> weight_sum x < 2 ^ 64 \<and>
    (if weight_sum x \<le> unat b then q = x \<and> s = 1
     else s = div_ceil (of_nat (weight_sum x)) (b - of_nat (length x)) \<and> q = map (\<lambda>v. max (v div s) 1) x)"
proof -
  have n: "unat (of_nat (length x) :: u64) = length x"
    using assms by (simp add: slice_def unat_of_nat)
  then have n0: "(of_nat (length x) :: u64) = 0 \<longleftrightarrow> x = []"
    by (metis length_0_conv unat_0 unat_eq_zero)
  have le: "b \<le> of_nat (length x) \<longleftrightarrow> unat b \<le> length x" by (simp add: word_le_nat_alt n)
  have total: "total_weight 0 x = Inr w \<longleftrightarrow> 0 \<notin> set x \<and> weight_sum x < 2 ^ 64 \<and> w = of_nat (weight_sum x)" for w
    using unat_less_pow [of w] by (auto simp: total_weight_iff unat_of_nat word_unat_eq_iff)
  have "unat (of_nat (weight_sum x) :: u64) = weight_sum x" if "weight_sum x < 2 ^ 64"
    using that by (simp add: unat_of_nat)
  then show ?thesis
    by (auto simp: quantize_def Let_def n n0 rbind_Inr_iff total word_le_nat_alt)
qed

text \<open>The divisor of a scaled committee, as the ceiling it is.\<close>

lemma quantize_scaled:
  assumes "slice x" "quantize x b = Inr (q, s)" "unat b < weight_sum x"
  shows "length x < unat b" "q = map (\<lambda>v. max (v div s) 1) x" "0 < unat s"
    "weight_sum x \<le> unat s * (unat b - length x)" "(unat s - 1) * (unat b - length x) < weight_sum x"
proof -
  let ?w = "of_nat (weight_sum x) :: u64" and ?room = "b - of_nat (length x) :: u64"
  have n: "unat (of_nat (length x) :: u64) = length x" using assms(1) by (simp add: slice_def unat_of_nat)
  from assms have w: "unat ?w = weight_sum x" and s: "s = div_ceil ?w ?room"
    by (auto simp: quantize_iff unat_of_nat)
  from assms show len: "length x < unat b" and "q = map (\<lambda>v. max (v div s) 1) x"
    by (auto simp: quantize_iff)
  have room: "unat ?room = unat b - length x"
    using len by (simp add: unat_sub_exact word_le_nat_alt n)
  have nz: "?room \<noteq> 0" "?w \<noteq> 0"
    using len assms(3) room w by (metis unat_0 diff_is_0_eq not_le, metis unat_0 not_less_zero)
  show "0 < unat s" "weight_sum x \<le> unat s * (unat b - length x)"
      "(unat s - 1) * (unat b - length x) < weight_sum x"
    using ceil_bounds [of "weight_sum x" "unat b - length x"] len assms(3)
    by (auto simp: s unat_div_ceil [OF nz] w room)
qed

lemma quantize_total_le:
  assumes "slice x" "quantize x b = Inr (q, s)"
  shows "weight_sum q \<le> unat b"
proof (cases "weight_sum x \<le> unat b")
  case True
  with assms show ?thesis by (simp add: quantize_iff)
next
  case False
  with quantize_scaled [OF assms] have len: "length x < unat b" and q: "q = map (\<lambda>v. max (v div s) 1) x"
    and ceil: "weight_sum x \<le> unat s * (unat b - length x)" "0 < unat s" by simp_all
  have "weight_sum q = sum_list (map (\<lambda>v. max (unat v div unat s) 1) x)"
    by (simp add: q weight_sum_def o_def unat_quantized)
  also have "\<dots> \<le> sum_list (map (\<lambda>v. unat v div unat s + 1) x)"
    by (rule sum_list_mono) simp
  also have "\<dots> = sum_list (map (\<lambda>v. v div unat s) (map unat x)) + length x"
    by (induction x) simp_all
  also have "\<dots> \<le> weight_sum x div unat s + length x"
    using floor_sum_le [of "unat s" "map unat x"] by (simp add: weight_sum_def)
  also have "weight_sum x div unat s \<le> unat b - length x"
    using ceil by (metis div_le_mono nonzero_mult_div_cancel_left not_gr_zero)
  finally show ?thesis using len by simp
qed

lemma span_arith:
  fixes t b n X :: nat
  assumes "1 \<le> t" "t * (b - n) < X" "b < X" "4 * n + 3 \<le> b"
  shows "Suc t * (b + 1) \<le> 2 * X"
proof (cases "t = 1")
  case False
  with assms(1) obtain k where t: "t = k + 2" by (metis add.commute le_Suc_ex le_neq_implies_less Suc_1 Suc_leI)
  from assms(4) obtain m where b: "b = 4 * n + 3 + m" by (metis le_Suc_ex)
  have "Suc t * (b + 1) \<le> 2 * (t * (b - n) + 1)" by (simp add: t b algebra_simps)
  also have "\<dots> \<le> 2 * X" using assms(2) by (intro mult_le_mono2) simp
  finally show ?thesis .
qed (use assms in simp)

lemma quantize_total_ge:
  assumes "slice x" "quantize x b = Inr (q, s)" "unat b < weight_sum x" "4 * length x + 3 \<le> unat b"
  shows "unat b + 1 < 2 * (weight_sum q + length x)"
proof -
  note scaled = quantize_scaled [OF assms(1-3)]
  have ne: "x \<noteq> []" using assms(1,2) by (simp add: quantize_iff)
  obtain t where t: "unat s = Suc t" using scaled(3) by (cases "unat s") auto
  have "t \<noteq> 0" using scaled(4) assms(3) t by (intro notI) simp
  have le: "sum_list (map (\<lambda>v. unat v div Suc t) x) \<le> weight_sum q"
    by (simp add: scaled(2) weight_sum_def o_def unat_quantized t sum_list_mono)
  have "weight_sum x \<le> Suc t * sum_list (map (\<lambda>v. unat v div Suc t) x) + t * length x"
    using floor_sum_ge [of "map unat x" t] by (simp add: weight_sum_def o_def)
  also have "\<dots> \<le> Suc t * weight_sum q + t * length x"
    using le by (intro add_right_mono mult_le_mono2)
  finally have "weight_sum x \<le> Suc t * weight_sum q + t * length x" .
  moreover have "0 < length x" using ne by simp
  ultimately have "weight_sum x < Suc t * (weight_sum q + length x)" by (simp only: distrib_left mult_Suc)
  then have "2 * weight_sum x < 2 * (Suc t * (weight_sum q + length x))" by (simp only: mult_less_mono2 zero_less_numeral)
  moreover have "Suc t * (unat b + 1) \<le> 2 * weight_sum x"
    using span_arith [of t "unat b" "length x" "weight_sum x"] scaled(5) t assms(3,4) \<open>t \<noteq> 0\<close> by simp
  ultimately have "Suc t * (unat b + 1) < 2 * (Suc t * (weight_sum q + length x))" by (rule le_less_trans [rotated])
  then have "Suc t * (unat b + 1) < Suc t * (2 * (weight_sum q + length x))" by (simp only: mult.left_commute)
  then show ?thesis by (simp only: nat_mult_less_cancel_disj)
qed

lemma quantize_divisor:
  assumes "slice x" "quantize x b = Inr (q, s)"
  shows "q = x \<and> s = 1 \<or> 0 < unat s \<and> q = map (\<lambda>v. max (v div s) 1) x"
  using assms quantize_scaled [OF assms] by (cases "weight_sum x \<le> unat b") (simp_all add: quantize_iff)

text \<open>Each committed weight is within one unit of the raw weight over the divisor.\<close>

lemma quantized_error:
  assumes "0 < v" "0 < s"
  shows "\<bar>real (max (v div s) 1) - real v / real s\<bar> < 1"
proof -
  have "real v / real s < real (v div s) + 1" "real (v div s) \<le> real v / real s"
    using floor_divide_of_nat_eq [of v s, where ?'a = real] by linarith+
  moreover have "0 < real v / real s" using assms by simp
  ultimately show ?thesis by (cases "v div s = 0") (auto simp: max_def)
qed

definition weight_at :: "nat set \<Rightarrow> u64 list \<Rightarrow> nat" where
  "weight_at S x = (\<Sum>i\<in>S. unat (x ! i))"

lemma weight_at_all: "weight_at {..<length x} x = weight_sum x"
  by (simp add: weight_at_def weight_sum_def sum_list_sum_nth lessThan_atLeast0)

text \<open>
  A share of sums of perturbed terms: when \<open>q i = x i / s + e i\<close> with every error below one, the share of
  a subset moves by less than twice the size of the set over the perturbed total.
\<close>

lemma share_shift:
  fixes q x :: "nat \<Rightarrow> real"
  assumes S: "S \<subseteq> {..<n}" and n: "0 < n" and x: "\<And>i. i < n \<Longrightarrow> 0 < x i" and q: "\<And>i. i < n \<Longrightarrow> 0 < q i"
    and e: "\<And>i. i < n \<Longrightarrow> \<bar>q i - x i / s\<bar> < 1"
  shows "\<bar>sum q S / sum q {..<n} - sum x S / sum x {..<n}\<bar> < 2 * n / sum q {..<n}"
proof -
  define d where "d i = q i - x i / s" for i
  have q_d: "sum q A = sum x A / s + sum d A" for A
    by (simp add: d_def sum_subtractf sum_divide_distrib)
  have pos: "0 < sum x {..<n}" "0 < sum q {..<n}" using n x q by (auto intro!: sum_pos)
  have fin: "finite S" using S finite_subset by blast
  have dS: "\<bar>sum d S\<bar> \<le> n"
  proof -
    have "\<bar>sum d S\<bar> \<le> (\<Sum>i\<in>S. \<bar>d i\<bar>)" by (rule sum_abs)
    also have "\<dots> \<le> (\<Sum>i\<in>S. 1)" using S e by (intro sum_mono) (force simp: d_def)
    also have "\<dots> \<le> n" using card_mono [OF _ S] by simp
    finally show ?thesis .
  qed
  have dn: "\<bar>sum d {..<n}\<bar> < n"
  proof -
    have "\<bar>sum d {..<n}\<bar> \<le> (\<Sum>i<n. \<bar>d i\<bar>)" by (rule sum_abs)
    also have "\<dots> < (\<Sum>i<n. 1)" using n e by (intro sum_strict_mono) (auto simp: d_def)
    finally show ?thesis by simp
  qed
  have xS: "0 \<le> sum x S" "sum x S \<le> sum x {..<n}"
    using S x by (force intro!: sum_nonneg dest: x, intro sum_mono2) (force dest: x)+
  define r where "r = sum x S / sum x {..<n}"
  have r: "0 \<le> r" "r \<le> 1" using xS pos by (simp_all add: r_def)
  have "sum q S - r * sum q {..<n} = sum d S - r * sum d {..<n}"
    using pos by (simp add: q_d r_def field_simps)
  moreover have "\<bar>r * sum d {..<n}\<bar> < n"
    using r dn n mult_left_le_one_le [of "\<bar>sum d {..<n}\<bar>" r] by (simp add: abs_mult)
  ultimately have "\<bar>sum q S - r * sum q {..<n}\<bar> < 2 * n" using dS by linarith
  moreover have "sum q S / sum q {..<n} - r = (sum q S - r * sum q {..<n}) / sum q {..<n}"
    using pos by (simp add: field_simps)
  ultimately show ?thesis using pos by (simp add: r_def abs_divide divide_strict_right_mono)
qed

lemma sample_quantize: "quantize [40000, 60000, 1] WEIGHT_CAP_B = Inr ([20000, 30000, 1], 2)"
  by (simp add: quantize_def WEIGHT_CAP_B_def checked_add_def div_ceil_def Let_def max_def word_le_nat_alt)

section \<open>Properties\<close>

text \<open>
  Claim C19. Quantization keeps every member and never inflates or drops one: each committed weight is at
  least one and at most the raw weight, and the committed total is within the cap, for every committee
  the rule accepts. It accepts exactly the non-empty committees smaller than the cap whose weights are
  positive and whose raw total fits \<open>u64\<close>.
\<close>

theorem quantize_within_cap:
  assumes "slice x"
  shows "(is_ok (quantize x b) \<longleftrightarrow>
      x \<noteq> [] \<and> length x < unat b \<and> 0 \<notin> set x \<and> weight_sum x < 2 ^ 64) \<and>
    (\<forall>q s. quantize x b = Inr (q, s) \<longrightarrow>
      weight_sum q \<le> unat b \<and> length q = length x \<and> (\<forall>i < length x. 1 \<le> q ! i \<and> q ! i \<le> x ! i))"
proof (intro conjI allI impI)
  have "is_ok (quantize x b) \<longleftrightarrow> (\<exists>q s. quantize x b = Inr (q, s))" by (auto elim: is_okE)
  then show "is_ok (quantize x b) \<longleftrightarrow>
      x \<noteq> [] \<and> length x < unat b \<and> 0 \<notin> set x \<and> weight_sum x < 2 ^ 64"
    by (cases "weight_sum x \<le> unat b") (auto simp: quantize_iff [OF assms])
next
  fix q s
  assume q: "quantize x b = Inr (q, s)"
  then show "weight_sum q \<le> unat b" by (rule quantize_total_le [OF assms])
  show "length q = length x" using q by (auto simp: quantize_iff [OF assms] split: if_splits)
  fix i
  assume i: "i < length x"
  have pos: "0 < unat (x ! i)" using q i by (auto simp: quantize_iff [OF assms] unat_gt_0 in_set_conv_nth)
  have "q = x \<or> q ! i = max (x ! i div s) 1"
    using q i by (auto simp: quantize_iff [OF assms] split: if_splits)
  then show "1 \<le> q ! i" and "q ! i \<le> x ! i"
    using pos by (auto simp: word_le_nat_alt unat_quantized Suc_le_eq)
qed

theorem quantize_within_cap_witness:
  "quantize [40000, 60000, 1] WEIGHT_CAP_B = Inr ([20000, 30000, 1], 2) \<and>
   weight_sum [20000, 30000, 1] \<le> unat WEIGHT_CAP_B"
proof -
  from quantize_within_cap [of "[40000, 60000, 1]" WEIGHT_CAP_B] sample_quantize show ?thesis
    by (simp add: slice_def)
qed

text \<open>
  Claim C20. Quantization does not collapse the committed total: when the raw total exceeds the cap \<open>b\<close> of a
  committee of \<open>n\<close> members with \<open>4n + 3 <= b\<close>, the committed total is above \<open>(b + 1)/2 - n\<close>, the bound the
  security argument of the rule rests on.
\<close>

theorem quantize_keeps_resolution:
  assumes "slice x" "quantize x b = Inr (q, s)" "unat b < weight_sum x" "4 * length x + 3 \<le> unat b"
  shows "unat b + 1 < 2 * (weight_sum q + length x)"
  using assms by (rule quantize_total_ge)

theorem quantize_keeps_resolution_witness:
  "unat WEIGHT_CAP_B + 1 < 2 * (weight_sum [20000, 30000, 1] + length [40000, 60000, 1 :: u64])"
proof (rule quantize_keeps_resolution)
  show "quantize [40000, 60000, 1] WEIGHT_CAP_B = Inr ([20000, 30000, 1], 2)"
    by (rule sample_quantize)
qed (simp_all add: slice_def WEIGHT_CAP_B_def)

text \<open>
  Claim C21. The security premise of the rule: quantization moves the share of any subset of the committee by
  less than \<open>2n\<close> over the committed total, so a coalition below a third of the bonded weight by that margin
  stays below a third of the committed weight.
\<close>

theorem quantize_share_shift:
  assumes "slice x" "quantize x b = Inr (q, s)" "S \<subseteq> {..<length x}"
  shows "\<bar>real (weight_at S q) / real (weight_sum q) - real (weight_at S x) / real (weight_sum x)\<bar>
    < 2 * real (length x) / real (weight_sum q)"
proof -
  have ok: "x \<noteq> []" "0 \<notin> set x" "length q = length x"
    using assms(1,2) by (auto simp: quantize_iff split: if_splits)
  have x: "0 < unat (x ! i)" if "i < length x" for i
    using ok that by (metis nth_mem unat_gt_0)
  have s: "0 < unat s \<and> q ! i = max (x ! i div s) 1 \<or> q ! i = x ! i \<and> unat s = 1" if "i < length x" for i
    using quantize_divisor [OF assms(1,2)] that by auto
  have q: "unat (q ! i) = max (unat (x ! i) div unat s) 1" "0 < unat s" if "i < length x" for i
    using s [OF that] x [OF that] by (auto simp: unat_quantized)
  have "\<bar>sum (\<lambda>i. real (unat (q ! i))) S / sum (\<lambda>i. real (unat (q ! i))) {..<length x} -
      sum (\<lambda>i. real (unat (x ! i))) S / sum (\<lambda>i. real (unat (x ! i))) {..<length x}\<bar>
    < 2 * real (length x) / sum (\<lambda>i. real (unat (q ! i))) {..<length x}"
    using assms(3) ok(1) x q by (intro share_shift [where s = "real (unat s)"]) (auto simp: quantized_error simp del: of_nat_unat One_nat_def)
  then show ?thesis
    by (simp flip: weight_at_all add: weight_at_def ok(3) del: of_nat_unat)
qed

theorem quantize_share_shift_witness:
  "\<bar>real (weight_at {0} [20000, 30000, 1]) / real (weight_sum [20000, 30000, 1]) -
     real (weight_at {0} [40000, 60000, 1]) / real (weight_sum [40000, 60000, 1])\<bar>
   < 2 * real (length [40000, 60000, 1 :: u64]) / real (weight_sum [20000, 30000, 1])"
  by (rule quantize_share_shift [OF _ sample_quantize]) (simp_all add: slice_def)

end
