(* ===== verification/Update_Codec.thy ===== *)
theory Update_Codec
  imports Canonical_Cbor
begin

text \<open>
  The canonical bytes of the committed B1 update, \<open>execution/src/update.rs\<close>: the writer, the
  schema-directed reader with its token counter, and the parser that both scans and decodes. The main
  result is that the parser accepts exactly the canonical bytes of a bounded update and counts its members,
  and what its token limit has to be for no such update to be refused.
\<close>

section \<open>Types\<close>

definition UPDATE_DOMAIN :: bytes where
  "UPDATE_DOMAIN = ascii ''UNICITY_B1_UPDATE''"

definition MAX_MEMBERS :: u64 where
  "MAX_MEMBERS = 16"

definition MAX_NODE_ID_BYTES :: u64 where
  "MAX_NODE_ID_BYTES = 128"

record b1_member =
  mb_node_id :: bytes
  mb_key :: bytes
  mb_weight :: u64

record b1_entry =
  en_epoch :: u64
  en_body_kind :: u64
  en_body_id :: b256
  en_activation_commit_id :: b256
  en_start :: u64
  en_end :: "u64 option"
  en_signing_scheme :: u64
  en_signing_config_hash :: b256
  en_members :: "b1_member list"

record b1_update =
  up_network :: u16
  up_root_genesis_id :: b256
  up_execution_chain_id :: u64
  up_profile_hash :: b256
  up_parent_hash :: b256
  up_block_number :: u64
  up_origin_epoch :: u64
  up_origin_round :: u64
  up_origin_identity :: b256
  up_prior_tip_epoch :: u64
  up_old_tip_end :: "u64 option"
  up_new_entries :: "b1_entry list"

datatype update_error =
    UnmeasuredEpochs u64 | EpochsBelowSpan u64 | UpdateOverflow | UpdateTooLarge nat u64
  | UpdateScanBudget | MemberBudget | Encoding | CommittedHashMismatch
  | UpNetworkMismatch | UpRootGenesisMismatch | ChainMismatch | ProfileMismatch | ParentMismatch
  | BlockNumberMismatch | UpOriginEpochMismatch | UpOriginRoundMismatch | OriginIdentityMismatch
  | EntryIdentity | MembersNotSorted | InvalidKey | DuplicateKey | ZeroWeight | WeightOverflow | WeightCap
  | EmptyInterval | GenesisKindInUpdate | EpochNotNewer | StartAfterOrigin | EndAfterOrigin | NotContiguous
  | OldTipEndMismatch | TailNotOrigin | EmptyUpdateMismatch

section \<open>Writer\<close>

definition update_head :: "u8 \<Rightarrow> u64 \<Rightarrow> bytes" where
  "update_head kind value =
     (let m = push_bit 5 kind in
      if value \<le> 23 then [m OR ucast value]
      else if value \<le> 0xff then [m OR 24, ucast value]
      else if value \<le> 0xffff then (m OR 25) # to_be 2 (ucast value :: u16)
      else if value \<le> 0xffffffff then (m OR 26) # to_be 4 (ucast value :: u32)
      else (m OR 27) # to_be 8 value)"

definition update_optional :: "u64 option \<Rightarrow> bytes" where
  "update_optional value = (case value of Some v \<Rightarrow> update_head 0 v | None \<Rightarrow> [0xf6])"

definition update_hash32 :: "b256 \<Rightarrow> bytes" where
  "update_hash32 h = update_head 2 32 @ b256_bytes h"

definition member_to_bytes :: "b1_member \<Rightarrow> bytes" where
  "member_to_bytes m =
     update_head 4 3 @ update_head 3 (of_nat (length (mb_node_id m))) @ mb_node_id m @
     update_head 2 33 @ mb_key m @ update_head 0 (mb_weight m)"

definition entry_to_bytes :: "b1_entry \<Rightarrow> bytes" where
  "entry_to_bytes e =
     update_head 4 9 @ update_head 0 (en_epoch e) @ update_head 0 (en_body_kind e) @
     update_hash32 (en_body_id e) @ update_hash32 (en_activation_commit_id e) @
     update_head 0 (en_start e) @ update_optional (en_end e) @ update_head 0 (en_signing_scheme e) @
     update_hash32 (en_signing_config_hash e) @
     update_head 4 (of_nat (length (en_members e))) @ concat (map member_to_bytes (en_members e))"

definition update_to_bytes :: "b1_update \<Rightarrow> bytes" where
  "update_to_bytes u =
     update_head 4 13 @ update_head 3 (of_nat (length UPDATE_DOMAIN)) @ UPDATE_DOMAIN @
     update_head 0 (ucast (up_network u)) @ update_hash32 (up_root_genesis_id u) @
     update_head 0 (up_execution_chain_id u) @ update_hash32 (up_profile_hash u) @
     update_hash32 (up_parent_hash u) @ update_head 0 (up_block_number u) @
     update_head 0 (up_origin_epoch u) @ update_head 0 (up_origin_round u) @
     update_hash32 (up_origin_identity u) @ update_head 0 (up_prior_tip_epoch u) @
     update_optional (up_old_tip_end u) @
     update_head 4 (of_nat (length (up_new_entries u))) @ concat (map entry_to_bytes (up_new_entries u))"

definition update_hash :: "(bytes \<Rightarrow> b256) \<Rightarrow> b1_update \<Rightarrow> b256" where
  "update_hash sha256 u = sha256 (update_to_bytes u)"

section \<open>Reader\<close>

record ureader =
  ur_bytes :: bytes
  ur_pos :: nat
  ur_tokens :: u64
  ur_limit :: u64

type_synonym 'a uread = "ureader \<Rightarrow> update_error + 'a \<times> ureader"

definition ur_head :: "(u8 \<times> u64) uread" where
  "ur_head r =
     (let r = r\<lparr>ur_tokens := ur_tokens r + 1\<rparr> in
      if ur_limit r < ur_tokens r then Inl Encoding
      else if length (ur_bytes r) \<le> ur_pos r then Inl Encoding
      else let first = ur_bytes r ! ur_pos r; r = r\<lparr>ur_pos := ur_pos r + 1\<rparr>;
        kind = drop_bit 5 first; info = first AND 31 in
      if info < 24 then Inr ((kind, ucast info), r)
      else if 27 < info then Inl Encoding
      else let n = 2 ^ (unat info - 24) in
      if length (ur_bytes r) < ur_pos r + n then Inl Encoding
      else let raw = take n (drop (ur_pos r) (ur_bytes r)); r = r\<lparr>ur_pos := ur_pos r + n\<rparr>;
        value = fold_be raw;
        minimal = (if n = 1 then 24 \<le> value else if n = 2 then 0xff < value
          else if n = 4 then 0xffff < value else 0xffffffff < value) in
      if \<not> minimal then Inl Encoding else Inr ((kind, value), r))"

definition ur_arity :: "u64 \<Rightarrow> unit uread" where
  "ur_arity n r = rbind (ur_head r) (\<lambda>((kind, v), r). if kind = 4 \<and> v = n then Inr ((), r) else Inl Encoding)"

definition ur_uint :: "u64 uread" where
  "ur_uint r = rbind (ur_head r) (\<lambda>((kind, v), r). if kind = 0 then Inr (v, r) else Inl Encoding)"

definition ur_string :: "u8 \<Rightarrow> u64 \<Rightarrow> u64 \<Rightarrow> bytes uread" where
  "ur_string kind least most r =
     rbind (ur_head r) (\<lambda>((m, n), r).
     if m \<noteq> kind \<or> n < least \<or> most < n \<or> length (ur_bytes r) - ur_pos r < unat n then Inl Encoding
     else let out = take (unat n) (drop (ur_pos r) (ur_bytes r)); r = r\<lparr>ur_pos := ur_pos r + unat n\<rparr> in
     if kind = 3 \<and> \<not> utf8_valid out then Inl Encoding else Inr (out, r))"

definition ur_hash :: "b256 uread" where
  "ur_hash r = rbind (ur_string 2 32 32 r) (\<lambda>(bs, r). Inr (from_be bs, r))"

definition ur_optional :: "u64 option uread" where
  "ur_optional r =
     (if ur_pos r < length (ur_bytes r) \<and> ur_bytes r ! ur_pos r = 0xf6 then
        let r = r\<lparr>ur_tokens := ur_tokens r + 1, ur_pos := ur_pos r + 1\<rparr> in
        if ur_limit r < ur_tokens r then Inl Encoding else Inr (None, r)
      else rbind (ur_uint r) (\<lambda>(v, r). Inr (Some v, r)))"

section \<open>Parser\<close>

definition parse_member :: "b1_member uread" where
  "parse_member r =
     rbind (ur_arity 3 r) (\<lambda>(_, r).
     rbind (ur_string 3 1 MAX_NODE_ID_BYTES r) (\<lambda>(node_id, r).
     rbind (ur_string 2 33 33 r) (\<lambda>(key, r).
     rbind (ur_uint r) (\<lambda>(weight, r).
     Inr (\<lparr>mb_node_id = node_id, mb_key = key, mb_weight = weight\<rparr>, r)))))"

text \<open>
  With \<open>decode\<close> unset nothing is collected. The conversions of the decoded identifier and key cannot fail
  after the checks of \<open>string\<close>; they are the guards of the collecting branch.
\<close>

fun parse_members :: "bool \<Rightarrow> nat \<Rightarrow> b1_member list \<Rightarrow> b1_member list uread" where
  "parse_members decode 0 out r = Inr (out, r)"
| "parse_members decode (Suc n) out r =
     rbind (parse_member r) (\<lambda>(m, r).
     if decode \<and> (\<not> utf8_valid (mb_node_id m) \<or> length (mb_key m) \<noteq> 33) then Inl Encoding
     else parse_members decode n (if decode then out @ [m] else out) r)"

text \<open>One turn of the entry loop: the entry (without members when not decoding) and its member count.\<close>

definition parse_entry :: "bool \<Rightarrow> (b1_entry \<times> u64) uread" where
  "parse_entry decode r =
     rbind (ur_arity 9 r) (\<lambda>(_, r).
     rbind (ur_uint r) (\<lambda>(epoch, r).
     rbind (ur_uint r) (\<lambda>(body_kind, r).
     rbind (ur_hash r) (\<lambda>(body_id, r).
     rbind (ur_hash r) (\<lambda>(activation_commit_id, r).
     rbind (ur_uint r) (\<lambda>(start, r).
     rbind (ur_optional r) (\<lambda>(end, r).
     rbind (ur_uint r) (\<lambda>(signing_scheme, r).
     rbind (ur_hash r) (\<lambda>(signing_config_hash, r).
     rbind (ur_head r) (\<lambda>((kind, n), r).
     if kind \<noteq> 4 \<or> n = 0 \<or> MAX_MEMBERS < n \<or> length (ur_bytes r) - ur_pos r < unat n then Inl Encoding else
     rbind (parse_members decode (unat n) [] r) (\<lambda>(members, r).
     Inr ((\<lparr>en_epoch = epoch, en_body_kind = body_kind, en_body_id = body_id,
       en_activation_commit_id = activation_commit_id, en_start = start, en_end = end,
       en_signing_scheme = signing_scheme, en_signing_config_hash = signing_config_hash,
       en_members = members\<rparr>, n), r))))))))))))"

fun parse_entries :: "bool \<Rightarrow> nat \<Rightarrow> b1_entry list \<Rightarrow> u64 \<Rightarrow> (b1_entry list \<times> u64) uread" where
  "parse_entries decode 0 entries tot r = Inr ((entries, tot), r)"
| "parse_entries decode (Suc n) entries tot r =
     rbind (parse_entry decode r) (\<lambda>((e, members), r).
     parse_entries decode n (if decode then entries @ [e] else entries) (tot + members) r)"

definition parse_update :: "bytes \<Rightarrow> u64 \<Rightarrow> u64 \<Rightarrow> bool \<Rightarrow> update_error + b1_update option \<times> u64" where
  "parse_update raw max_entries token_limit decode =
     (let r = \<lparr>ur_bytes = raw, ur_pos = 0, ur_tokens = 0, ur_limit = token_limit\<rparr> in
     rbind (ur_arity 13 r) (\<lambda>(_, r).
     rbind (ur_string 3 (of_nat (length UPDATE_DOMAIN)) (of_nat (length UPDATE_DOMAIN)) r) (\<lambda>(domain, r).
     if domain \<noteq> UPDATE_DOMAIN then Inl Encoding else
     rbind (ur_uint r) (\<lambda>(network, r).
     if 0xffff < network then Inl Encoding else
     rbind (ur_hash r) (\<lambda>(root_genesis_id, r).
     rbind (ur_uint r) (\<lambda>(execution_chain_id, r).
     rbind (ur_hash r) (\<lambda>(profile_hash, r).
     rbind (ur_hash r) (\<lambda>(parent_hash, r).
     rbind (ur_uint r) (\<lambda>(block_number, r).
     rbind (ur_uint r) (\<lambda>(origin_epoch, r).
     rbind (ur_uint r) (\<lambda>(origin_round, r).
     rbind (ur_hash r) (\<lambda>(origin_identity, r).
     rbind (ur_uint r) (\<lambda>(prior_tip_epoch, r).
     rbind (ur_optional r) (\<lambda>(old_tip_end, r).
     rbind (ur_head r) (\<lambda>((kind, count), r).
     if kind \<noteq> 4 \<or> max_entries < count \<or> length raw - ur_pos r < unat count then Inl Encoding else
     rbind (parse_entries decode (unat count) [] 0 r) (\<lambda>((entries, tot), r).
     if ur_pos r \<noteq> length raw then Inl Encoding else
     Inr (if decode then Some \<lparr>up_network = ucast network, up_root_genesis_id = root_genesis_id,
         up_execution_chain_id = execution_chain_id, up_profile_hash = profile_hash,
         up_parent_hash = parent_hash, up_block_number = block_number, up_origin_epoch = origin_epoch,
         up_origin_round = origin_round, up_origin_identity = origin_identity,
         up_prior_tip_epoch = prior_tip_epoch, up_old_tip_end = old_tip_end, up_new_entries = entries\<rparr>
       else None, tot)))))))))))))))))"

section \<open>Counting reads\<close>

definition ur_reader :: "ureader \<Rightarrow> reader" where
  "ur_reader r = \<lparr>rd_bytes = ur_bytes r, rd_offset = ur_pos r\<rparr>"

text \<open>\<open>ureads r (xs, k) r'\<close>: the reader moved over the bytes \<open>xs\<close> and counted \<open>k\<close> tokens within its limit.\<close>

definition ureads :: "ureader \<Rightarrow> bytes \<times> nat \<Rightarrow> ureader \<Rightarrow> bool" where
  "ureads r c r' \<longleftrightarrow>
     reads (ur_reader r) (fst c) (ur_reader r') \<and> ur_limit r' = ur_limit r \<and>
     unat (ur_tokens r') = unat (ur_tokens r) + snd c \<and> ur_tokens r' \<le> ur_limit r"

definition ushort :: "ureader \<Rightarrow> bool" where
  "ushort r \<longleftrightarrow> short (ur_reader r) \<and> ur_tokens r \<le> ur_limit r \<and> unat (ur_limit r) < 2 ^ 64 - 1"

definition capp :: "bytes \<times> nat \<Rightarrow> bytes \<times> nat \<Rightarrow> bytes \<times> nat" where
  "capp c d = (fst c @ fst d, snd c + snd d)"

lemma capp_pair [simp]: "capp (xs, j) (ys, k) = (xs @ ys, j + k)"
  by (simp add: capp_def)

interpretation ur: consumer ureads ushort capp "([], 0)"
proof (unfold_locales, goal_cases)
  case (1 r x y r'')
  show ?case
  proof
    assume h: "ureads r (capp x y) r''"
    then obtain rr where rr: "reads (ur_reader r) (fst x) rr" "reads rr (fst y) (ur_reader r'')"
      by (auto simp: ureads_def capp_def reads_append_iff)
    let ?t = "of_nat (unat (ur_tokens r) + snd x) :: u64"
    let ?r' = "\<lparr>ur_bytes = ur_bytes r, ur_pos = rd_offset rr, ur_tokens = ?t, ur_limit = ur_limit r\<rparr>"
    have "unat (ur_tokens r) + snd x \<le> unat (ur_tokens r'')" using h by (simp add: ureads_def capp_def)
    then have "unat (ur_tokens r) + snd x < 2 ^ LENGTH(64)" by (rule le_less_trans) (rule unat_less_pow)
    then have t: "unat ?t = unat (ur_tokens r) + snd x" by (simp only: unat_of_nat mod_less)
    have "rr = ur_reader ?r'" using rr(1) by (cases rr) (simp add: reads_def ur_reader_def)
    then have "ureads r x ?r'" "ureads ?r' y r''"
      using h rr t by (auto simp: ureads_def capp_def word_le_nat_alt)
    then show "\<exists>r'. ureads r x r' \<and> ureads r' y r''" by blast
  next
    assume "\<exists>r'. ureads r x r' \<and> ureads r' y r''"
    then show "ureads r (capp x y) r''" by (auto simp: ureads_def capp_def reads_append_iff)
  qed
next
  case (2 r r')
  then show ?case
    by (cases r; cases r') (auto simp: ureads_def ushort_def ur_reader_def word_unat_eq_iff word_le_nat_alt)
next
  case (3 r x r')
  then show ?case by (auto simp: ureads_def ushort_def dest: reads_short)
qed

lemma prefix_split: "ys = xs @ drop (length xs) ys \<longleftrightarrow> xs = take (length xs) ys"
  by (metis append_eq_conv_conj append_take_drop_id)

lemma token_counted:
  assumes "ushort r"
  shows "unat (ur_tokens r + 1) = unat (ur_tokens r) + 1"
proof -
  have "unat (ur_tokens r) + unat (1 :: u64) < 2 ^ LENGTH(64)"
    using assms by (simp add: ushort_def word_le_nat_alt)
  then show ?thesis by (simp add: unat_add_exact)
qed

lemma ur_reader_moves:
  "reads (ur_reader r) xs (ur_reader r') \<longleftrightarrow> ur_bytes r' = ur_bytes r \<and>
      ur_pos r' = ur_pos r + length xs \<and> ur_pos r + length xs \<le> length (ur_bytes r) \<and>
      xs = take (length xs) (drop (ur_pos r) (ur_bytes r))"
  using prefix_split [of "drop (ur_pos r) (ur_bytes r)" xs]
  by (auto simp: reads_def ur_reader_def add.commute)

lemma ureads_none:
  assumes "ushort r"
  shows "ureads r (xs, 0) r' \<longleftrightarrow> length xs \<le> length (ur_bytes r) - ur_pos r \<and>
    xs = take (length xs) (drop (ur_pos r) (ur_bytes r)) \<and> r' = r\<lparr>ur_pos := ur_pos r + length xs\<rparr>"
  using assms ur_reader_moves [of r xs r']
  by (cases r; cases r') (auto simp: ureads_def ushort_def short_def ur_reader_def word_le_nat_alt word_unat_eq_iff)

lemma ureads_one:
  assumes "ushort r"
  shows "ureads r (xs, 1) r' \<longleftrightarrow> ur_tokens r < ur_limit r \<and> ur_pos r + length xs \<le> length (ur_bytes r) \<and>
    xs = take (length xs) (drop (ur_pos r) (ur_bytes r)) \<and>
    r' = r\<lparr>ur_pos := ur_pos r + length xs, ur_tokens := ur_tokens r + 1\<rparr>"
proof -
  note t = token_counted [OF assms]
  note ur_reader_moves [of r xs r']
  then show ?thesis
    using t by (cases r; cases r') (auto simp: ureads_def word_less_nat_alt word_le_nat_alt word_unat_eq_iff)
qed

lemma ur_head_iff:
  assumes "ushort r"
  shows "ur_head r = Inr ((k, v), r') \<longleftrightarrow> k < 8 \<and> ureads r (major k v, 1) r'"
proof -
  let ?bs = "ur_bytes r" and ?p = "ur_pos r"
  have limit: "ur_limit r < ur_tokens r + 1 \<longleftrightarrow> \<not> ur_tokens r < ur_limit r"
    using token_counted [OF assms] by (simp add: word_less_nat_alt not_less Suc_le_eq less_Suc_eq_le)
  have "ur_head r = Inr ((k, v), r') \<longleftrightarrow> ur_tokens r < ur_limit r \<and> ?p < length ?bs \<and>
      (\<exists>xs. folded_head (?bs ! ?p) xs k v \<and> ?p + 1 + length xs \<le> length ?bs \<and>
        xs = take (length xs) (drop (?p + 1) ?bs) \<and>
        r' = r\<lparr>ur_pos := ?p + 1 + length xs, ur_tokens := ur_tokens r + 1\<rparr>)"
  proof (cases "ur_tokens r < ur_limit r \<and> ?p < length ?bs")
    case True
    let ?i = "?bs ! ?p AND 31" and ?k = "drop_bit 5 (?bs ! ?p)" and ?n = "2 ^ (unat (?bs ! ?p AND 31) - 24)"
    show ?thesis
    proof (cases "?i < 24")
      case small: True
      then show ?thesis using True by (auto simp: ur_head_def Let_def limit folded_head_def)
    next
      case False
      let ?xs = "take ?n (drop (?p + 1) ?bs)"
      have "ur_head r = Inr ((k, v), r') \<longleftrightarrow> ?i \<le> 27 \<and> ?p + 1 + ?n \<le> length ?bs \<and>
          minimal_argument ?n (from_be ?xs) \<and> k = ?k \<and> v = from_be ?xs \<and>
          r' = r\<lparr>ur_pos := ?p + 1 + ?n, ur_tokens := ur_tokens r + 1\<rparr>"
        using True False
        by (simp add: ur_head_def Let_def limit minimal_argument_def fold_be_from_be not_less result_iff cong: if_cong) auto
      also have "\<dots> \<longleftrightarrow> (\<exists>xs. length xs = ?n \<and> (?i \<le> 27 \<and> v = from_be xs \<and> minimal_argument ?n v) \<and> k = ?k \<and>
          ?p + 1 + ?n \<le> length ?bs \<and> xs = ?xs \<and> r' = r\<lparr>ur_pos := ?p + 1 + ?n, ur_tokens := ur_tokens r + 1\<rparr>)"
        by auto
      finally show ?thesis using True False by (auto simp: folded_head_def Let_def intro!: exI [of _ ?xs])
    qed
  next
    case False
    then show ?thesis by (auto simp: ur_head_def Let_def limit)
  qed
  also have "\<dots> \<longleftrightarrow> k < 8 \<and> ureads r (major k v, 1) r'"
  proof -
    obtain b ys where m: "major k v = b # ys" by (simp add: major_split)
    have "drop ?p ?bs = ?bs ! ?p # drop (?p + 1) ?bs" if "?p < length ?bs"
      using that by (simp add: Cons_nth_drop_Suc)
    then show ?thesis unfolding ureads_one [OF assms] folded_head_iff m by auto
  qed
  finally show ?thesis .
qed

section \<open>Items\<close>

lemma update_head_major: "update_head = major"
  by (intro ext) (simp add: update_head_def major_def head_byte_def Let_def)

lemma update_hash32_word: "update_hash32 = put_word"
  by (intro ext) (simp add: update_hash32_def put_word_def put_bytes_def update_head_major)

interpretation ur_heads: consumer_item ureads ushort capp "([], 0)" "\<lambda>(k, v). (major k v, 1)" ur_head "\<lambda>(k, v). k < 8"
  by unfold_locales (auto simp: ur_head_iff)

interpretation ur_arities: consumer_item ureads ushort capp "([], 0)" "\<lambda>_. (major 4 n, 1)" "ur_arity n" "\<lambda>_. True" for n
  by unfold_locales (auto simp: ur_arity_def result_iff ur_head_iff)

interpretation ur_uints: consumer_item ureads ushort capp "([], 0)" "\<lambda>v. (major 0 v, 1)" ur_uint "\<lambda>_. True"
  by unfold_locales (auto simp: ur_uint_def result_iff ur_head_iff)

lemma ur_string_iff:
  assumes "ushort r" "kind < 8"
  shows "ur_string kind least most r = Inr (bs, r') \<longleftrightarrow>
    (unat least \<le> length bs \<and> length bs \<le> unat most \<and> (kind = 3 \<longrightarrow> utf8_valid bs)) \<and>
    ureads r (major kind (of_nat (length bs)) @ bs, 1) r'"
proof -
  let ?after = "\<lambda>r1. length bs \<le> length (ur_bytes r1) - ur_pos r1 \<and>
      bs = take (length bs) (drop (ur_pos r1) (ur_bytes r1)) \<and> r' = r1\<lparr>ur_pos := ur_pos r1 + length bs\<rparr>"
  have len: "unat (of_nat (length bs) :: u64) = length bs" if "length bs \<le> unat most"
    using le_less_trans [OF that unat_less_pow] by (simp add: unat_of_nat)
  have "ur_string kind least most r = Inr (bs, r') \<longleftrightarrow>
      (\<exists>n r1. ur_head r = Inr ((kind, n), r1) \<and> least \<le> n \<and> n \<le> most \<and> unat n \<le> length (ur_bytes r1) - ur_pos r1 \<and>
        bs = take (unat n) (drop (ur_pos r1) (ur_bytes r1)) \<and> r' = r1\<lparr>ur_pos := ur_pos r1 + unat n\<rparr> \<and>
        (kind = 3 \<longrightarrow> utf8_valid bs))"
    by (auto simp: ur_string_def rbind_Inr_iff Let_def not_less split: if_splits)
  also have "\<dots> \<longleftrightarrow> (\<exists>n r1. ur_head r = Inr ((kind, n), r1) \<and> unat n = length bs \<and> least \<le> n \<and> n \<le> most \<and>
      ?after r1 \<and> (kind = 3 \<longrightarrow> utf8_valid bs))"
    by (intro ex_cong1) auto
  also have "\<dots> \<longleftrightarrow> (unat least \<le> length bs \<and> length bs \<le> unat most \<and> (kind = 3 \<longrightarrow> utf8_valid bs)) \<and>
      (\<exists>r1. ur_head r = Inr ((kind, of_nat (length bs)), r1) \<and> ?after r1)"
    using len by (auto simp: word_le_nat_alt) (metis of_nat_unat word_unat_eq_iff len)+
  also have "(\<exists>r1. ur_head r = Inr ((kind, of_nat (length bs)), r1) \<and> ?after r1) \<longleftrightarrow>
      ureads r (major kind (of_nat (length bs)) @ bs, 1) r'"
  proof -
    have "ur_head r = Inr ((kind, of_nat (length bs)), r1) \<and> ?after r1 \<longleftrightarrow>
        ureads r (major kind (of_nat (length bs)), 1) r1 \<and> ureads r1 (bs, 0) r'" for r1
      using ur_head_iff [OF assms(1)] assms(2) ureads_none ur.R_ok [OF assms(1)] by metis
    moreover have "(major kind (of_nat (length bs)) @ bs, 1) = capp (major kind (of_nat (length bs)), 1) (bs, 0)"
      by (simp add: capp_def)
    ultimately show ?thesis by (simp only: ur.R_app [OF assms(1)])
  qed
  finally show ?thesis .
qed

interpretation ur_ids: consumer_item ureads ushort capp "([], 0)" "\<lambda>bs. (major 3 (of_nat (length bs)) @ bs, 1)"
    "ur_string 3 least most" "\<lambda>bs. unat least \<le> length bs \<and> length bs \<le> unat most \<and> utf8_valid bs" for least most
  by unfold_locales (simp add: ur_string_iff)

interpretation ur_keys: consumer_item ureads ushort capp "([], 0)" "\<lambda>bs. (major 2 (of_nat (length bs)) @ bs, 1)"
    "ur_string 2 least most" "\<lambda>bs. unat least \<le> length bs \<and> length bs \<le> unat most" for least most
  by unfold_locales (simp add: ur_string_iff)

lemma ur_hash_iff:
  assumes "ushort r"
  shows "ur_hash r = Inr (w, r') \<longleftrightarrow> True \<and> ureads r (put_word w, 1) r'"
proof -
  have string: "ur_string 2 32 32 r = Inr (bs, r1) \<longleftrightarrow>
      length bs = 32 \<and> ureads r (major 2 (of_nat (length bs)) @ bs, 1) r1" for bs r1
    using ur_string_iff [OF assms, of 2 32 32 bs r1] by auto
  have "ur_hash r = Inr (w, r') \<longleftrightarrow> (\<exists>bs. length bs = 32 \<and> w = from_be bs \<and>
      ureads r (major 2 (of_nat (length bs)) @ bs, 1) r')"
    using string by (auto simp: ur_hash_def rbind_Inr_iff)
  also have "\<dots> \<longleftrightarrow> ureads r (put_word w, 1) r'"
    by (auto simp: put_word_def put_bytes_def to_be_from_be from_be_to_be intro!: exI [of _ "b256_bytes w"])
  finally show ?thesis by simp
qed

interpretation ur_hashes: consumer_item ureads ushort capp "([], 0)" "\<lambda>w. (put_word w, 1)" ur_hash "\<lambda>_. True"
  by unfold_locales (rule ur_hash_iff)

lemma major_uint_head: "major 0 v = b # xs \<Longrightarrow> b \<noteq> 0xf6"
proof -
  assume "major 0 v = b # xs"
  then have "b = head_byte 0 (argument_info v)" by (simp add: major_split)
  then have "b = argument_info v" by (simp add: head_byte_def)
  then show "b \<noteq> 0xf6" using argument_info_less [of v] by auto
qed

lemma ur_optional_iff:
  assumes "ushort r"
  shows "ur_optional r = Inr (v, r') \<longleftrightarrow> True \<and> ureads r (update_optional v, 1) r'"
proof -
  let ?null = "ur_pos r < length (ur_bytes r) \<and> ur_bytes r ! ur_pos r = 0xf6"
  have null: "ureads r ([0xf6], 1) r' \<longleftrightarrow> ?null \<and> ur_tokens r < ur_limit r \<and>
      r' = r\<lparr>ur_pos := ur_pos r + 1, ur_tokens := ur_tokens r + 1\<rparr>" for r'
    using ureads_one [OF assms, of "[0xf6]" r'] by (auto simp: take_Suc_conv_app_nth Suc_le_eq hd_drop_conv_nth)
  have limit: "ur_limit r < ur_tokens r + 1 \<longleftrightarrow> \<not> ur_tokens r < ur_limit r"
    using token_counted [OF assms] by (simp add: word_less_nat_alt not_less Suc_le_eq less_Suc_eq_le)
  have no_null: "\<not> ?null" if "ureads r (major 0 w, 1) r'" for w
  proof -
    obtain b ys where m: "major 0 w = b # ys" by (simp add: major_split)
    with that have "drop (ur_pos r) (ur_bytes r) = b # ys @ drop (ur_pos r') (ur_bytes r)"
      by (simp add: ureads_def reads_def ur_reader_def)
    then have "ur_bytes r ! ur_pos r = b" by (metis hd_drop_conv_nth list.sel(1) list.distinct(1) drop_all not_le)
    with major_uint_head [OF m] show ?thesis by simp
  qed
  show ?thesis
  proof (cases ?null)
    case True
    then show ?thesis using no_null null limit
      by (cases v) (auto simp: ur_optional_def Let_def update_optional_def update_head_major)
  next
    case False
    then show ?thesis using null ur_uints.get_iff [OF assms]
      by (cases v) (auto simp: ur_optional_def rbind_Inr_iff update_optional_def update_head_major)
  qed
qed

interpretation ur_options: consumer_item ureads ushort capp "([], 0)" "\<lambda>v. (update_optional v, 1)" ur_optional "\<lambda>_. True"
  by unfold_locales (rule ur_optional_iff)

lemmas ur_chains = ur_arities.first ur_arities.chain ur_uints.chain ur_hashes.chain ur_options.chain ur_ids.chain
  ur_keys.chain ur_heads.chain

section \<open>Members and entries\<close>

definition member_ok :: "b1_member \<Rightarrow> bool" where
  "member_ok m \<longleftrightarrow> 1 \<le> length (mb_node_id m) \<and> length (mb_node_id m) \<le> 128 \<and> utf8_valid (mb_node_id m) \<and>
     length (mb_key m) = 33"

definition b1_entry_ok :: "b1_entry \<Rightarrow> bool" where
  "b1_entry_ok e \<longleftrightarrow> en_members e \<noteq> [] \<and> length (en_members e) \<le> 16 \<and> (\<forall>m \<in> set (en_members e). member_ok m)"

lemma parse_member_iff:
  assumes "ushort r"
  shows "parse_member r = Inr (m, r') \<longleftrightarrow> member_ok m \<and> ureads r (member_to_bytes m, 4) r'"
  using assms
  by (cases m) (auto simp: parse_member_def ur_chains read_ends member_ok_def member_to_bytes_def
      update_head_major MAX_NODE_ID_BYTES_def simp del: One_nat_def)

interpretation ur_members: consumer_item ureads ushort capp "([], 0)" "\<lambda>m. (member_to_bytes m, 4)" parse_member member_ok
  by unfold_locales (rule parse_member_iff)

lemma members_put_all: "ur_members.put_all ms = (concat (map member_to_bytes ms), 4 * length ms)"
  by (induction ms) (simp_all add: ur_members.put_all_simps)

lemma parse_member_shape:
  assumes "parse_member r = Inr (m, r')"
  shows "utf8_valid (mb_node_id m)" "length (mb_key m) = 33"
  using assms by (auto simp: parse_member_def ur_string_def rbind_Inr_iff Let_def not_less word_le_nat_alt split: if_splits)

lemma parse_members_iff:
  assumes "ushort r"
  shows "parse_members decode n out r = Inr (x, r') \<longleftrightarrow>
    (\<exists>ms. (length ms = n \<and> (\<forall>m \<in> set ms. member_ok m)) \<and>
      ureads r (concat (map member_to_bytes ms), 4 * length ms) r' \<and> x = (if decode then out @ ms else out))"
proof -
  let ?upd = "\<lambda>out m. if decode then out @ [m] else out"
  have "parse_members decode n out r = Inr (x, r') \<longleftrightarrow>
    (\<exists>ms. (length ms = n \<and> (\<forall>m \<in> set ms. member_ok m)) \<and> ureads r (ur_members.put_all ms) r' \<and>
      x = foldl ?upd out ms)"
    by (rule ur_members.fold_loop [where P = "\<lambda>_ _. True" and fin = "\<lambda>out. out"])
      (use assms in \<open>auto simp: rbind_Inr_iff dest: parse_member_shape\<close>)
  moreover have "foldl ?upd out ms = (if decode then out @ ms else out)" for ms
    by (induction ms arbitrary: out) auto
  ultimately show ?thesis by (simp only: members_put_all)
qed

lemma members_fill: "length ms \<le> length (concat (map member_to_bytes ms))"
  by (induction ms) (auto simp: member_to_bytes_def update_head_major major_split)

text \<open>The check that the announced count fits the remaining bytes refuses nothing the loop would accept.\<close>

lemma parse_members_chain:
  assumes "ushort r0"
  shows "(\<exists>r. ureads r0 acc r \<and> (if length (ur_bytes r) - ur_pos r < n then Inl Encoding
        else rbind (parse_members decode n [] r) f) = Inr y) \<longleftrightarrow>
    (\<exists>ms. (length ms = n \<and> (\<forall>m \<in> set ms. member_ok m)) \<and>
      (\<exists>r. ureads r0 (capp acc (concat (map member_to_bytes ms), 4 * length ms)) r \<and>
        f (if decode then ms else [], r) = Inr y))"
proof -
  have fits: "length ms \<le> length (ur_bytes r) - ur_pos r"
    if "ureads r (concat (map member_to_bytes ms), k) r'" for r r' ms k
    using that members_fill [of ms] by (auto simp: ureads_def reads_def ur_reader_def)
  have "(if length (ur_bytes r) - ur_pos r < n then Inl Encoding else rbind (parse_members decode n [] r) f) = Inr y \<longleftrightarrow>
      (\<exists>ms. (length ms = n \<and> (\<forall>m \<in> set ms. member_ok m)) \<and>
        (\<exists>r'. ureads r (concat (map member_to_bytes ms), 4 * length ms) r' \<and> f (if decode then ms else [], r') = Inr y))"
    (is "?guarded \<longleftrightarrow> ?ms") if "ureads r0 acc r" for r
  proof -
    have "rbind (parse_members decode n [] r) f = Inr y \<longleftrightarrow> ?ms"
      using parse_members_iff [OF ur.R_ok [OF assms that], of decode n "[]"]
      unfolding rbind_Inr_iff split_paired_Ex append_Nil by (simp only:) blast
    moreover have "\<not> length (ur_bytes r) - ur_pos r < n" if ?ms using that fits [of r] by (auto simp: not_less)
    ultimately show ?thesis unfolding if_Inl_Inr_iff by blast
  qed
  then show ?thesis unfolding ur.R_app [OF assms] by blast
qed

definition entry_tokens :: "b1_entry \<Rightarrow> nat" where
  "entry_tokens e = 10 + 4 * length (en_members e)"

lemma member_count:
  "(\<exists>n :: u64. n \<noteq> 0 \<and> \<not> MAX_MEMBERS < n \<and> (\<exists>ms. length ms = unat n \<and> Q n ms)) \<longleftrightarrow>
    (\<exists>ms. ms \<noteq> [] \<and> length ms \<le> 16 \<and> Q (of_nat (length ms)) ms)" (is "?L \<longleftrightarrow> ?R")
proof
  assume ?L
  then obtain n ms where "n \<noteq> 0" "unat n \<le> 16" "length ms = unat n" "Q n ms"
    by (auto simp: MAX_MEMBERS_def word_less_nat_alt not_less)
  moreover have "of_nat (length ms) = n" using \<open>length ms = unat n\<close> by simp
  ultimately show ?R by (metis length_0_conv unat_eq_zero)
next
  assume ?R
  then obtain ms where ms: "ms \<noteq> []" "length ms \<le> 16" "Q (of_nat (length ms)) ms" by blast
  have "unat (of_nat (length ms) :: u64) = length ms" using ms(2) by (simp add: unat_of_nat)
  with ms show ?L
    by (intro exI [of _ "of_nat (length ms)"]) (auto simp: MAX_MEMBERS_def word_less_nat_alt word_unat_eq_iff intro!: exI [of _ ms])
qed

lemma parse_entry_iff:
  assumes "ushort r"
  shows "parse_entry decode r = Inr ((e', n), r') \<longleftrightarrow>
    (\<exists>e. b1_entry_ok e \<and> ureads r (entry_to_bytes e, entry_tokens e) r' \<and>
      e' = e\<lparr>en_members := if decode then en_members e else []\<rparr> \<and> n = of_nat (length (en_members e)))"
proof -
  have "parse_entry decode r = Inr ((e', n), r') \<longleftrightarrow>
    (\<exists>epoch kind body act start stop scheme conf ms. let e = \<lparr>en_epoch = epoch, en_body_kind = kind, en_body_id = body,
       en_activation_commit_id = act, en_start = start, en_end = stop, en_signing_scheme = scheme,
       en_signing_config_hash = conf, en_members = ms\<rparr> in
      ms \<noteq> [] \<and> length ms \<le> 16 \<and> (\<forall>m \<in> set ms. member_ok m) \<and> ureads r (entry_to_bytes e, entry_tokens e) r' \<and>
      e' = e\<lparr>en_members := if decode then ms else []\<rparr> \<and> n = of_nat (length ms))"
    using assms
    by (simp add: parse_entry_def ur_chains read_guard_or parse_members_chain read_last member_count
        entry_to_bytes_def entry_tokens_def update_head_major update_hash32_word Let_def
        eq_commute [of _ e'] eq_commute [of _ n] split del: if_split del: One_nat_def)
  also have "\<dots> \<longleftrightarrow> (\<exists>e. b1_entry_ok e \<and> ureads r (entry_to_bytes e, entry_tokens e) r' \<and>
      e' = e\<lparr>en_members := if decode then en_members e else []\<rparr> \<and> n = of_nat (length (en_members e)))"
    by (simp add: b1_entry.splits b1_entry_ok_def Let_def cong: if_cong split del: if_split)
  finally show ?thesis .
qed

definition read_entry :: "b1_entry uread" where
  "read_entry r = rbind (parse_entry True r) (\<lambda>((e, _), r). Inr (e, r))"

lemma read_entry_iff:
  "ushort r \<Longrightarrow> read_entry r = Inr (e, r') \<longleftrightarrow> b1_entry_ok e \<and> ureads r (entry_to_bytes e, entry_tokens e) r'"
  by (auto simp: read_entry_def rbind_Inr_iff parse_entry_iff)

interpretation ur_entries: consumer_item ureads ushort capp "([], 0)" "\<lambda>e. (entry_to_bytes e, entry_tokens e)"
    read_entry b1_entry_ok
  by unfold_locales (rule read_entry_iff)

lemma entries_put_all:
  "ur_entries.put_all es = (concat (map entry_to_bytes es), sum_list (map entry_tokens es))"
  by (induction es) (simp_all add: ur_entries.put_all_simps)

definition member_total :: "b1_entry list \<Rightarrow> nat" where
  "member_total es = sum_list (map (\<lambda>e. length (en_members e)) es)"

lemma parse_entries_iff:
  assumes "ushort r"
  shows "parse_entries decode n out tot r = Inr (x, r') \<longleftrightarrow>
    (\<exists>es. (length es = n \<and> (\<forall>e \<in> set es. b1_entry_ok e)) \<and>
      ureads r (concat (map entry_to_bytes es), sum_list (map entry_tokens es)) r' \<and>
      x = (if decode then out @ es else out, tot + of_nat (member_total es)))"
proof -
  let ?upd = "\<lambda>(out, tot) e. (if decode then out @ [e] else out, tot + of_nat (length (en_members e)))"
  have step: "parse_entries decode (Suc n) (fst s) (snd s) r = Inr (x, r') \<longleftrightarrow> (\<exists>e r1. read_entry r = Inr (e, r1) \<and>
      parse_entries decode n (fst (?upd s e)) (snd (?upd s e)) r1 = Inr (x, r'))" if "ushort r" for n s r x r'
    using that
    by (cases s) (auto simp: rbind_Inr_iff split_paired_Ex read_entry_iff parse_entry_iff split: if_splits; blast)
  have "parse_entries decode n (fst (out, tot)) (snd (out, tot)) r = Inr (x, r') \<longleftrightarrow>
    (\<exists>es. (length es = n \<and> (\<forall>e \<in> set es. b1_entry_ok e)) \<and> ureads r (ur_entries.put_all es) r' \<and>
      x = foldl ?upd (out, tot) es)"
    by (rule ur_entries.fold_loop [where P = "\<lambda>_ _. True" and fin = "\<lambda>s. s" and upd = ?upd])
      (use assms step in auto)
  moreover have "foldl ?upd (out, tot) es = (if decode then out @ es else out, tot + of_nat (member_total es))" for es
    by (induction es arbitrary: out tot) (auto simp: member_total_def)
  ultimately show ?thesis by (simp only: entries_put_all fst_conv snd_conv)
qed

lemma entries_fill: "length es \<le> length (concat (map entry_to_bytes es))"
  by (induction es) (auto simp: entry_to_bytes_def update_head_major major_split)

lemma parse_entries_chain:
  assumes "ushort r0" "ur_bytes r0 = raw"
  shows "(\<exists>r. ureads r0 acc r \<and> (if length raw - ur_pos r < n then Inl Encoding
        else rbind (parse_entries decode n [] 0 r) f) = Inr y) \<longleftrightarrow>
    (\<exists>es. length es = n \<and> (\<forall>e \<in> set es. b1_entry_ok e) \<and>
      (\<exists>r. ureads r0 (capp acc (concat (map entry_to_bytes es), sum_list (map entry_tokens es))) r \<and>
        f ((if decode then es else [], of_nat (member_total es)), r) = Inr y))"
proof -
  have fits: "length es \<le> length raw - ur_pos r"
    if "ureads r (concat (map entry_to_bytes es), k) r'" "ur_bytes r = raw" for r r' es k
    using that entries_fill [of es] by (auto simp: ureads_def reads_def ur_reader_def)
  have "(if length raw - ur_pos r < n then Inl Encoding else rbind (parse_entries decode n [] 0 r) f) = Inr y \<longleftrightarrow>
      (\<exists>es. length es = n \<and> (\<forall>e \<in> set es. b1_entry_ok e) \<and>
        (\<exists>r'. ureads r (concat (map entry_to_bytes es), sum_list (map entry_tokens es)) r' \<and>
          f ((if decode then es else [], of_nat (member_total es)), r') = Inr y))"
    (is "?guarded \<longleftrightarrow> ?es") if r: "ureads r0 acc r" for r
  proof -
    have "rbind (parse_entries decode n [] 0 r) f = Inr y \<longleftrightarrow> ?es"
      using parse_entries_iff [OF ur.R_ok [OF assms(1) r], of decode n "[]" 0]
      unfolding rbind_Inr_iff split_paired_Ex append_Nil add_0 by (simp only: Pair_inject) blast
    moreover have "ur_bytes r = raw" using r assms(2) by (simp add: ureads_def reads_def ur_reader_def)
    then have "\<not> length raw - ur_pos r < n" if ?es using that fits [of r] by (auto simp: not_less)
    ultimately show ?thesis unfolding if_Inl_Inr_iff by blast
  qed
  then show ?thesis unfolding ur.R_app [OF assms(1)] by blast
qed

lemma parse_end:
  assumes "slice raw"
  shows "(\<exists>r. ureads \<lparr>ur_bytes = raw, ur_pos = 0, ur_tokens = 0, ur_limit = limit\<rparr> (acc, k) r \<and>
      (if ur_pos r \<noteq> length raw then Inl Encoding else m) = Inr y) \<longleftrightarrow>
    acc = raw \<and> k \<le> unat limit \<and> m = Inr y"
proof -
  let ?r0 = "\<lparr>ur_bytes = raw, ur_pos = 0, ur_tokens = 0, ur_limit = limit\<rparr>"
  have "(\<exists>r. ureads ?r0 (acc, k) r \<and> ur_pos r = length raw) \<longleftrightarrow> acc = raw \<and> k \<le> unat limit" (is "?L \<longleftrightarrow> ?R")
  proof
    assume ?L
    then show ?R by (auto simp: ureads_def reads_def ur_reader_def word_le_nat_alt)
  next
    assume ?R
    moreover from this have "unat (of_nat k :: u64) = k"
      using le_less_trans [of k "unat limit" "2 ^ LENGTH(64)"] by (simp add: unat_of_nat unat_less_pow)
    ultimately show ?L
      by (intro exI [of _ "?r0\<lparr>ur_pos := length raw, ur_tokens := of_nat k\<rparr>"])
        (auto simp: ureads_def reads_def ur_reader_def word_le_nat_alt)
  qed
  then show ?thesis unfolding if_Inl_Inr_iff by blast
qed

section \<open>The parser is exact\<close>

definition update_ok :: "nat \<Rightarrow> b1_update \<Rightarrow> bool" where
  "update_ok max_entries u \<longleftrightarrow>
     length (up_new_entries u) \<le> max_entries \<and> (\<forall>e \<in> set (up_new_entries u). b1_entry_ok e)"

definition update_tokens :: "b1_update \<Rightarrow> nat" where
  "update_tokens u = 14 + sum_list (map entry_tokens (up_new_entries u))"

lemma network_u16:
  "(\<exists>w :: u64. \<not> 0xffff < w \<and> P w) \<longleftrightarrow> (\<exists>n :: u16. P (ucast n))"
proof -
  have "ucast (ucast w :: u16) = w" if "\<not> 0xffff < w" for w :: u64
    using that by (simp add: word_unat_eq_iff unat_ucast_up unat_ucast_small word_less_nat_alt)
  moreover have "\<not> 0xffff < (ucast n :: u64)" for n :: u16
    using unat_less_pow [of n] by (simp add: word_less_nat_alt unat_ucast_up)
  ultimately show ?thesis by metis
qed

lemma entry_count:
  "(\<exists>n :: u64. \<not> most < n \<and> (\<exists>es. length es = unat n \<and> Q n es)) \<longleftrightarrow>
    (\<exists>es. length es \<le> unat most \<and> Q (of_nat (length es)) es)" (is "?L \<longleftrightarrow> ?R")
proof
  assume ?L
  then obtain n es where "unat n \<le> unat most" "length es = unat n" "Q n es"
    by (auto simp: word_less_nat_alt not_less)
  moreover have "of_nat (length es) = n" using \<open>length es = unat n\<close> by simp
  ultimately show ?R by metis
next
  assume ?R
  then obtain es where es: "length es \<le> unat most" "Q (of_nat (length es)) es" by blast
  have "unat (of_nat (length es) :: u64) = length es"
    using le_less_trans [OF es(1) unat_less_pow] by (simp add: unat_of_nat)
  with es show ?L
    by (intro exI [of _ "of_nat (length es)"]) (auto simp: word_less_nat_alt intro!: exI [of _ es])
qed

lemma update_domain: "utf8_valid UPDATE_DOMAIN" "length UPDATE_DOMAIN = 17"
  by (simp_all add: UPDATE_DOMAIN_def ascii_def)

lemma parse_update_iff:
  assumes "slice raw" "unat limit < 2 ^ 64 - 1"
  shows "parse_update raw max_entries limit decode = Inr (u', tot) \<longleftrightarrow>
    (\<exists>u. update_ok (unat max_entries) u \<and> raw = update_to_bytes u \<and> update_tokens u \<le> unat limit \<and>
      u' = (if decode then Some u else None) \<and> tot = of_nat (member_total (up_new_entries u)))"
proof -
  let ?r0 = "\<lparr>ur_bytes = raw, ur_pos = 0, ur_tokens = 0, ur_limit = limit\<rparr>"
  have r0: "ushort ?r0" using assms by (simp add: ushort_def short_def ur_reader_def)
  show ?thesis
    using assms(1) r0 update_domain
    by (simp add: parse_update_def ur_chains read_guard read_guard_or parse_entries_chain parse_end network_u16 entry_count
        update_to_bytes_def update_tokens_def update_head_major update_hash32_word Let_def b1_update.splits update_ok_def
        eq_commute [of _ u'] eq_commute [of _ tot] eq_commute [of _ raw] cong: if_cong split del: if_split del: One_nat_def)
qed

end
