(* ===== verification/Records_Hook.thy ===== *)
theory Records_Hook
  imports Unicity_Prelude
begin

text \<open>
  The mandatory hooks of a block, \<open>execution/src/hook.rs\<close>: the profile's hook parameters with their gas
  envelope, and the hook run itself, which reads custody's cursor and the registry's counts, applies at
  most one batch of records and then runs the election. The EVM is a parameter: a system call at an
  address with some data and a gas limit either errors, fails, or succeeds with the gas it spent, its
  output and the database that committing its state would leave.
\<close>

section \<open>Actions on a database\<close>

text \<open>
  Code that mutates a database and returns \<open>Result\<close>: an early return keeps what was committed before it.
\<close>

type_synonym ('e, 's, 'a) action = "'s \<Rightarrow> ('e + 'a) \<times> 's"

definition sbind :: "('e, 's, 'a) action \<Rightarrow> ('a \<Rightarrow> ('e, 's, 'b) action) \<Rightarrow> ('e, 's, 'b) action" where
  "sbind m f s = (case m s of (Inl e, s') \<Rightarrow> (Inl e, s') | (Inr a, s') \<Rightarrow> f a s')"

definition slift :: "'e + 'a \<Rightarrow> ('e, 's, 'a) action" where
  "slift r s = (r, s)"

lemma sbind_Inr_iff:
  "sbind m f s = (Inr b, s'') \<longleftrightarrow> (\<exists>a s'. m s = (Inr a, s') \<and> f a s' = (Inr b, s''))"
  by (auto simp: sbind_def split: prod.splits sum.splits)

lemma sbind_Inl_iff:
  "sbind m f s = (Inl e, s'') \<longleftrightarrow> m s = (Inl e, s'') \<or> (\<exists>a s'. m s = (Inr a, s') \<and> f a s' = (Inl e, s''))"
  by (auto simp: sbind_def split: prod.splits sum.splits)

lemma slift_iff: "slift r s = (r', s') \<longleftrightarrow> r = r' \<and> s = s'"
  by (simp add: slift_def)

lemma if_slift_iff:
  "(if c then slift (Inl e) else m) s = (Inr a, s') \<longleftrightarrow> \<not> c \<and> m s = (Inr a, s')"
  by (simp add: slift_def)

lemmas action_iff = sbind_Inr_iff slift_iff if_slift_iff

datatype 'db system_call =
    CallErr string
  | CallFailed string
  | CallOk (call_gas: u64) (call_output: bytes) (call_db: 'db)

type_synonym ('env, 'db) evm = "'env \<Rightarrow> 'db \<Rightarrow> address \<Rightarrow> bytes \<Rightarrow> u64 \<Rightarrow> 'db system_call"

text \<open>The EVM meters a call: it spends at most the gas limit of its transaction.\<close>

definition metered :: "('env, 'db) evm \<Rightarrow> bool" where
  "metered evm \<longleftrightarrow>
     (\<forall>env db to data limit gas out db'. evm env db to data limit = CallOk gas out db' \<longrightarrow> gas \<le> limit)"

section \<open>Profile\<close>

definition SEAL_REGISTRY :: address where
  "SEAL_REGISTRY = from_be ([0xff, 0, 0, 0, 0, 0, 0, 0, 0, 0, 0, 0, 0, 0, 0, 0, 0, 0, 0, 2])"

definition RECORD_CURSOR :: bytes where "RECORD_CURSOR = [0xca, 0x01, 0xc9, 0x83]"
definition RECORD_COUNT :: bytes where "RECORD_COUNT = [0x90, 0x04, 0x07, 0xbc]"
definition RECORD_TARGET_COUNT :: bytes where "RECORD_TARGET_COUNT = [0x99, 0xa1, 0xd3, 0x76]"
definition APPLY_ROOT_RECORDS :: bytes where "APPLY_ROOT_RECORDS = [0x1d, 0x2a, 0x00, 0x37]"
definition LIMITS :: bytes where "LIMITS = [0x86, 0x0a, 0xef, 0xcf]"
definition ELECT :: bytes where "ELECT = [0x45, 0xb7, 0xff, 0xa0]"
definition MAX_H_RECORDS :: u32 where "MAX_H_RECORDS = 32"
definition HOOK_READS_GAS :: u64 where "HOOK_READS_GAS = 150000"

record records_hook =
  rh_custody :: address
  rh_h_records :: u32
  rh_record_gas :: u64
  rh_election :: address
  rh_elect_gas :: u64

datatype hook_error =
    HookProfile string
  | HookCall string string
  | BadReturn string
  | BadOutcome u64
  | Inconsistent u64 u64 u64
  | CursorMoved u64 u64 u64
  | HExceedsMaxBatch u32 u64
  | HookBudget

record hook_outcome =
  ho_gas_spent :: u64
  ho_applied :: u64
  ho_elected :: "u8 option"

definition hook_enabled :: "records_hook \<Rightarrow> bool" where
  "hook_enabled h \<longleftrightarrow> rh_custody h \<noteq> 0"

definition election_enabled :: "records_hook \<Rightarrow> bool" where
  "election_enabled h \<longleftrightarrow> rh_election h \<noteq> 0"

definition hook_validate :: "records_hook \<Rightarrow> hook_error + unit" where
  "hook_validate h =
     (if \<not> election_enabled h \<and> rh_elect_gas h \<noteq> 0
      then Inl (HookProfile ''the elect gas without an election contract'')
      else if election_enabled h \<and> (\<not> hook_enabled h \<or> rh_elect_gas h = 0)
      then Inl (HookProfile ''the election hook needs the records hook and a positive elect gas'')
      else if \<not> hook_enabled h
      then (if rh_h_records h = 0 \<and> rh_record_gas h = 0 then Inr ()
            else Inl (HookProfile ''hook parameters without a custody contract''))
      else if rh_h_records h = 0 \<or> MAX_H_RECORDS < rh_h_records h
      then Inl (HookProfile ''H_records must be within 1..=32'')
      else if rh_record_gas h = 0
      then Inl (HookProfile ''the per-record hook gas must be positive'')
      else Inr ())"

definition envelope_gas :: "records_hook \<Rightarrow> hook_error + u64" where
  "envelope_gas h =
     (if \<not> hook_enabled h then Inr 0
      else rbind (hook_validate h) (\<lambda>_.
        ok_or (HookProfile ''hook envelope overflows'')
          (Option.bind (Option.bind (checked_mul (ucast (rh_h_records h)) (rh_record_gas h))
            (\<lambda>records. checked_add records HOOK_READS_GAS))
            (\<lambda>records. checked_add records (rh_elect_gas h)))))"

section \<open>The run\<close>

record 'db hook_state =
  hk_db :: 'db
  hk_spent :: u64

text \<open>The \<open>call!\<close> macro: one system call within what is left of \<open>limit\<close>; only \<open>commit\<close> keeps its state.\<close>

definition hook_call ::
  "('env, 'db) evm \<Rightarrow> 'env \<Rightarrow> u64 \<Rightarrow> string \<Rightarrow> address \<Rightarrow> bytes \<Rightarrow> bool \<Rightarrow> (hook_error, 'db hook_state, bytes) action" where
  "hook_call evm env limit what to data commit s =
     (case checked_sub limit (hk_spent s) of
        None \<Rightarrow> (Inl HookBudget, s)
      | Some remaining \<Rightarrow>
          if remaining = 0 then (Inl HookBudget, s)
          else case evm env (hk_db s) to data remaining of
            CallErr e \<Rightarrow> (Inl (HookCall what e), s)
          | CallFailed e \<Rightarrow> (Inl (HookCall what e), s)
          | CallOk gas out db \<Rightarrow>
              (case checked_add (hk_spent s) gas of
                 None \<Rightarrow> (Inl HookBudget, s)
               | Some spent \<Rightarrow>
                   (Inr out, \<lparr>hk_db = (if commit then db else hk_db s), hk_spent = spent\<rparr>)))"

definition hook_word :: "string \<Rightarrow> bytes \<Rightarrow> hook_error + u64" where
  "hook_word what out =
     (if length out \<noteq> 32 \<or> (\<exists>b \<in> set (take 24 out). b \<noteq> 0) then Inl (BadReturn what)
      else Inr (from_be (drop 24 out)))"

definition hook_read ::
  "('env, 'db) evm \<Rightarrow> 'env \<Rightarrow> u64 \<Rightarrow> string \<Rightarrow> address \<Rightarrow> bytes \<Rightarrow> (hook_error, 'db hook_state, u64) action" where
  "hook_read evm env limit what to data =
     sbind (hook_call evm env limit what to data False) (\<lambda>out. slift (hook_word what out))"

definition apply_data :: "u64 \<Rightarrow> bytes" where
  "apply_data n = APPLY_ROOT_RECORDS @ replicate 28 0 @ to_be 4 (ucast n :: u32)"

definition apply_records ::
  "('env, 'db) evm \<Rightarrow> records_hook \<Rightarrow> 'env \<Rightarrow> u64 \<Rightarrow> u64 \<Rightarrow> u64 \<Rightarrow> (hook_error, 'db hook_state, u64) action" where
  "apply_records evm h env budget before available =
     sbind (hook_call evm env budget ''limits'' (rh_custody h) LIMITS False) (\<lambda>out.
     if length out \<noteq> 128 then slift (Inl (BadReturn ''limits'')) else
     sbind (slift (hook_word ''limits'' (drop 96 out))) (\<lambda>max_batch.
     if max_batch < ucast (rh_h_records h)
     then slift (Inl (HExceedsMaxBatch (rh_h_records h) max_batch)) else
     let n = min available (ucast (rh_h_records h)) in
     sbind (hook_call evm env budget ''applyRootRecords'' (rh_custody h) (apply_data n) True) (\<lambda>_.
     sbind (hook_read evm env budget ''recordCursor'' (rh_custody h) RECORD_CURSOR) (\<lambda>after.
     if after \<noteq> before + n then slift (Inl (CursorMoved before n after)) else
     slift (Inr n)))))"

definition records_step ::
  "('env, 'db) evm \<Rightarrow> records_hook \<Rightarrow> 'env \<Rightarrow> u64 \<Rightarrow> (hook_error, 'db hook_state, u64) action" where
  "records_step evm h env budget =
     sbind (hook_read evm env budget ''recordCursor'' (rh_custody h) RECORD_CURSOR) (\<lambda>before.
     sbind (hook_read evm env budget ''recordCount'' SEAL_REGISTRY RECORD_COUNT) (\<lambda>count.
     sbind (hook_read evm env budget ''recordTargetCount'' SEAL_REGISTRY RECORD_TARGET_COUNT) (\<lambda>target.
     if count < before \<or> target < count then slift (Inl (Inconsistent before count target)) else
     let available = count - before in
     if available = 0 then slift (Inr 0) else apply_records evm h env budget before available)))"

definition election_step ::
  "('env, 'db) evm \<Rightarrow> records_hook \<Rightarrow> 'env \<Rightarrow> b256 \<Rightarrow> u64 \<Rightarrow> (hook_error, 'db hook_state, u8 option) action" where
  "election_step evm h env origin budget s =
     (if election_enabled h then
        let limit = min budget (saturating_add (hk_spent s) (rh_elect_gas h)) in
        sbind (hook_call evm env limit ''elect'' (rh_election h) (ELECT @ b256_bytes origin) True) (\<lambda>out.
        sbind (slift (hook_word ''elect'' out)) (\<lambda>outcome.
        if 3 < outcome then slift (Inl (BadOutcome outcome)) else
        slift (Inr (Some (ucast outcome))))) s
      else (Inr None, s))"

definition run_hooks ::
  "('env, 'db) evm \<Rightarrow> records_hook \<Rightarrow> 'env \<Rightarrow> b256 \<Rightarrow> u64 \<Rightarrow> (hook_error, 'db, hook_outcome) action" where
  "run_hooks evm h env origin budget db =
     (case hook_validate h of
        Inl e \<Rightarrow> (Inl e, db)
      | Inr _ \<Rightarrow>
          if \<not> hook_enabled h
          then (Inr \<lparr>ho_gas_spent = 0, ho_applied = 0, ho_elected = None\<rparr>, db)
          else case sbind (records_step evm h env budget) (\<lambda>applied.
                 sbind (election_step evm h env origin budget) (\<lambda>elected.
                 slift (Inr (applied, elected)))) \<lparr>hk_db = db, hk_spent = 0\<rparr> of
            (Inl e, s) \<Rightarrow> (Inl e, hk_db s)
          | (Inr (applied, elected), s) \<Rightarrow>
              (Inr \<lparr>ho_gas_spent = hk_spent s, ho_applied = applied, ho_elected = elected\<rparr>, hk_db s))"

definition run_records_hook ::
  "('env, 'db) evm \<Rightarrow> records_hook \<Rightarrow> 'env \<Rightarrow> u64 \<Rightarrow> (hook_error, 'db, hook_outcome) action" where
  "run_records_hook evm h env budget db =
     (if election_enabled h
      then (Inl (HookProfile ''the election hook needs the block's origin: use run_hooks''), db)
      else run_hooks evm h env 0 budget db)"

section \<open>What a run does\<close>

text \<open>
  \<open>answers\<close> and \<open>commits\<close> say what the EVM did on a database, whatever gas limit the call had.
\<close>

definition answers :: "('env, 'db) evm \<Rightarrow> 'env \<Rightarrow> 'db \<Rightarrow> address \<Rightarrow> bytes \<Rightarrow> u64 \<Rightarrow> bool" where
  "answers evm env db to data v \<longleftrightarrow>
     (\<exists>limit gas out db' what. evm env db to data limit = CallOk gas out db' \<and> hook_word what out = Inr v)"

definition commits :: "('env, 'db) evm \<Rightarrow> 'env \<Rightarrow> 'db \<Rightarrow> address \<Rightarrow> bytes \<Rightarrow> bytes \<Rightarrow> 'db \<Rightarrow> bool" where
  "commits evm env db to data out db' \<longleftrightarrow> (\<exists>limit gas. evm env db to data limit = CallOk gas out db')"

lemma hook_callE:
  assumes "hook_call evm env limit what to data commit s = (Inr out, s')"
  obtains remaining gas db where "unat limit = unat (hk_spent s) + unat remaining"
    "evm env (hk_db s) to data remaining = CallOk gas out db"
    "unat (hk_spent s') = unat (hk_spent s) + unat gas" "hk_db s' = (if commit then db else hk_db s)"
  using assms
  by (auto simp: hook_call_def checked_add_Some_iff checked_sub_Some_iff
    split: option.splits if_splits system_call.splits)

lemma hook_call_Inr:
  assumes "hook_call evm env limit what to data commit s = (Inr out, s')"
  shows "\<exists>db. commits evm env (hk_db s) to data out db \<and> hk_db s' = (if commit then db else hk_db s)"
  using assms by (rule hook_callE) (auto simp: commits_def)

lemma hook_call_metered:
  assumes "metered evm" "hook_call evm env limit what to data commit s = (Inr out, s')"
  shows "hk_spent s \<le> hk_spent s'" "hk_spent s' \<le> limit"
proof -
  from assms(2) obtain remaining gas db where "unat limit = unat (hk_spent s) + unat remaining"
    "evm env (hk_db s) to data remaining = CallOk gas out db"
    "unat (hk_spent s') = unat (hk_spent s) + unat gas"
    by (rule hook_callE)
  moreover from this assms(1) have "gas \<le> remaining" unfolding metered_def by blast
  ultimately show "hk_spent s \<le> hk_spent s'" "hk_spent s' \<le> limit"
    by (simp_all add: word_le_nat_alt)
qed

lemma hook_read_Inr:
  assumes "hook_read evm env limit what to data s = (Inr v, s')"
  shows "answers evm env (hk_db s) to data v" "hk_db s' = hk_db s"
  using assms hook_call_Inr [of evm env limit what to data False s]
  by (fastforce simp: hook_read_def action_iff answers_def commits_def)+

lemma hook_read_metered:
  assumes "metered evm" "hook_read evm env limit what to data s = (Inr v, s')"
  shows "hk_spent s' \<le> limit"
  using assms hook_call_metered [of evm env limit what to data False s] by (auto simp: hook_read_def action_iff)

text \<open>The records step: one batch or none, of exactly the available records up to \<open>H\<close>.\<close>

definition records_done ::
  "('env, 'db) evm \<Rightarrow> records_hook \<Rightarrow> 'env \<Rightarrow> 'db \<Rightarrow> u64 \<Rightarrow> 'db \<Rightarrow> bool" where
  "records_done evm h env db n db' \<longleftrightarrow>
     (\<exists>before count target.
        answers evm env db (rh_custody h) RECORD_CURSOR before \<and>
        answers evm env db SEAL_REGISTRY RECORD_COUNT count \<and>
        answers evm env db SEAL_REGISTRY RECORD_TARGET_COUNT target \<and>
        before \<le> count \<and> count \<le> target \<and> unat n = min (unat count - unat before) (unat (rh_h_records h)) \<and>
        (if n = 0 then db' = db
         else (\<exists>out. commits evm env db (rh_custody h) (apply_data n) out db') \<and>
           answers evm env db' (rh_custody h) RECORD_CURSOR (before + n)))"

definition election_done ::
  "('env, 'db) evm \<Rightarrow> records_hook \<Rightarrow> 'env \<Rightarrow> b256 \<Rightarrow> 'db \<Rightarrow> u8 option \<Rightarrow> 'db \<Rightarrow> bool" where
  "election_done evm h env origin db elected db' \<longleftrightarrow>
     (if election_enabled h
      then \<exists>out what outcome. commits evm env db (rh_election h) (ELECT @ b256_bytes origin) out db' \<and>
        hook_word what out = Inr outcome \<and> outcome \<le> 3 \<and> elected = Some (ucast outcome)
      else elected = None \<and> db' = db)"

lemma apply_records_Inr:
  assumes "apply_records evm h env budget before available s = (Inr n, s')"
  shows "n = min available (ucast (rh_h_records h))"
    "\<exists>out. commits evm env (hk_db s) (rh_custody h) (apply_data n) out (hk_db s')"
    "answers evm env (hk_db s') (rh_custody h) RECORD_CURSOR (before + n)"
    "metered evm \<Longrightarrow> hk_spent s' \<le> budget"
proof -
  let ?n = "min available (ucast (rh_h_records h))"
  from assms obtain out1 s1 out2 s2 where
      1: "hook_call evm env budget ''limits'' (rh_custody h) LIMITS False s = (Inr out1, s1)" and
      2: "hook_call evm env budget ''applyRootRecords'' (rh_custody h) (apply_data ?n) True s1 = (Inr out2, s2)" and
      3: "hook_read evm env budget ''recordCursor'' (rh_custody h) RECORD_CURSOR s2 = (Inr (before + ?n), s')" and
      n: "n = ?n"
    by (auto simp: apply_records_def action_iff Let_def)
  show "n = ?n" by (rule n)
  show "\<exists>out. commits evm env (hk_db s) (rh_custody h) (apply_data n) out (hk_db s')"
    using hook_call_Inr [OF 1] hook_call_Inr [OF 2] hook_read_Inr(2) [OF 3] n by auto
  show "answers evm env (hk_db s') (rh_custody h) RECORD_CURSOR (before + n)"
    using hook_read_Inr [OF 3] n by simp
  show "metered evm \<Longrightarrow> hk_spent s' \<le> budget" by (rule hook_read_metered [OF _ 3])
qed

lemma records_step_Inr:
  assumes "records_step evm h env budget s = (Inr n, s')" "rh_h_records h \<noteq> 0"
  shows "records_done evm h env (hk_db s) n (hk_db s')" "metered evm \<Longrightarrow> hk_spent s' \<le> budget"
proof -
  from assms(1) obtain before s1 count s2 target s3 where
      1: "hook_read evm env budget ''recordCursor'' (rh_custody h) RECORD_CURSOR s = (Inr before, s1)" and
      2: "hook_read evm env budget ''recordCount'' SEAL_REGISTRY RECORD_COUNT s1 = (Inr count, s2)" and
      3: "hook_read evm env budget ''recordTargetCount'' SEAL_REGISTRY RECORD_TARGET_COUNT s2 = (Inr target, s3)" and
      le: "before \<le> count" "count \<le> target" and
      4: "(if count - before = 0 then slift (Inr 0) else apply_records evm h env budget before (count - before)) s3 = (Inr n, s')"
    by (auto simp: records_step_def action_iff Let_def not_less)
  note reads = hook_read_Inr [OF 1] hook_read_Inr [OF 2] hook_read_Inr [OF 3]
  have avail: "unat (count - before) = unat count - unat before" using le(1) by (rule unat_sub_exact)
  have h: "unat (ucast (rh_h_records h) :: u64) = unat (rh_h_records h)"
    by (simp add: unat_ucast_up)
  show "records_done evm h env (hk_db s) n (hk_db s')"
  proof (cases "count - before = 0")
    case True
    with 4 avail have "n = 0" "s' = s3" "unat count - unat before = 0" by (auto simp: slift_def)
    with reads le show ?thesis unfolding records_done_def by fastforce
  next
    case False
    with 4 have 4: "apply_records evm h env budget before (count - before) s3 = (Inr n, s')" by simp
    have n: "unat n = min (unat count - unat before) (unat (rh_h_records h))"
      using apply_records_Inr(1) [OF 4] avail h by (auto simp: min_def word_le_nat_alt)
    have "n \<noteq> 0" using apply_records_Inr(1) [OF 4] False assms(2) h
      by (auto simp: min_def word_unat_eq_iff [of _ "0 :: 64 word"] word_unat_eq_iff [of _ "0 :: 32 word"] split: if_splits)
    then show ?thesis
      using n reads le apply_records_Inr(2,3) [OF 4] unfolding records_done_def by auto
  qed
  show "metered evm \<Longrightarrow> hk_spent s' \<le> budget"
    using hook_read_metered [OF _ 3] apply_records_Inr(4) 4 by (auto simp: slift_def split: if_splits)
qed

lemma election_step_Inr:
  assumes "election_step evm h env origin budget s = (Inr elected, s')"
  shows "election_done evm h env origin (hk_db s) elected (hk_db s')"
    "metered evm \<Longrightarrow> hk_spent s \<le> budget \<Longrightarrow>
       hk_spent s' \<le> budget \<and> unat (hk_spent s') \<le> unat (hk_spent s) + unat (rh_elect_gas h)"
proof -
  let ?limit = "min budget (saturating_add (hk_spent s) (rh_elect_gas h))"
  show "election_done evm h env origin (hk_db s) elected (hk_db s')"
    using assms hook_call_Inr [of evm env ?limit "''elect''" "rh_election h" "ELECT @ b256_bytes origin" True s]
    by (fastforce simp: election_step_def election_done_def action_iff Let_def not_less split: if_splits)
  assume m: "metered evm" and le: "hk_spent s \<le> budget"
  have "hk_spent s' \<le> ?limit \<or> s' = s"
    using assms hook_call_metered [OF m, of env ?limit "''elect''" "rh_election h" "ELECT @ b256_bytes origin" True s]
    by (auto simp: election_step_def action_iff Let_def split: if_splits)
  moreover have "unat (saturating_add (hk_spent s) (rh_elect_gas h)) \<le> unat (hk_spent s) + unat (rh_elect_gas h)"
    by (auto simp: saturating_add_def unat_add_exact unsigned_minus_1_eq_mask mask_eq_exp_minus_1)
  ultimately show "hk_spent s' \<le> budget \<and> unat (hk_spent s') \<le> unat (hk_spent s) + unat (rh_elect_gas h)"
    using le by (auto simp: word_le_nat_alt min_def split: if_splits)
qed

lemma hook_validate_h: "hook_validate h = Inr () \<Longrightarrow> hook_enabled h \<Longrightarrow> rh_h_records h \<noteq> 0"
  by (auto simp: hook_validate_def split: if_splits)

lemma run_hooks_Inr:
  assumes "run_hooks evm h env origin budget db = (Inr out, db')" "hook_enabled h"
  shows "\<exists>db1. records_done evm h env db (ho_applied out) db1 \<and>
      election_done evm h env origin db1 (ho_elected out) db'"
    "metered evm \<Longrightarrow> ho_gas_spent out \<le> budget"
proof -
  let ?s = "\<lparr>hk_db = db, hk_spent = 0\<rparr>"
  from assms obtain s1 s2 where v: "hook_validate h = Inr ()"
    and 1: "records_step evm h env budget ?s = (Inr (ho_applied out), s1)"
    and 2: "election_step evm h env origin budget s1 = (Inr (ho_elected out), s2)"
    and s2: "hk_spent s2 = ho_gas_spent out" "hk_db s2 = db'"
    by (fastforce simp: run_hooks_def action_iff split: sum.splits prod.splits)
  note records = records_step_Inr [OF 1 hook_validate_h [OF v assms(2)]] and election = election_step_Inr [OF 2]
  show "\<exists>db1. records_done evm h env db (ho_applied out) db1 \<and>
      election_done evm h env origin db1 (ho_elected out) db'"
    using records(1) election(1) s2 by auto
  show "metered evm \<Longrightarrow> ho_gas_spent out \<le> budget" using records(2) election(2) s2 by auto
qed

text \<open>A custody at cursor 2 and a registry that holds 7 records of a target of 9; the database is the cursor.\<close>

definition sample_evm :: "(unit, nat) evm" where
  "sample_evm env db to data limit =
     (if limit < 100 then CallFailed ''out of gas''
      else if data = RECORD_CURSOR then CallOk 100 (to_be 32 (of_nat db :: b256)) db
      else if data = RECORD_COUNT then CallOk 100 (to_be 32 (7 :: b256)) db
      else if data = RECORD_TARGET_COUNT then CallOk 100 (to_be 32 (9 :: b256)) db
      else if data = LIMITS then CallOk 100 (replicate 96 0 @ to_be 32 (32 :: b256)) db
      else if data = apply_data 3 then CallOk 100 [] (db + 3)
      else CallFailed ''revert'')"

definition sample_hook :: records_hook where
  "sample_hook = \<lparr>rh_custody = 5, rh_h_records = 3, rh_record_gas = 1000, rh_election = 0, rh_elect_gas = 0\<rparr>"

section \<open>Properties\<close>

text \<open>
  Claim C23. A successful run of the mandatory hooks stays within its gas budget and does exactly the work
  the registry and custody call for: it reads cursor, count and target from the parent state, refuses an
  inconsistent registry, commits no state when custody is caught up, and otherwise commits exactly one
  \<open>applyRootRecords\<close> of \<open>min(H, available)\<close> records after which custody's cursor has advanced by exactly that
  number; the election then runs on that state with the block's origin and reports one of its four
  outcomes. The budget bound rests on the EVM metering its calls.
\<close>

theorem run_hooks_exact:
  assumes "metered evm" "hook_enabled h" "run_hooks evm h env origin budget db = (Inr out, db')"
  shows "ho_gas_spent out \<le> budget \<and>
    (\<exists>db1. records_done evm h env db (ho_applied out) db1 \<and> election_done evm h env origin db1 (ho_elected out) db')"
  using run_hooks_Inr [OF assms(3,2)] assms(1) by blast

theorem run_hooks_exact_witness:
  "run_hooks sample_evm sample_hook () 0 1000 2 = (Inr \<lparr>ho_gas_spent = 600, ho_applied = 3, ho_elected = None\<rparr>, 5) \<and>
   (\<exists>db1. records_done sample_evm sample_hook () 2 3 db1 \<and> election_done sample_evm sample_hook () 0 db1 None 5)"
proof -
  have sels: "apply_data 3 \<noteq> [a, b, c, d]" for a b c d
    by (simp add: apply_data_def APPLY_ROOT_RECORDS_def to_be_def)
  have run: "run_hooks sample_evm sample_hook () 0 1000 2 =
      (Inr \<lparr>ho_gas_spent = 600, ho_applied = 3, ho_elected = None\<rparr>, 5)"
    by (simp add: run_hooks_def sample_hook_def hook_validate_def election_enabled_def hook_enabled_def
        MAX_H_RECORDS_def records_step_def sbind_def slift_def hook_read_def hook_call_def checked_sub_def
        sample_evm_def sels checked_add_def hook_word_def to_be_def from_be_def be_nat_def
        RECORD_CURSOR_def RECORD_COUNT_def RECORD_TARGET_COUNT_def LIMITS_def apply_records_def election_step_def)
  moreover have "metered sample_evm" by (auto simp: metered_def sample_evm_def split: if_splits)
  moreover have "hook_enabled sample_hook" by (simp add: hook_enabled_def sample_hook_def)
  ultimately show ?thesis using run_hooks_exact [OF _ _ run] by simp
qed

end
