(* ===== verification/Record_Import.thy ===== *)
theory Record_Import
  imports Root_Input
begin

text \<open>
  The mandatory root-record import of one block, \<open>execution/src/records.rs\<close>: the staged admission of
  the companion bytes (byte cap, scan price, structural walk, entry price, collecting walk, hash) and
  the privileged call it builds. The walk counts tokens; the theorems show that the token bound is
  structural, that the two walks agree, and that admission decides exactly the canonical encodings.
\<close>

section \<open>Constants and types\<close>

definition IMPORT_DOMAIN :: bytes where
  "IMPORT_DOMAIN = ascii ''UNICITY_P85_RECORD_IMPORT''"

definition MAX_IMPORT_BYTES :: nat where
  "MAX_IMPORT_BYTES = 16384"

definition MAX_IMPORT_ENTRIES :: nat where
  "MAX_IMPORT_ENTRIES = 32"

definition MAX_IMPORT_TOKENS :: u64 where
  "MAX_IMPORT_TOKENS = 512"

definition SCAN_BASE_GAS :: u64 where
  "SCAN_BASE_GAS = 2000"

definition SCAN_BYTE_GAS :: u64 where
  "SCAN_BYTE_GAS = 16"

definition ENTRY_GAS :: u64 where
  "ENTRY_GAS = 1000"

definition MAX_ADMISSION_GAS :: u64 where
  "MAX_ADMISSION_GAS =
     SCAN_BASE_GAS + SCAN_BYTE_GAS * of_nat MAX_IMPORT_BYTES + ENTRY_GAS * of_nat MAX_IMPORT_ENTRIES"

definition IMPORT_EXECUTION_GAS :: u64 where
  "IMPORT_EXECUTION_GAS = 18000000"

definition IMPORT_ENVELOPE_GAS :: u64 where
  "IMPORT_ENVELOPE_GAS = MAX_ADMISSION_GAS + IMPORT_EXECUTION_GAS"

definition ENTRY_TOKENS :: u64 where
  "ENTRY_TOKENS = 9"

record record_entry =
  re_index :: u64
  re_record_id :: b256
  re_predecessor :: b256
  re_kind :: u8
  re_progress :: u64
  re_uc_time :: u64
  re_data :: bytes
  re_closed_epoch :: u64

record record_import =
  rm_progress :: u64
  rm_uc_time :: u64
  rm_target_count :: u64
  rm_target_tip :: b256
  rm_entries :: "record_entry list"

record admitted_import =
  ai_import :: record_import
  ai_gas :: u64

datatype import_error =
    ImportTooLarge nat | ScanBudget | EntryBudget | ImportEncoding canonical_cbor_error | ImportDomain
  | TooManyEntries nat | UnknownKind u64 | PayloadWidth u8 nat | ClosedEpochOnNonClosure
  | ZeroTargetTip | TooManyTokens | ImportHashMismatch | ImportOverflow

definition payload_width :: "u64 \<Rightarrow> nat option" where
  "payload_width kind =
     (if kind = 1 then Some 32 else if kind = 2 then Some 128 else if kind = 3 then Some 288
      else if kind = 4 then Some 192 else if kind = 5 then Some 96 else None)"

definition scan_gas :: "nat \<Rightarrow> u64 option" where
  "scan_gas len =
     (case checked_mul SCAN_BYTE_GAS (of_nat len) of
        Some n \<Rightarrow> checked_add SCAN_BASE_GAS n
      | None \<Rightarrow> None)"

record import_header =
  ih_progress :: u64
  ih_uc_time :: u64
  ih_target_count :: u64
  ih_target_tip :: b256
  ih_entries :: nat

section \<open>The walk\<close>

definition token :: "u64 \<Rightarrow> u64 \<Rightarrow> import_error + u64" where
  "token count tokens =
     rbind (ok_or ImportOverflow (checked_add tokens count)) (\<lambda>tokens.
     if MAX_IMPORT_TOKENS < tokens then Inl TooManyTokens else Inr tokens)"

definition walk_entry :: "reader \<Rightarrow> import_error + record_entry \<times> reader" where
  "walk_entry r =
     rbind (map_err ImportEncoding (read_array r)) (\<lambda>(arity, r).
     if arity \<noteq> 8 then Inl (ImportEncoding (WrongArity 8 arity)) else
     rbind (map_err ImportEncoding (read_uint r)) (\<lambda>(index, r).
     rbind (map_err ImportEncoding (read_word r)) (\<lambda>(record_id, r).
     rbind (map_err ImportEncoding (read_word r)) (\<lambda>(predecessor, r).
     rbind (map_err ImportEncoding (read_uint r)) (\<lambda>(kind, r).
     rbind (ok_or (UnknownKind kind) (payload_width kind)) (\<lambda>width.
     rbind (map_err ImportEncoding (read_uint r)) (\<lambda>(progress, r).
     rbind (map_err ImportEncoding (read_uint r)) (\<lambda>(uc_time, r).
     rbind (map_err ImportEncoding (read_bounded_bytes ''record payload'' width r)) (\<lambda>(data, r).
     if length data \<noteq> width then Inl (PayloadWidth (ucast kind) (length data)) else
     rbind (map_err ImportEncoding (read_uint r)) (\<lambda>(closed_epoch, r).
     if kind \<noteq> 4 \<and> closed_epoch \<noteq> 0 then Inl ClosedEpochOnNonClosure else
     Inr (\<lparr>re_index = index, re_record_id = record_id, re_predecessor = predecessor, re_kind = ucast kind,
       re_progress = progress, re_uc_time = uc_time, re_data = data, re_closed_epoch = closed_epoch\<rparr>, r)))))))))))"

text \<open>The loop of the walk; \<open>out\<close> is the collected vector, which only the second walk fills.\<close>

fun walk_entries ::
  "bool \<Rightarrow> nat \<Rightarrow> u64 \<Rightarrow> record_entry list \<Rightarrow> reader \<Rightarrow> import_error + record_entry list \<times> reader" where
  "walk_entries collect 0 tokens out r = Inr (out, r)"
| "walk_entries collect (Suc n) tokens out r =
     rbind (token ENTRY_TOKENS tokens) (\<lambda>tokens.
     rbind (walk_entry r) (\<lambda>(e, r).
     walk_entries collect n tokens (if collect then out @ [e] else out) r))"

definition walk :: "bool \<Rightarrow> bytes \<Rightarrow> import_error + import_header \<times> record_entry list" where
  "walk collect raw =
     rbind (map_err ImportEncoding (read_array (decoder_new raw))) (\<lambda>(arity, r).
     rbind (token 1 0) (\<lambda>tokens.
     if arity \<noteq> 6 then Inl (ImportEncoding (WrongArity 6 arity)) else
     rbind (token 1 tokens) (\<lambda>tokens.
     rbind (map_err ImportEncoding (read_text r)) (\<lambda>(domain, r).
     if domain \<noteq> IMPORT_DOMAIN then Inl ImportDomain else
     rbind (token 4 tokens) (\<lambda>tokens.
     rbind (map_err ImportEncoding (read_uint r)) (\<lambda>(progress, r).
     rbind (map_err ImportEncoding (read_uint r)) (\<lambda>(uc_time, r).
     rbind (map_err ImportEncoding (read_uint r)) (\<lambda>(target_count, r).
     rbind (map_err ImportEncoding (read_word r)) (\<lambda>(target_tip, r).
     if target_count = 0 \<and> target_tip \<noteq> 0 then Inl ZeroTargetTip else
     rbind (token 1 tokens) (\<lambda>tokens.
     rbind (map_err ImportEncoding (read_array r)) (\<lambda>(entries, r).
     if MAX_IMPORT_ENTRIES < entries then Inl (TooManyEntries entries) else
     rbind (walk_entries collect entries tokens [] r) (\<lambda>(out, r).
     rbind (map_err ImportEncoding (dec_finish r)) (\<lambda>_.
     Inr (\<lparr>ih_progress = progress, ih_uc_time = uc_time, ih_target_count = target_count,
       ih_target_tip = target_tip, ih_entries = entries\<rparr>, out))))))))))))))"

section \<open>Admission\<close>

definition admit_import :: "sha256 \<Rightarrow> bytes \<Rightarrow> b256 \<Rightarrow> u64 \<Rightarrow> import_error + admitted_import" where
  "admit_import sha256 raw committed_hash budget =
     (if MAX_IMPORT_BYTES < length raw then Inl (ImportTooLarge (length raw)) else
     rbind (ok_or ImportOverflow (scan_gas (length raw))) (\<lambda>scan.
     if budget < scan then Inl ScanBudget else
     rbind (walk False raw) (\<lambda>(hd, _).
     rbind (ok_or ImportOverflow (checked_mul ENTRY_GAS (of_nat (ih_entries hd)))) (\<lambda>entries_gas.
     if budget - scan < entries_gas then Inl EntryBudget else
     rbind (walk True raw) (\<lambda>(decoded, entries).
     if sha256 raw \<noteq> committed_hash then Inl ImportHashMismatch else
     Inr \<lparr>ai_import = \<lparr>rm_progress = ih_progress decoded, rm_uc_time = ih_uc_time decoded,
         rm_target_count = ih_target_count decoded, rm_target_tip = ih_target_tip decoded,
         rm_entries = entries\<rparr>,
       ai_gas = scan + entries_gas\<rparr>)))))"

definition entry_bytes :: "record_entry \<Rightarrow> bytes" where
  "entry_bytes e =
     put_array 8 @ put_uint (re_index e) @ put_word (re_record_id e) @ put_word (re_predecessor e) @
     put_uint (ucast (re_kind e)) @ put_uint (re_progress e) @ put_uint (re_uc_time e) @
     put_bytes (re_data e) @ put_uint (re_closed_epoch e)"

definition import_to_bytes :: "record_import \<Rightarrow> bytes" where
  "import_to_bytes i =
     put_array 6 @ put_text IMPORT_DOMAIN @ put_uint (rm_progress i) @ put_uint (rm_uc_time i) @
     put_uint (rm_target_count i) @ put_word (rm_target_tip i) @
     put_array (length (rm_entries i)) @ concat (map entry_bytes (rm_entries i))"

record root_record =
  rr_index :: u64
  rr_record_id :: b256
  rr_predecessor :: b256
  rr_kind :: u8
  rr_progress :: u64
  rr_uc_time :: u64
  rr_data :: bytes

record import_root_records_call =
  irc_n :: u64
  irc_p :: u64
  irc_t :: u64
  irc_target_count :: u64
  irc_target_tip :: b256
  irc_entries :: "(root_record \<times> u64) list"

text \<open>The ABI encoding of the call is the \<open>sol!\<close> macro's: a parameter.\<close>

definition import_call_data :: "(import_root_records_call \<Rightarrow> bytes) \<Rightarrow> record_import \<Rightarrow> u64 \<Rightarrow> bytes" where
  "import_call_data abi_encode i n =
     abi_encode \<lparr>irc_n = n, irc_p = rm_progress i, irc_t = rm_uc_time i,
       irc_target_count = rm_target_count i, irc_target_tip = rm_target_tip i,
       irc_entries = map (\<lambda>e.
         (\<lparr>rr_index = re_index e, rr_record_id = re_record_id e, rr_predecessor = re_predecessor e,
           rr_kind = re_kind e, rr_progress = re_progress e, rr_uc_time = re_uc_time e,
           rr_data = re_data e\<rparr>, re_closed_epoch e)) (rm_entries i)\<rparr>"

section \<open>The walk is exact\<close>

definition entry_ok :: "record_entry \<Rightarrow> bool" where
  "entry_ok e \<longleftrightarrow>
     payload_width (ucast (re_kind e)) = Some (length (re_data e)) \<and>
     (re_kind e \<noteq> 4 \<longrightarrow> re_closed_epoch e = 0)"

definition import_ok :: "record_import \<Rightarrow> bool" where
  "import_ok i \<longleftrightarrow>
     (rm_target_count i = 0 \<longrightarrow> rm_target_tip i = 0) \<and> length (rm_entries i) \<le> MAX_IMPORT_ENTRIES \<and>
     (\<forall>e \<in> set (rm_entries i). entry_ok e)"

lemma payload_width_small: "payload_width k = Some n \<Longrightarrow> n \<le> 288"
  by (auto simp: payload_width_def split: if_splits)

lemma payload_kind:
  assumes "payload_width k = Some n"
  shows "ucast (ucast k :: u8) = k" "ucast k = (4 :: u8) \<longleftrightarrow> k = 4"
  using assms by (auto simp: payload_width_def split: if_splits)

lemma bounded_chain_err:
  "short r0 \<Longrightarrow> limit < 2 ^ 64 \<Longrightarrow>
    (\<exists>r. reads r0 acc r \<and> rbind (map_err g (read_bounded_bytes w limit r)) f = Inr y) \<longleftrightarrow>
    (\<exists>bs. length bs \<le> limit \<and> (\<exists>r. reads r0 (acc @ put_bytes bs) r \<and> f (bs, r) = Inr y))"
  by (rule read_next) (simp_all add: read_bounded_bytes_iff map_err_Inr_iff)

lemma walk_entry_iff:
  assumes "short r"
  shows "walk_entry r = Inr (e, r') \<longleftrightarrow> entry_ok e \<and> reads r (entry_bytes e) r'"
proof -
  have width: "n < 2 ^ 64" if "payload_width k = Some n" for k n
    using payload_width_small [OF that] by simp
  show ?thesis
    using assms width
    by (cases e) (auto simp: walk_entry_def entry_bytes_def entry_ok_def array_item.first_err
        uint_item.chain_err word_item.chain_err bounded_chain_err read_ends
        read_pure [of _ "ok_or _ _"] ok_or_Inr_iff payload_kind
        cong: conj_cong intro!: exI [of _ "ucast (re_kind e)"])
qed

interpretation entry_item: item_codec entry_bytes walk_entry entry_ok
  by unfold_locales (rule walk_entry_iff)

text \<open>The token counter stays below its bound: the walk never ends by it.\<close>

lemma token_passes:
  "unat tokens + unat count \<le> 512 \<Longrightarrow> token count tokens = Inr (tokens + count)"
  by (simp add: token_def checked_add_def MAX_IMPORT_TOKENS_def word_less_nat_alt unat_add_exact)

lemma walk_entries_iff:
  assumes "short r" "unat tokens + 9 * n \<le> 512"
  shows "walk_entries collect n tokens out r = Inr (out', r') \<longleftrightarrow>
    (\<exists>es. (length es = n \<and> (\<forall>e \<in> set es. entry_ok e)) \<and> reads r (concat (map entry_bytes es)) r' \<and>
      out' = (if collect then out @ es else out))"
proof -
  let ?upd = "\<lambda>(tokens, out) e. (tokens + ENTRY_TOKENS, if collect then out @ [e] else out)"
  have count: "unat (t + ENTRY_TOKENS) = unat t + 9" if "unat t + 9 * Suc n \<le> 512" for t n
    using that by (subst unat_add_exact) (simp_all add: ENTRY_TOKENS_def)
  have "walk_entries collect n (fst (tokens, out)) (snd (tokens, out)) r = Inr (out', r') \<longleftrightarrow>
    (\<exists>es. (length es = n \<and> (\<forall>e \<in> set es. entry_ok e)) \<and> reads r (concat (map entry_bytes es)) r' \<and>
      out' = snd (foldl ?upd (tokens, out) es))"
    unfolding entry_item.put_all_concat [symmetric]
    by (rule entry_item.fold_loop [where P = "\<lambda>n s. unat (fst s) + 9 * n \<le> 512" and upd = ?upd])
      (use assms in \<open>auto simp: rbind_Inr_iff token_passes count ENTRY_TOKENS_def [THEN arg_cong, of unat, simplified] cong: if_cong\<close>)
  moreover have "snd (foldl ?upd (t, out) es) = (if collect then out @ es else out)" for t es
    by (induction es arbitrary: t out) auto
  ultimately show ?thesis by simp
qed

lemma walk_entries_chain:
  assumes "short r0" "unat tokens + 9 * n \<le> 512"
  shows "(\<exists>r. reads r0 acc r \<and> rbind (walk_entries collect n tokens [] r) f = Inr y) \<longleftrightarrow>
    (\<exists>es. (length es = n \<and> (\<forall>e \<in> set es. entry_ok e)) \<and>
      (\<exists>r. reads r0 (acc @ concat (map entry_bytes es)) r \<and> f (if collect then es else [], r) = Inr y))"
proof -
  have "rbind (walk_entries collect n tokens [] r) f = Inr y \<longleftrightarrow>
      (\<exists>es. (length es = n \<and> (\<forall>e \<in> set es. entry_ok e)) \<and>
        (\<exists>r'. reads r (concat (map entry_bytes es)) r' \<and> f (if collect then es else [], r') = Inr y))"
    if "reads r0 acc r" for r
    using walk_entries_iff [OF reads_short [OF that assms(1)] assms(2), of collect "[]"]
    unfolding rbind_Inr_iff split_paired_Ex append_Nil by (simp only:) blast
  then show ?thesis unfolding reads_append_iff by blast
qed

lemma import_domain_text: "utf8_valid IMPORT_DOMAIN" "length IMPORT_DOMAIN = 25"
  by (simp_all add: IMPORT_DOMAIN_def ascii_def)

definition import_header_of :: "record_import \<Rightarrow> import_header" where
  "import_header_of i =
     \<lparr>ih_progress = rm_progress i, ih_uc_time = rm_uc_time i, ih_target_count = rm_target_count i,
      ih_target_tip = rm_target_tip i, ih_entries = length (rm_entries i)\<rparr>"

lemma walk_iff:
  assumes "slice raw"
  shows "walk collect raw = Inr (h, out) \<longleftrightarrow>
    (\<exists>i. import_ok i \<and> raw = import_to_bytes i \<and> h = import_header_of i \<and>
      out = (if collect then rm_entries i else []))"
proof -
  have r: "short (decoder_new raw)" using assms by simp
  have tokens: "token 1 0 = Inr 1" "token 1 1 = Inr 2" "token 4 2 = Inr 6" "token 1 6 = Inr 7"
    by (simp_all add: token_passes)
  have counted: "(\<exists>n < 18446744073709551616. \<not> 32 < n \<and> (\<exists>es. length es = n \<and> B n es)) \<longleftrightarrow>
      (\<exists>es. length es \<le> 32 \<and> B (length es) es)" for B :: "nat \<Rightarrow> record_entry list \<Rightarrow> bool"
  proof -
    have "n \<le> 32 \<Longrightarrow> n < 18446744073709551616" for n :: nat by simp
    then show ?thesis unfolding not_less by blast
  qed
  have "walk collect raw = Inr (h, out) \<longleftrightarrow>
    (\<exists>p t c tip es. (c = 0 \<longrightarrow> tip = 0) \<and> length es \<le> MAX_IMPORT_ENTRIES \<and> (\<forall>e \<in> set es. entry_ok e) \<and>
      raw = import_to_bytes \<lparr>rm_progress = p, rm_uc_time = t, rm_target_count = c, rm_target_tip = tip, rm_entries = es\<rparr> \<and>
      h = \<lparr>ih_progress = p, ih_uc_time = t, ih_target_count = c, ih_target_tip = tip, ih_entries = length es\<rparr> \<and>
      out = (if collect then es else []))"
    using assms r import_domain_text
    by (simp add: walk_def tokens counted array_item.first_err array_item.chain_err text_item.chain_err
      uint_item.chain_err word_item.chain_err read_guard walk_entries_chain MAX_IMPORT_ENTRIES_def
      read_finish_err import_to_bytes_def eq_commute [of _ raw] eq_commute [of _ h] eq_commute [of _ out]
      cong: conj_cong split del: if_split)
  also have "\<dots> \<longleftrightarrow> (\<exists>i. import_ok i \<and> raw = import_to_bytes i \<and> h = import_header_of i \<and>
      out = (if collect then rm_entries i else []))"
    by (simp add: record_import.splits import_ok_def import_header_of_def cong: if_cong split del: if_split)
  finally show ?thesis .
qed

section \<open>Admission is exact\<close>

definition admission_gas :: "nat \<Rightarrow> nat \<Rightarrow> nat" where
  "admission_gas len n = 2000 + 16 * len + 1000 * n"

lemma import_to_bytes_inj:
  assumes "import_ok i" "import_ok j" "import_to_bytes i = import_to_bytes j" "slice (import_to_bytes i)"
  shows "i = j"
proof -
  have "walk True (import_to_bytes i) = Inr (import_header_of i, rm_entries i)"
    using walk_iff [OF assms(4), of True] assms(1) by auto
  moreover have "walk True (import_to_bytes i) = Inr (import_header_of j, rm_entries j)"
    using walk_iff [OF assms(4), of True] assms(2,3) by auto
  ultimately show ?thesis by (cases i; cases j) (auto simp: import_header_of_def)
qed

lemma scan_gas_Some:
  assumes "len \<le> MAX_IMPORT_BYTES"
  shows "\<exists>g. scan_gas len = Some g \<and> unat g = 2000 + 16 * len"
proof -
  have "unat (of_nat len :: u64) = len" using assms by (simp add: MAX_IMPORT_BYTES_def unat_of_nat)
  then have "unat (SCAN_BYTE_GAS * of_nat len) = 16 * len"
    using assms by (subst unat_mult_exact) (simp_all add: SCAN_BYTE_GAS_def MAX_IMPORT_BYTES_def)
  then show ?thesis
    using assms \<open>unat (of_nat len :: u64) = len\<close>
    by (simp add: scan_gas_def checked_mul_def checked_add_def SCAN_BYTE_GAS_def SCAN_BASE_GAS_def
        MAX_IMPORT_BYTES_def unat_add_exact)
qed

lemma entries_gas_Some:
  assumes "n \<le> MAX_IMPORT_ENTRIES"
  shows "\<exists>g. checked_mul ENTRY_GAS (of_nat n) = Some g \<and> unat g = 1000 * n"
proof -
  have "unat (of_nat n :: u64) = n" using assms by (simp add: MAX_IMPORT_ENTRIES_def unat_of_nat)
  then show ?thesis
    using assms by (simp add: checked_mul_def ENTRY_GAS_def MAX_IMPORT_ENTRIES_def unat_mult_exact)
qed

lemma admit_import_iff:
  "admit_import sha256 raw committed budget = Inr a \<longleftrightarrow>
     length raw \<le> MAX_IMPORT_BYTES \<and> import_ok (ai_import a) \<and> raw = import_to_bytes (ai_import a) \<and>
     sha256 raw = committed \<and>
     unat (ai_gas a) = admission_gas (length raw) (length (rm_entries (ai_import a))) \<and>
     unat (ai_gas a) \<le> unat budget"
proof (cases "length raw \<le> MAX_IMPORT_BYTES")
  case True
  then have raw: "slice raw" by (simp add: slice_def MAX_IMPORT_BYTES_def)
  from scan_gas_Some [OF True] obtain scan where scan: "scan_gas (length raw) = Some scan"
    and scan_nat: "unat scan = 2000 + 16 * length raw" by blast
  show ?thesis
  proof (cases "\<exists>i. import_ok i \<and> raw = import_to_bytes i")
    case False
    then have "walk False raw \<noteq> Inr w" for w using walk_iff [OF raw, of False "fst w" "snd w"] by auto
    then show ?thesis using False True scan
      by (auto simp: admit_import_def result_iff split: prod.splits)
  next
    case True
    then obtain i where i: "import_ok i" "raw = import_to_bytes i" by blast
    have walk: "walk c raw = Inr (import_header_of i, if c then rm_entries i else [])" for c
      using walk_iff [OF raw] i by auto
    have same: "import_ok j \<and> raw = import_to_bytes j \<longleftrightarrow> j = i" for j
      using import_to_bytes_inj [of i j] i raw by auto
    have n: "length (rm_entries i) \<le> MAX_IMPORT_ENTRIES" using i(1) by (simp add: import_ok_def)
    from entries_gas_Some [OF n] obtain eg where eg: "checked_mul ENTRY_GAS (of_nat (length (rm_entries i))) = Some eg"
      and eg_nat: "unat eg = 1000 * length (rm_entries i)" by blast
    have "unat scan + unat eg < 2 ^ LENGTH(64)"
      using scan_nat eg_nat n \<open>length raw \<le> MAX_IMPORT_BYTES\<close>
      by (simp add: MAX_IMPORT_ENTRIES_def MAX_IMPORT_BYTES_def)
    then have gas: "unat (scan + eg) = admission_gas (length raw) (length (rm_entries i))"
      by (simp add: unat_add_exact scan_nat eg_nat admission_gas_def)
    have "admit_import sha256 raw committed budget = Inr a \<longleftrightarrow>
        (scan \<le> budget \<and> eg \<le> budget - scan) \<and> sha256 raw = committed \<and> a = \<lparr>ai_import = i, ai_gas = scan + eg\<rparr>"
      using \<open>length raw \<le> MAX_IMPORT_BYTES\<close> scan eg
      by (cases i) (auto simp: admit_import_def walk import_header_of_def result_iff not_less)
    also have "scan \<le> budget \<and> eg \<le> budget - scan \<longleftrightarrow> unat (scan + eg) \<le> unat budget"
      using gas by (auto simp: word_le_nat_alt unat_sub admission_gas_def scan_nat eg_nat)
    finally show ?thesis
      using same [of "ai_import a"] gas \<open>length raw \<le> MAX_IMPORT_BYTES\<close>
      by (cases a) (auto simp: word_unat_eq_iff)
  qed
qed (auto simp: admit_import_def)

section \<open>Properties\<close>

text \<open>
  Claim C22. Admission of a root-record import is exact. It accepts precisely the canonical bytes of a
  well-formed import (at most 32 entries, every payload of its kind's width, a closed epoch only on a
  closure, no tip without a target) of at most 16384 bytes that hash to the committed value, when
  \<open>2000 + 16C + 1000N\<close> fits the budget; the charge is exactly that and never above the envelope's share.
  In particular the token bound and the second walk refuse nothing.
\<close>

theorem admit_import_exact:
  "admit_import sha256 raw committed budget = Inr a \<longleftrightarrow>
     length raw \<le> MAX_IMPORT_BYTES \<and> import_ok (ai_import a) \<and> raw = import_to_bytes (ai_import a) \<and>
     sha256 raw = committed \<and>
     unat (ai_gas a) = admission_gas (length raw) (length (rm_entries (ai_import a))) \<and>
     ai_gas a \<le> budget \<and> ai_gas a \<le> MAX_ADMISSION_GAS"
proof -
  have "ai_gas a \<le> MAX_ADMISSION_GAS"
    if "length raw \<le> MAX_IMPORT_BYTES" "import_ok (ai_import a)"
      "unat (ai_gas a) = admission_gas (length raw) (length (rm_entries (ai_import a)))"
    using that
    by (simp add: word_le_nat_alt import_ok_def admission_gas_def MAX_IMPORT_BYTES_def MAX_IMPORT_ENTRIES_def
        MAX_ADMISSION_GAS_def SCAN_BASE_GAS_def SCAN_BYTE_GAS_def ENTRY_GAS_def)
  then show ?thesis by (auto simp: admit_import_iff word_le_nat_alt)
qed

end
