(* ===== verification/Update_Admission.thy ===== *)
theory Update_Admission
  imports Update_Codec Records_Hook Record_Import Quantization Block_Accounting
begin

text \<open>
  Admission of the committed B1 update, \<open>execution/src/update.rs\<close>: the profile bindings, the staged byte,
  scan and member charges, the bindings of the update to its block and the rules of the entries it
  installs. Whether a compressed key is a curve point is decided by \<open>secp256k1\<close>, a parameter.
\<close>

section \<open>Profile\<close>

definition MAX_ENTRY_BYTES :: nat where "MAX_ENTRY_BYTES = 16384"
definition UPDATE_SCAN_BASE_GAS :: u64 where "UPDATE_SCAN_BASE_GAS = 2000"
definition UPDATE_SCAN_BYTE_GAS :: u64 where "UPDATE_SCAN_BYTE_GAS = 16"
definition MEMBER_GAS :: u64 where "MEMBER_GAS = 1000"
definition UPDATE_GAS_BASE :: u64 where "UPDATE_GAS_BASE = 155936"
definition EPOCH_GAS_FIXED :: u64 where "EPOCH_GAS_FIXED = 505244"
definition EPOCH_GAS_PER_MEMBER :: u64 where "EPOCH_GAS_PER_MEMBER = 177800"
definition EPOCH_GAS :: u64 where "EPOCH_GAS = EPOCH_GAS_FIXED + EPOCH_GAS_PER_MEMBER * MAX_MEMBERS"
definition REST_GAS_BASE :: u64 where "REST_GAS_BASE = 1150000"
definition REST_GAS_PER_EPOCH :: u64 where "REST_GAS_PER_EPOCH = 250000"
definition MAX_MEASURED_B :: u64 where "MAX_MEASURED_B = 2"
definition MIN_EPOCHS_PER_UPDATE :: u64 where "MIN_EPOCHS_PER_UPDATE = 2"

record b1_context =
  bc_network :: u16
  bc_root_genesis_id :: b256
  bc_execution_chain_id :: u64
  bc_profile_hash :: b256
  bc_genesis_commitment :: b256
  bc_max_epochs :: u64
  bc_hook :: records_hook

definition context_b :: "b1_context \<Rightarrow> update_error + u64" where
  "context_b c =
     (if bc_max_epochs c < MIN_EPOCHS_PER_UPDATE then Inl (EpochsBelowSpan (bc_max_epochs c))
      else if MAX_MEASURED_B < bc_max_epochs c then Inl (UnmeasuredEpochs (bc_max_epochs c))
      else Inr (bc_max_epochs c))"

definition max_update_bytes :: "b1_context \<Rightarrow> update_error + u64" where
  "max_update_bytes c = rbind (context_b c) (\<lambda>b. Inr (4096 + of_nat MAX_ENTRY_BYTES * b))"

text \<open>The unchecked sums of the source are word additions: they wrap, as in the release profile, which has no overflow checks.\<close>

definition required_system_gas :: "b1_context \<Rightarrow> update_error + u64" where
  "required_system_gas c =
     rbind (context_b c) (\<lambda>b.
     rbind (map_err (\<lambda>_. UpdateOverflow) (envelope_gas (bc_hook c))) (\<lambda>hook.
     Inr (UPDATE_GAS_BASE + REST_GAS_BASE + (EPOCH_GAS + REST_GAS_PER_EPOCH) * b + IMPORT_ENVELOPE_GAS + hook)))"

definition max_tokens :: "b1_context \<Rightarrow> update_error + u64" where
  "max_tokens c = rbind (context_b c) (\<lambda>b. Inr (32 + 266 * b))"

section \<open>Entries\<close>

fun check_members_from ::
  "(bytes \<Rightarrow> bool) \<Rightarrow> b1_member list \<Rightarrow> u64 \<Rightarrow> b1_member list \<Rightarrow> update_error + u64" where
  "check_members_from valid_key prev tot [] = Inr tot"
| "check_members_from valid_key prev tot (m # ms) =
     (if prev \<noteq> [] \<and> mb_node_id m \<le> mb_node_id (last prev) then Inl MembersNotSorted
      else if mb_weight m = 0 then Inl ZeroWeight
      else if \<not> valid_key (mb_key m) then Inl InvalidKey
      else if mb_key m \<in> mb_key ` set prev then Inl DuplicateKey
      else rbind (ok_or WeightOverflow (checked_add tot (mb_weight m))) (\<lambda>tot.
        check_members_from valid_key (prev @ [m]) tot ms))"

definition check_members :: "(bytes \<Rightarrow> bool) \<Rightarrow> b1_entry \<Rightarrow> update_error + unit" where
  "check_members valid_key e =
     rbind (check_members_from valid_key [] 0 (en_members e)) (\<lambda>tot.
     if WEIGHT_CAP_B < tot then Inl WeightCap else Inr ())"

definition entry_validate :: "(bytes \<Rightarrow> bool) \<Rightarrow> b1_entry \<Rightarrow> update_error + unit" where
  "entry_validate valid_key e =
     (if \<not> (1 \<le> en_body_kind e \<and> en_body_kind e \<le> 3) \<or> en_body_id e = 0 \<or> en_signing_config_hash e = 0 \<or>
         \<not> (en_signing_scheme e = 1 \<or> en_signing_scheme e = 2) \<or>
         (en_body_kind e = 1) \<noteq> (en_activation_commit_id e = 0)
      then Inl EntryIdentity
      else if (case en_end e of Some stop \<Rightarrow> stop \<le> en_start e | None \<Rightarrow> False) then Inl EmptyInterval
      else check_members valid_key e)"

fun check_entry_loop ::
  "(bytes \<Rightarrow> bool) \<Rightarrow> b1_update \<Rightarrow> b1_entry option \<Rightarrow> b1_entry list \<Rightarrow> update_error + unit" where
  "check_entry_loop valid_key u prev [] = Inr ()"
| "check_entry_loop valid_key u prev (e # es) =
     rbind (entry_validate valid_key e) (\<lambda>_.
     if en_body_kind e = 1 then Inl GenesisKindInUpdate
     else if en_epoch e \<le> up_prior_tip_epoch u then Inl EpochNotNewer
     else if up_origin_round u < en_start e then Inl StartAfterOrigin
     else if (case en_end e of Some stop \<Rightarrow> up_origin_round u < stop | None \<Rightarrow> False) then Inl EndAfterOrigin
     else if (case prev of
         Some p \<Rightarrow> checked_add (en_epoch p) 1 \<noteq> Some (en_epoch e) \<or> en_end p \<noteq> Some (en_start e)
       | None \<Rightarrow> False) then Inl NotContiguous
     else check_entry_loop valid_key u (Some e) es)"

definition check_entries :: "(bytes \<Rightarrow> bool) \<Rightarrow> b1_update \<Rightarrow> update_error + unit" where
  "check_entries valid_key u =
     rbind (check_entry_loop valid_key u None (up_new_entries u)) (\<lambda>_.
     case up_new_entries u of
       first # _ \<Rightarrow>
         rbind (ok_or OldTipEndMismatch (up_old_tip_end u)) (\<lambda>stop.
         if en_start first < stop \<or>
            (checked_add (up_prior_tip_epoch u) 1 = Some (en_epoch first) \<and> stop \<noteq> en_start first)
         then Inl OldTipEndMismatch
         else let tail = last (up_new_entries u) in
           if en_end tail \<noteq> None \<or> en_epoch tail \<noteq> up_origin_epoch u then Inl TailNotOrigin else Inr ())
     | [] \<Rightarrow>
         if up_old_tip_end u \<noteq> None \<or> up_prior_tip_epoch u \<noteq> up_origin_epoch u
         then Inl EmptyUpdateMismatch else Inr ())"

section \<open>Admission\<close>

record admitted_update =
  au_update :: b1_update
  au_gas :: u64

record update_binding =
  ub_committed_hash :: b256
  ub_parent_hash :: b256
  ub_parent_number :: u64
  ub_origin_epoch :: u64
  ub_origin_round :: u64
  ub_origin_identity :: b256

definition check_bindings :: "b1_update \<Rightarrow> b1_context \<Rightarrow> update_binding \<Rightarrow> update_error + unit" where
  "check_bindings u c b =
     (if up_network u \<noteq> bc_network c then Inl UpNetworkMismatch
      else if up_root_genesis_id u \<noteq> bc_root_genesis_id c then Inl UpRootGenesisMismatch
      else if up_execution_chain_id u \<noteq> bc_execution_chain_id c then Inl ChainMismatch
      else if up_profile_hash u \<noteq> bc_profile_hash c then Inl ProfileMismatch
      else if up_parent_hash u = 0 \<or> up_parent_hash u \<noteq> ub_parent_hash b then Inl ParentMismatch
      else if checked_add (ub_parent_number b) 1 \<noteq> Some (up_block_number u) then Inl BlockNumberMismatch
      else if up_origin_epoch u \<noteq> ub_origin_epoch b then Inl UpOriginEpochMismatch
      else if up_origin_round u \<noteq> ub_origin_round b then Inl UpOriginRoundMismatch
      else if up_origin_identity u = 0 \<or> up_origin_identity u \<noteq> ub_origin_identity b
      then Inl OriginIdentityMismatch
      else Inr ())"

definition admit ::
  "sha256 \<Rightarrow> (bytes \<Rightarrow> bool) \<Rightarrow> bytes \<Rightarrow> b1_context \<Rightarrow> update_binding \<Rightarrow> u64 \<Rightarrow> update_error + admitted_update" where
  "admit sha256 valid_key raw context binding budget =
     rbind (context_b context) (\<lambda>k.
     rbind (max_update_bytes context) (\<lambda>cap.
     if cap < of_nat (length raw) then Inl (UpdateTooLarge (length raw) cap) else
     let scan = UPDATE_SCAN_BASE_GAS + UPDATE_SCAN_BYTE_GAS * of_nat (length raw) in
     if budget < scan then Inl UpdateScanBudget else
     rbind (max_tokens context) (\<lambda>tokens.
     rbind (parse_update raw k tokens False) (\<lambda>(_, members).
     if (budget - scan) div MEMBER_GAS < members then Inl MemberBudget else
     let gas = scan + MEMBER_GAS * members in
     rbind (parse_update raw k tokens True) (\<lambda>(decoded, _).
     case decoded of
       None \<Rightarrow> Inl Encoding
     | Some update \<Rightarrow>
         if sha256 raw \<noteq> ub_committed_hash binding then Inl CommittedHashMismatch else
         rbind (check_bindings update context binding) (\<lambda>_.
         rbind (check_entries valid_key update) (\<lambda>_.
         Inr \<lparr>au_update = update, au_gas = gas\<rparr>)))))))"

record b1_job =
  bj_context :: b1_context
  bj_update :: bytes
  bj_records :: bytes

definition check_bound :: "sha256 \<Rightarrow> b1_job \<Rightarrow> root_input \<Rightarrow> block_profile \<Rightarrow> block_accounting_error + unit" where
  "check_bound sha256 job input profile =
     (if sha256 (bj_update job) \<noteq> ri_b1_update_hash input then Inl UpdateHashMismatch
      else if sha256 (bj_records job) \<noteq> ri_root_records_hash input then Inl RecordsHashMismatch
      else rbind (map_err (\<lambda>_. B1Profile) (required_system_gas (bj_context job))) (\<lambda>required.
        if bp_system_gas profile < required then Inl B1Profile else Inr ()))"

section \<open>Members\<close>

text \<open>What the member checks establish, and that they establish nothing less.\<close>

definition members_ok :: "(bytes \<Rightarrow> bool) \<Rightarrow> b1_member list \<Rightarrow> bool" where
  "members_ok valid_key ms \<longleftrightarrow>
     sorted_wrt (<) (map mb_node_id ms) \<and> distinct (map mb_key ms) \<and>
     (\<forall>m \<in> set ms. 0 < mb_weight m \<and> valid_key (mb_key m)) \<and>
     sum_list (map (\<lambda>m. unat (mb_weight m)) ms) \<le> unat WEIGHT_CAP_B"

lemma sorted_wrt_snoc_last:
  fixes xs :: "'a::linorder list"
  assumes "sorted_wrt (<) xs"
  shows "sorted_wrt (<) (xs @ [y]) \<longleftrightarrow> xs = [] \<or> last xs < y"
proof (cases xs rule: rev_cases)
  case (snoc ys z)
  with assms show ?thesis by (auto simp: sorted_wrt_append intro: less_trans)
qed simp

lemma check_members_from_iff:
  assumes "sorted_wrt (<) (map mb_node_id prev)" "distinct (map mb_key prev)"
  shows "check_members_from valid_key prev tot ms = Inr t \<longleftrightarrow>
    sorted_wrt (<) (map mb_node_id (prev @ ms)) \<and> distinct (map mb_key (prev @ ms)) \<and>
    (\<forall>m \<in> set ms. 0 < mb_weight m \<and> valid_key (mb_key m)) \<and>
    unat t = unat tot + sum_list (map (\<lambda>m. unat (mb_weight m)) ms)"
  using assms
proof (induction ms arbitrary: prev tot)
  case Nil
  then show ?case by (auto simp: word_unat_eq_iff)
next
  case (Cons m ms)
  let ?sorted = "prev = [] \<or> mb_node_id (last prev) < mb_node_id m" and ?fresh = "mb_key m \<notin> mb_key ` set prev"
  have s: "sorted_wrt (<) (map mb_node_id (prev @ [m])) \<longleftrightarrow> ?sorted"
    using sorted_wrt_snoc_last [OF Cons.prems(1), of "mb_node_id m"] by (cases "prev = []") (simp_all add: last_map)
  have d: "distinct (map mb_key (prev @ [m])) \<longleftrightarrow> ?fresh" using Cons.prems(2) by auto
  show ?case
  proof (cases "?sorted \<and> ?fresh")
    case False
    have "\<not> (sorted_wrt (<) (map mb_node_id (prev @ m # ms)) \<and> distinct (map mb_key (prev @ m # ms)))"
      using False s d by (auto simp: sorted_wrt_append)
    with False show ?thesis by (auto simp: not_less)
  next
    case True
    then have IH: "check_members_from valid_key (prev @ [m]) tot ms = Inr t \<longleftrightarrow>
        sorted_wrt (<) (map mb_node_id (prev @ m # ms)) \<and> distinct (map mb_key (prev @ m # ms)) \<and>
        (\<forall>m \<in> set ms. 0 < mb_weight m \<and> valid_key (mb_key m)) \<and>
        unat t = unat tot + sum_list (map (\<lambda>m. unat (mb_weight m)) ms)" for tot
      using Cons.IH [of "prev @ [m]"] s d by simp
    have "check_members_from valid_key prev tot (m # ms) = Inr t \<longleftrightarrow> 0 < mb_weight m \<and> valid_key (mb_key m) \<and>
        (\<exists>w. unat w = unat tot + unat (mb_weight m) \<and> check_members_from valid_key (prev @ [m]) w ms = Inr t)"
      using True by (auto simp: result_iff checked_add_Some_iff word_neq_0_conv)
    also have "\<dots> \<longleftrightarrow> sorted_wrt (<) (map mb_node_id (prev @ m # ms)) \<and> distinct (map mb_key (prev @ m # ms)) \<and>
        (\<forall>m \<in> set (m # ms). 0 < mb_weight m \<and> valid_key (mb_key m)) \<and>
        unat t = unat tot + sum_list (map (\<lambda>m. unat (mb_weight m)) (m # ms))"
    proof -
      have "\<exists>w :: u64. unat w = unat tot + unat (mb_weight m)"
        if "unat t = unat tot + (unat (mb_weight m) + k)" for k
        using unat_of_nat_below [of "unat tot + unat (mb_weight m)" t] that by (intro exI) simp
      then show ?thesis unfolding IH by (auto intro: sym) (metis)
    qed
    finally show ?thesis .
  qed
qed

lemma check_members_iff: "check_members valid_key e = Inr v \<longleftrightarrow> members_ok valid_key (en_members e)"
proof -
  have "check_members valid_key e = Inr v \<longleftrightarrow>
      (\<exists>t. check_members_from valid_key [] 0 (en_members e) = Inr t \<and> unat t \<le> unat WEIGHT_CAP_B)"
    by (auto simp: check_members_def result_iff word_less_nat_alt not_less)
  also have "\<dots> \<longleftrightarrow> members_ok valid_key (en_members e)"
    using unat_of_nat_below [of "sum_list (map (\<lambda>m. unat (mb_weight m)) (en_members e))" WEIGHT_CAP_B]
    by (auto simp: check_members_from_iff members_ok_def intro!: exI [of _ "of_nat (sum_list (map (\<lambda>m. unat (mb_weight m)) (en_members e)))"])
  finally show ?thesis .
qed

section \<open>Intervals\<close>

definition entry_rules :: "(bytes \<Rightarrow> bool) \<Rightarrow> b1_update \<Rightarrow> b1_entry \<Rightarrow> bool" where
  "entry_rules valid_key u e \<longleftrightarrow>
     (en_body_kind e = 2 \<or> en_body_kind e = 3) \<and> en_body_id e \<noteq> 0 \<and> en_activation_commit_id e \<noteq> 0 \<and>
     (en_signing_scheme e = 1 \<or> en_signing_scheme e = 2) \<and> en_signing_config_hash e \<noteq> 0 \<and>
     members_ok valid_key (en_members e) \<and> up_prior_tip_epoch u < en_epoch e \<and> en_start e \<le> up_origin_round u \<and>
     (case en_end e of Some stop \<Rightarrow> en_start e < stop \<and> stop \<le> up_origin_round u | None \<Rightarrow> True)"

definition follows :: "b1_entry \<Rightarrow> b1_entry \<Rightarrow> bool" where
  "follows p e \<longleftrightarrow> unat (en_epoch e) = unat (en_epoch p) + 1 \<and> en_end p = Some (en_start e)"

fun chained :: "b1_entry option \<Rightarrow> b1_entry list \<Rightarrow> bool" where
  "chained prev [] = True"
| "chained prev (e # es) = ((case prev of Some p \<Rightarrow> follows p e | None \<Rightarrow> True) \<and> chained (Some e) es)"

lemma entry_step_iff:
  "check_entry_loop valid_key u prev (e # es) = Inr v \<longleftrightarrow>
     entry_rules valid_key u e \<and> (case prev of Some p \<Rightarrow> follows p e | None \<Rightarrow> True) \<and>
     check_entry_loop valid_key u (Some e) es = Inr v"
proof -
  have kind: "(1 \<le> k \<and> k \<le> 3) \<and> k \<noteq> 1 \<longleftrightarrow> k = 2 \<or> k = 3" for k :: u64
    by (auto simp: word_le_nat_alt word_unat_eq_iff)
  have one: "1 \<le> k \<longleftrightarrow> k \<noteq> 0" for k :: u64
    by (auto simp: word_le_nat_alt word_unat_eq_iff)
  have succ: "checked_add a 1 = Some b \<longleftrightarrow> unat b = unat a + 1" for a b :: u64
    by (simp add: checked_add_Some_iff)
  have "check_entry_loop valid_key u prev (e # es) = Inr v \<longleftrightarrow>
      ((1 \<le> en_body_kind e \<and> en_body_kind e \<le> 3) \<and> en_body_kind e \<noteq> 1) \<and> en_body_id e \<noteq> 0 \<and>
      en_signing_config_hash e \<noteq> 0 \<and> (en_signing_scheme e = 1 \<or> en_signing_scheme e = 2) \<and>
      en_activation_commit_id e \<noteq> 0 \<and> members_ok valid_key (en_members e) \<and>
      up_prior_tip_epoch u < en_epoch e \<and> en_start e \<le> up_origin_round u \<and>
      (case en_end e of Some stop \<Rightarrow> en_start e < stop \<and> stop \<le> up_origin_round u | None \<Rightarrow> True) \<and>
      (case prev of Some p \<Rightarrow> follows p e | None \<Rightarrow> True) \<and> check_entry_loop valid_key u (Some e) es = Inr v"
    by (cases "en_end e"; cases prev)
      (auto simp: entry_validate_def result_iff check_members_iff not_less not_le follows_def succ one split: if_splits)
  then show ?thesis unfolding kind entry_rules_def by blast
qed

lemma check_entry_loop_iff:
  "check_entry_loop valid_key u prev es = Inr v \<longleftrightarrow> (\<forall>e \<in> set es. entry_rules valid_key u e) \<and> chained prev es"
proof (induction es arbitrary: prev)
  case (Cons e es)
  show ?case unfolding entry_step_iff Cons.IH by auto
qed simp

definition entries_rules :: "(bytes \<Rightarrow> bool) \<Rightarrow> b1_update \<Rightarrow> bool" where
  "entries_rules valid_key u \<longleftrightarrow>
     (\<forall>e \<in> set (up_new_entries u). entry_rules valid_key u e) \<and> chained None (up_new_entries u) \<and>
     (case up_new_entries u of
        [] \<Rightarrow> up_old_tip_end u = None \<and> up_prior_tip_epoch u = up_origin_epoch u
      | first # _ \<Rightarrow>
          (\<exists>stop. up_old_tip_end u = Some stop \<and> stop \<le> en_start first \<and>
            (unat (en_epoch first) = unat (up_prior_tip_epoch u) + 1 \<longrightarrow> stop = en_start first)) \<and>
          en_end (last (up_new_entries u)) = None \<and> en_epoch (last (up_new_entries u)) = up_origin_epoch u)"

lemma check_entries_iff: "check_entries valid_key u = Inr v \<longleftrightarrow> entries_rules valid_key u"
proof (cases "up_new_entries u")
  case Nil
  then show ?thesis by (auto simp: check_entries_def entries_rules_def result_iff)
next
  case (Cons e es)
  have "check_entries valid_key u = Inr v \<longleftrightarrow> check_entry_loop valid_key u None (up_new_entries u) = Inr () \<and>
      (case up_new_entries u of [] \<Rightarrow> True | first # _ \<Rightarrow>
          (\<exists>stop. up_old_tip_end u = Some stop \<and> stop \<le> en_start first \<and>
            (unat (en_epoch first) = unat (up_prior_tip_epoch u) + 1 \<longrightarrow> stop = en_start first)) \<and>
          en_end (last (up_new_entries u)) = None \<and> en_epoch (last (up_new_entries u)) = up_origin_epoch u)"
    using Cons by (auto simp: check_entries_def result_iff checked_add_Some_iff Let_def not_less
      simp del: check_entry_loop.simps(2))
  then show ?thesis using Cons by (simp only: check_entry_loop_iff entries_rules_def) simp
qed

text \<open>A chain of entries whose last one is open covers every round from its first start exactly once.\<close>

definition covers :: "b1_entry \<Rightarrow> u64 \<Rightarrow> bool" where
  "covers e t \<longleftrightarrow> en_start e \<le> t \<and> (case en_end e of Some stop \<Rightarrow> t < stop | None \<Rightarrow> True)"

lemma chained_starts:
  assumes "chained (Some p) es" "\<forall>e \<in> set (p # es). entry_rules valid_key u e" "f \<in> set es"
  shows "en_start p < en_start f"
  using assms
proof (induction es arbitrary: p)
  case (Cons e es)
  from Cons.prems have "en_start p < en_start e" by (auto simp: follows_def entry_rules_def)
  then show ?case using Cons by (fastforce intro: less_trans)
qed simp

lemma chained_covers:
  assumes "chained prev (e # es)" "\<forall>x \<in> set (e # es). entry_rules valid_key u x" "en_end (last (e # es)) = None"
    "en_start e \<le> t"
  shows "length (filter (\<lambda>x. covers x t) (e # es)) = 1"
  using assms
proof (induction es arbitrary: prev e)
  case Nil
  then show ?case by (simp add: covers_def)
next
  case (Cons f es)
  have chain: "chained (Some e) (f # es)" and stop: "en_end e = Some (en_start f)"
    using Cons.prems(1) by (simp_all add: follows_def)
  have rules: "\<forall>x \<in> set (f # es). entry_rules valid_key u x" using Cons.prems(2) by simp
  show ?case
  proof (cases "t < en_start f")
    case True
    have "\<not> covers x t" if "x \<in> set (f # es)" for x
    proof -
      have "en_start f \<le> en_start x"
        using that chained_starts [of f es valid_key u x] chain rules by (auto intro: less_imp_le)
      with True have "\<not> en_start x \<le> t" by simp
      then show ?thesis by (simp add: covers_def)
    qed
    then have "filter (\<lambda>x. covers x t) (f # es) = []" by (intro filter_False) blast
    moreover have "covers e t" using True stop Cons.prems(4) by (simp add: covers_def)
    ultimately show ?thesis by simp
  next
    case False
    then have "\<not> covers e t" using stop by (simp add: covers_def)
    moreover have "length (filter (\<lambda>x. covers x t) (f # es)) = 1"
      using False Cons.prems(3) by (intro Cons.IH [OF chain rules]) simp_all
    ultimately show ?thesis by simp
  qed
qed

lemma chained_epochs:
  "chained prev (e # es) \<Longrightarrow> i < length (e # es) \<Longrightarrow> unat (en_epoch ((e # es) ! i)) = unat (en_epoch e) + i"
proof (induction es arbitrary: prev e i)
  case (Cons f es)
  then show ?case
    using Cons.IH [of "Some e" f] by (cases i) (auto simp: follows_def)
qed simp

section \<open>Admission\<close>

lemma context_b_iff: "context_b c = Inr b \<longleftrightarrow> b = 2 \<and> bc_max_epochs c = 2"
  by (auto simp: context_b_def MIN_EPOCHS_PER_UPDATE_def MAX_MEASURED_B_def word_less_nat_alt word_unat_eq_iff)

definition bindings_rules :: "b1_update \<Rightarrow> b1_context \<Rightarrow> update_binding \<Rightarrow> bool" where
  "bindings_rules u c b \<longleftrightarrow>
     up_network u = bc_network c \<and> up_root_genesis_id u = bc_root_genesis_id c \<and>
     up_execution_chain_id u = bc_execution_chain_id c \<and> up_profile_hash u = bc_profile_hash c \<and>
     up_parent_hash u = ub_parent_hash b \<and> up_parent_hash u \<noteq> 0 \<and>
     unat (up_block_number u) = unat (ub_parent_number b) + 1 \<and> up_origin_epoch u = ub_origin_epoch b \<and>
     up_origin_round u = ub_origin_round b \<and> up_origin_identity u = ub_origin_identity b \<and> up_origin_identity u \<noteq> 0"

lemma check_bindings_iff: "check_bindings u c b = Inr v \<longleftrightarrow> bindings_rules u c b"
  by (auto simp: check_bindings_def bindings_rules_def checked_add_Some_iff)

lemma update_tokens_bound: "update_ok 2 u \<Longrightarrow> update_tokens u \<le> 564"
proof -
  assume ok: "update_ok 2 u"
  have "sum_list (map entry_tokens es) \<le> 74 * length es" if "\<forall>e \<in> set es. b1_entry_ok e" for es
    using that by (induction es) (auto simp: entry_tokens_def b1_entry_ok_def)
  then show ?thesis using ok by (fastforce simp: update_ok_def update_tokens_def)
qed

lemma member_total_bound: "update_ok 2 u \<Longrightarrow> member_total (up_new_entries u) \<le> 32"
proof -
  assume ok: "update_ok 2 u"
  have "member_total es \<le> 16 * length es" if "\<forall>e \<in> set es. b1_entry_ok e" for es
    using that by (induction es) (auto simp: member_total_def b1_entry_ok_def)
  then show ?thesis using ok by (fastforce simp: update_ok_def)
qed

lemma update_to_bytes_inj:
  assumes "update_ok 2 u" "update_ok 2 v" "update_to_bytes u = update_to_bytes v" "slice (update_to_bytes u)"
  shows "u = v"
proof -
  have p: "parse_update (update_to_bytes w) 2 564 True = Inr (Some w, of_nat (member_total (up_new_entries w)))"
    if "update_ok 2 w" "slice (update_to_bytes w)" for w
    using parse_update_iff [of "update_to_bytes w" 564 2 True] that update_tokens_bound [OF that(1)] by auto
  show ?thesis using p [OF assms(1,4)] p [OF assms(2)] assms(3,4) by simp
qed

definition update_gas :: "b1_update \<Rightarrow> nat" where
  "update_gas u = 2000 + 16 * length (update_to_bytes u) + 1000 * member_total (up_new_entries u)"

lemma member_charge:
  fixes budget :: u64
  assumes "n \<le> 36864" "m \<le> 32" and scan: "scan = UPDATE_SCAN_BASE_GAS + UPDATE_SCAN_BYTE_GAS * of_nat n"
  shows "\<not> budget < scan \<and> \<not> (budget - scan) div MEMBER_GAS < of_nat m \<longleftrightarrow> 2000 + 16 * n + 1000 * m \<le> unat budget"
    and "scan + MEMBER_GAS * of_nat m = of_nat (2000 + 16 * n + 1000 * m)"
proof -
  have s: "unat scan = 2000 + 16 * n"
    using assms by (simp add: UPDATE_SCAN_BASE_GAS_def UPDATE_SCAN_BYTE_GAS_def unat_word_ariths unat_of_nat)
  have "unat ((budget - scan) div MEMBER_GAS) = (unat budget - (2000 + 16 * n)) div 1000" if "scan \<le> budget"
    using that s unat_sub [OF that] by (simp only: unat_div_distrib MEMBER_GAS_def) simp
  moreover have "unat (of_nat m :: u64) = m" using assms by (simp add: unat_of_nat)
  moreover have "m \<le> (b - c) div 1000 \<longleftrightarrow> c + 1000 * m \<le> b" if "c \<le> b" for b c :: nat
    using that by (simp add: less_eq_div_iff_mult_less_eq) arith
  ultimately show "\<not> budget < scan \<and> \<not> (budget - scan) div MEMBER_GAS < of_nat m \<longleftrightarrow>
      2000 + 16 * n + 1000 * m \<le> unat budget"
    using s by (auto simp: not_less word_le_nat_alt)
  show "scan + MEMBER_GAS * of_nat m = of_nat (2000 + 16 * n + 1000 * m)"
    by (simp add: scan UPDATE_SCAN_BASE_GAS_def UPDATE_SCAN_BYTE_GAS_def MEMBER_GAS_def algebra_simps)
qed

lemma parse_2_iff:
  assumes "length raw \<le> 36864"
  shows "parse_update raw 2 564 decode = Inr (u', tot) \<longleftrightarrow>
    (\<exists>u. update_ok 2 u \<and> raw = update_to_bytes u \<and> u' = (if decode then Some u else None) \<and>
       tot = of_nat (member_total (up_new_entries u)))"
proof -
  have "slice raw" using assms by (simp add: slice_def)
  from parse_update_iff [OF this, of 564 2 decode u' tot] update_tokens_bound show ?thesis by auto
qed

lemma admit_steps:
  assumes "slice raw" "bc_max_epochs c = 2"
    and scan: "scan = UPDATE_SCAN_BASE_GAS + UPDATE_SCAN_BYTE_GAS * of_nat (length raw)"
  shows "admit sha256 valid_key raw c b budget = Inr a \<longleftrightarrow> length raw \<le> 36864 \<and>
    (\<exists>x m k u. parse_update raw 2 564 False = Inr (x, m) \<and> parse_update raw 2 564 True = Inr (Some u, k) \<and>
        (\<not> budget < scan \<and> \<not> (budget - scan) div MEMBER_GAS < m) \<and>
        sha256 raw = ub_committed_hash b \<and> bindings_rules u c b \<and> entries_rules valid_key u \<and>
        a = \<lparr>au_update = u, au_gas = scan + MEMBER_GAS * m\<rparr>)"
proof -
  have k: "context_b c = Inr 2" using assms(2) by (simp add: context_b_iff)
  have t: "max_tokens c = Inr 564" and cap: "max_update_bytes c = Inr 36864"
    by (simp_all add: max_tokens_def max_update_bytes_def MAX_ENTRY_BYTES_def k)
  have len: "36864 < (of_nat (length raw) :: u64) \<longleftrightarrow> \<not> length raw \<le> 36864"
    using assms(1) by (simp add: word_less_nat_alt unat_of_nat slice_def not_le)
  show ?thesis
    unfolding admit_def k t cap rbind.simps scan [symmetric] Let_def len
    by (cases "parse_update raw 2 564 False"; cases "parse_update raw 2 564 True")
      (auto simp: result_iff check_bindings_iff check_entries_iff split: option.splits prod.splits if_splits)
qed

lemma admit_iff:
  assumes "slice raw"
  shows "admit sha256 valid_key raw c b budget = Inr a \<longleftrightarrow>
    (\<exists>u. update_ok 2 u \<and> raw = update_to_bytes u \<and> length raw \<le> 36864 \<and> bc_max_epochs c = 2 \<and>
       update_gas u \<le> unat budget \<and> sha256 raw = ub_committed_hash b \<and> bindings_rules u c b \<and>
       entries_rules valid_key u \<and> a = \<lparr>au_update = u, au_gas = of_nat (update_gas u)\<rparr>)"
proof (cases "bc_max_epochs c = 2 \<and> length raw \<le> 36864")
  case False
  then show ?thesis
  proof (cases "bc_max_epochs c = 2")
    case True
    with False show ?thesis by (simp add: admit_steps [OF assms True refl])
  next
    case False
    then have "\<not> (\<exists>k. context_b c = Inr k)" by (simp add: context_b_iff)
    then show ?thesis using False by (auto simp: admit_def result_iff)
  qed
next
  case True
  then have two: "bc_max_epochs c = 2" and len: "length raw \<le> 36864" by simp_all
  define scan where "scan = UPDATE_SCAN_BASE_GAS + UPDATE_SCAN_BYTE_GAS * (of_nat (length raw) :: u64)"
  have charge: "(\<not> budget < scan \<and> \<not> (budget - scan) div MEMBER_GAS < of_nat (member_total (up_new_entries u))) \<longleftrightarrow>
        update_gas u \<le> unat budget"
      "scan + MEMBER_GAS * of_nat (member_total (up_new_entries u)) = of_nat (update_gas u)"
    if "update_ok 2 u" "raw = update_to_bytes u" for u
    using member_charge [OF len member_total_bound [OF that(1)] scan_def] that(2)
    by (simp_all only: update_gas_def)
  have eq: "u = v" if "update_ok 2 u" "update_ok 2 v" "raw = update_to_bytes u" "raw = update_to_bytes v" for u v
    using update_to_bytes_inj [of u v] that assms by simp
  have "admit sha256 valid_key raw c b budget = Inr a \<longleftrightarrow>
    (\<exists>u. update_ok 2 u \<and> raw = update_to_bytes u \<and>
      (\<not> budget < scan \<and> \<not> (budget - scan) div MEMBER_GAS < of_nat (member_total (up_new_entries u))) \<and>
      sha256 raw = ub_committed_hash b \<and> bindings_rules u c b \<and> entries_rules valid_key u \<and>
      a = \<lparr>au_update = u, au_gas = scan + MEMBER_GAS * of_nat (member_total (up_new_entries u))\<rparr>)"
    unfolding admit_steps [OF assms two scan_def] parse_2_iff [OF len] using len eq by auto
  also have "\<dots> \<longleftrightarrow> (\<exists>u. update_ok 2 u \<and> raw = update_to_bytes u \<and> update_gas u \<le> unat budget \<and>
      sha256 raw = ub_committed_hash b \<and> bindings_rules u c b \<and> entries_rules valid_key u \<and>
      a = \<lparr>au_update = u, au_gas = of_nat (update_gas u)\<rparr>)"
    by (simp only: charge cong: conj_cong)
  finally show ?thesis using True by simp
qed

section \<open>Properties\<close>

text \<open>
  Claim C24. An update is admitted exactly when the profile pins two epochs per update, the bytes are the
  canonical encoding of a well-formed update of at most 36864 bytes with the committed hash, the update
  carries the node's profile bindings and the block's parent and origin, its entries obey the installation
  rules, and the budget covers \<open>2000 + 16*C + 1000*T\<close>; the result is that update and exactly that charge.
  In particular the token limit refuses no well-formed update and no charge wraps.
\<close>

theorem admit_update_exact:
  assumes "slice raw"
  shows "admit sha256 valid_key raw c b budget = Inr a \<longleftrightarrow>
     update_ok 2 (au_update a) \<and> raw = update_to_bytes (au_update a) \<and> length raw \<le> 36864 \<and>
     bc_max_epochs c = 2 \<and> sha256 raw = ub_committed_hash b \<and>
     bindings_rules (au_update a) c b \<and> entries_rules valid_key (au_update a) \<and>
     unat (au_gas a) = 2000 + 16 * length raw + 1000 * member_total (up_new_entries (au_update a)) \<and>
     au_gas a \<le> budget"
proof -
  have fits: "unat (of_nat (update_gas u) :: u64) = update_gas u" if "update_ok 2 u" "length (update_to_bytes u) \<le> 36864" for u
    using that(2) member_total_bound [OF that(1)] by (subst unat_of_nat) (simp add: update_gas_def)
  show ?thesis
    unfolding admit_iff [OF assms]
    by (cases a) (auto simp: fits word_le_nat_alt word_unat_eq_iff update_gas_def [symmetric])
qed

definition sample_member :: b1_member where
  "sample_member = \<lparr>mb_node_id = ascii ''n1'', mb_key = replicate 33 2, mb_weight = 5\<rparr>"

definition sample_entry :: "u64 \<Rightarrow> u64 \<Rightarrow> u64 option \<Rightarrow> b1_entry" where
  "sample_entry epoch start stop = \<lparr>en_epoch = epoch, en_body_kind = 2, en_body_id = 1, en_activation_commit_id = 1,
     en_start = start, en_end = stop, en_signing_scheme = 1, en_signing_config_hash = 1, en_members = [sample_member]\<rparr>"

definition sample_update :: b1_update where
  "sample_update = \<lparr>up_network = 1, up_root_genesis_id = 7, up_execution_chain_id = 9, up_profile_hash = 11,
     up_parent_hash = 13, up_block_number = 5, up_origin_epoch = 4, up_origin_round = 50, up_origin_identity = 15,
     up_prior_tip_epoch = 2, up_old_tip_end = Some 30,
     up_new_entries = [sample_entry 3 30 (Some 40), sample_entry 4 40 None]\<rparr>"

definition sample_hook :: records_hook where
  "sample_hook = \<lparr>rh_custody = 0, rh_h_records = 0, rh_record_gas = 0, rh_election = 0, rh_elect_gas = 0\<rparr>"

definition sample_context :: b1_context where
  "sample_context = \<lparr>bc_network = 1, bc_root_genesis_id = 7, bc_execution_chain_id = 9, bc_profile_hash = 11,
     bc_genesis_commitment = 12, bc_max_epochs = 2, bc_hook = sample_hook\<rparr>"

definition sample_binding :: update_binding where
  "sample_binding = \<lparr>ub_committed_hash = 21, ub_parent_hash = 13, ub_parent_number = 4, ub_origin_epoch = 4,
     ub_origin_round = 50, ub_origin_identity = 15\<rparr>"

lemma sample_update_ok: "update_ok 2 sample_update"
  by (simp add: update_ok_def sample_update_def sample_entry_def b1_entry_ok_def member_ok_def sample_member_def ascii_def)

lemma sample_length: "length (update_to_bytes sample_update) = 466"
  by (simp add: update_to_bytes_def entry_to_bytes_def member_to_bytes_def update_head_def update_hash32_def
      update_optional_def sample_update_def sample_entry_def sample_member_def UPDATE_DOMAIN_def)

lemma sample_bindings: "bindings_rules sample_update sample_context sample_binding"
  by (simp add: bindings_rules_def sample_update_def sample_context_def sample_binding_def)

lemma sample_entries: "entries_rules (\<lambda>_. True) sample_update"
  by (simp add: entries_rules_def entry_rules_def follows_def members_ok_def sample_update_def sample_entry_def
    sample_member_def WEIGHT_CAP_B_def)

lemma sample_values:
  "member_total (up_new_entries sample_update) = 2" "bc_max_epochs sample_context = 2"
  "ub_committed_hash sample_binding = 21" "slice (update_to_bytes sample_update)"
  by (simp_all add: slice_def sample_length)
    (simp_all add: member_total_def sample_update_def sample_entry_def sample_context_def sample_binding_def)

lemma sample_admitted:
  "admit (\<lambda>_. 21) (\<lambda>_. True) (update_to_bytes sample_update) sample_context sample_binding 20000 =
     Inr \<lparr>au_update = sample_update, au_gas = 11456\<rparr>"
  by (simp add: admit_iff update_gas_def sample_length sample_update_ok sample_bindings sample_entries sample_values)

theorem admit_update_exact_witness:
  "admit (\<lambda>_. 21) (\<lambda>_. True) (update_to_bytes sample_update) sample_context sample_binding 20000 =
     Inr \<lparr>au_update = sample_update, au_gas = 11456\<rparr>"
  by (simp add: admit_update_exact sample_length sample_update_ok sample_bindings sample_entries sample_values)

text \<open>
  Claim C25. An admitted update that installs entries closes the old tip and installs consecutive
  epochs that end with the origin epoch, and every root round from the first new start on, without an
  upper bound, lies in the interval of exactly one installed entry, which the old tip's closing round never overlaps.
\<close>

theorem admitted_entries_cover:
  assumes "slice raw" "admit sha256 valid_key raw c b budget = Inr a" "up_new_entries (au_update a) = e # es"
  shows "(\<exists>stop. up_old_tip_end (au_update a) = Some stop \<and> stop \<le> en_start e) \<and>
    (\<forall>i < length (e # es). unat (en_epoch ((e # es) ! i)) = unat (en_epoch e) + i) \<and>
    unat (ub_origin_epoch b) = unat (en_epoch e) + length es \<and>
    (\<forall>t \<ge> en_start e. length (filter (\<lambda>x. covers x t) (e # es)) = 1) \<and>
    covers (last (e # es)) (ub_origin_round b)"
proof -
  from assms have rules: "entries_rules valid_key (au_update a)" and bind: "bindings_rules (au_update a) c b"
    by (auto simp: admit_iff)
  have entries: "\<forall>x \<in> set (e # es). entry_rules valid_key (au_update a) x" and chain: "chained None (e # es)"
    and open_end: "en_end (last (e # es)) = None" and tip: "en_epoch (last (e # es)) = up_origin_epoch (au_update a)"
    and old: "\<exists>stop. up_old_tip_end (au_update a) = Some stop \<and> stop \<le> en_start e"
    using rules by (auto simp only: entries_rules_def assms(3) list.case)
  have epochs: "\<forall>i < length (e # es). unat (en_epoch ((e # es) ! i)) = unat (en_epoch e) + i"
    using chained_epochs [OF chain] by blast
  have origin: "up_origin_epoch (au_update a) = ub_origin_epoch b" "up_origin_round (au_update a) = ub_origin_round b"
    using bind by (simp_all add: bindings_rules_def)
  have "(e # es) ! length es = last (e # es)" by (simp add: last_conv_nth)
  with epochs tip origin have "unat (ub_origin_epoch b) = unat (en_epoch e) + length es"
    by (metis length_Cons lessI)
  moreover have "en_start (last (e # es)) \<le> up_origin_round (au_update a)"
    using entries last_in_set [of "e # es"] by (auto simp only: entry_rules_def)
  then have "covers (last (e # es)) (ub_origin_round b)" using origin open_end by (simp add: covers_def)
  ultimately show ?thesis using old epochs chained_covers [OF chain entries open_end] by blast
qed

theorem admitted_entries_cover_witness:
  "admit (\<lambda>_. 21) (\<lambda>_. True) (update_to_bytes sample_update) sample_context sample_binding 20000 =
     Inr \<lparr>au_update = sample_update, au_gas = 11456\<rparr> \<and>
   length (filter (\<lambda>x. covers x 35) [sample_entry 3 30 (Some 40), sample_entry 4 40 None]) = 1"
proof -
  have "up_new_entries (au_update \<lparr>au_update = sample_update, au_gas = 11456\<rparr>) =
      sample_entry 3 30 (Some 40) # [sample_entry 4 40 None]"
    by (simp add: sample_update_def)
  from admitted_entries_cover [OF sample_values(4) sample_admitted this] have
    "\<forall>t \<ge> en_start (sample_entry 3 30 (Some 40)).
      length (filter (\<lambda>x. covers x t) [sample_entry 3 30 (Some 40), sample_entry 4 40 None]) = 1" by blast
  then have "en_start (sample_entry 3 30 (Some 40)) \<le> 35 \<longrightarrow>
      length (filter (\<lambda>x. covers x 35) [sample_entry 3 30 (Some 40), sample_entry 4 40 None]) = 1" by blast
  with sample_admitted show ?thesis by (simp add: sample_entry_def)
qed

lemma required_system_gas_iff:
  "required_system_gas c = Inr r \<longleftrightarrow> bc_max_epochs c = 2 \<and>
     (\<exists>h. envelope_gas (bc_hook c) = Inr h \<and> r = 8506024 + IMPORT_ENVELOPE_GAS + h)"
  by (auto simp: required_system_gas_def result_iff context_b_iff UPDATE_GAS_BASE_def REST_GAS_BASE_def EPOCH_GAS_def
      EPOCH_GAS_FIXED_def EPOCH_GAS_PER_MEMBER_def REST_GAS_PER_EPOCH_def MAX_MEMBERS_def)

lemma import_envelope: "IMPORT_ENVELOPE_GAS = 18296144"
  by (simp add: IMPORT_ENVELOPE_GAS_def MAX_ADMISSION_GAS_def IMPORT_EXECUTION_GAS_def SCAN_BASE_GAS_def
      SCAN_BYTE_GAS_def ENTRY_GAS_def MAX_IMPORT_BYTES_def MAX_IMPORT_ENTRIES_def)

text \<open>
  Claim C26. A job that binds to its profile never runs out of budget while its update is admitted: an
  update that any budget admits is admitted, with the same charge, on the profile's system reservation.
  This holds while the pinned hook envelope stays below \<open>2^63\<close>.
\<close>

theorem bound_job_admission_budget:
  assumes "slice (bj_update job)" "check_bound sha256 job input profile = Inr ()"
    "envelope_gas (bc_hook (bj_context job)) = Inr h" "unat h < 2 ^ 63"
    "admit sha256 valid_key (bj_update job) (bj_context job) b budget = Inr a"
  shows "admit sha256 valid_key (bj_update job) (bj_context job) b (bp_system_gas profile) = Inr a"
proof -
  from assms(2,3) have "\<not> bp_system_gas profile < 8506024 + IMPORT_ENVELOPE_GAS + h"
    by (auto simp: check_bound_def result_iff required_system_gas_iff)
  then have "623824 \<le> unat (bp_system_gas profile)"
    using assms(4) by (simp add: import_envelope not_less word_le_nat_alt unat_word_ariths)
  then have covered: "update_gas u \<le> unat (bp_system_gas profile)"
    if "update_ok 2 u" "length (update_to_bytes u) \<le> 36864" for u
    using that(2) member_total_bound [OF that(1)] by (simp add: update_gas_def)
  from assms(5) obtain u where "update_ok 2 u" "bj_update job = update_to_bytes u" "length (bj_update job) \<le> 36864"
    "bc_max_epochs (bj_context job) = 2" "sha256 (bj_update job) = ub_committed_hash b"
    "bindings_rules u (bj_context job) b" "entries_rules valid_key u"
    "a = \<lparr>au_update = u, au_gas = of_nat (update_gas u)\<rparr>"
    unfolding admit_iff [OF assms(1)] by blast
  with covered [of u] show ?thesis unfolding admit_iff [OF assms(1)] by auto
qed

definition sample_job :: b1_job where
  "sample_job = \<lparr>bj_context = sample_context, bj_update = update_to_bytes sample_update, bj_records = []\<rparr>"

theorem bound_job_admission_budget_witness:
  "admit (\<lambda>_. 21) (\<lambda>_. True) (bj_update sample_job) (bj_context sample_job) sample_binding 30000000 =
     Inr \<lparr>au_update = sample_update, au_gas = 11456\<rparr>"
proof -
  let ?profile = "\<lparr>bp_max_gas = 60000000, bp_system_gas = 30000000, bp_base_fee_floor = 1, bp_elasticity = 2,
    bp_change_denominator = 8\<rparr>"
  have ok: "slice (bj_update sample_job)" by (simp add: sample_job_def slice_def sample_length)
  have hook: "envelope_gas (bc_hook (bj_context sample_job)) = Inr 0"
    by (simp add: sample_job_def sample_context_def sample_hook_def envelope_gas_def hook_enabled_def)
  have bound: "check_bound (\<lambda>_. 21) sample_job ((sample_root [])\<lparr>ri_b1_update_hash := 21, ri_root_records_hash := 21\<rparr>) ?profile = Inr ()"
    using hook by (auto simp: check_bound_def result_iff required_system_gas_iff import_envelope sample_job_def
      sample_context_def)
  have "admit (\<lambda>_. 21) (\<lambda>_. True) (bj_update sample_job) (bj_context sample_job) sample_binding 20000 =
      Inr \<lparr>au_update = sample_update, au_gas = 11456\<rparr>"
    using sample_admitted by (simp add: sample_job_def)
  from bound_job_admission_budget [OF ok bound hook _ this] show ?thesis by simp
qed

end
