(* ===== verification/B1_Registry.thy ===== *)
theory B1_Registry
  imports Update_Admission
begin

text \<open>
  The registry words a certificate batch reads, \<open>b1/src/registry.rs\<close> with the error types of
  \<open>b1/src/lib.rs\<close>: the slot derivation, the reader of one epoch entry with its members and the reader of the
  common words. The journal is the argument \<open>sload\<close>: one call reads one state, and the warmth a read leaves
  behind does not change what later reads return. Keccak-256 and the curve's key parser are parameters.
\<close>

section \<open>Errors\<close>

datatype malformed =
    Truncated | Version | Flags | Count | Trailing | Limit | Canonical | Cbor | Utf8 | Shape | Shard
  | Expect

text \<open>\<open>Expect\<close> is not a value of the source's enum: it stands for a failed \<open>expect\<close>.\<close>

datatype 'h b1_error = Malformed malformed | OutOfGas | Host 'h | Registry

section \<open>Slots\<close>

type_synonym keccak = "bytes \<Rightarrow> b256"
type_synonym 'h sload = "b256 \<Rightarrow> 'h + b256"

definition fixed_slot :: "keccak \<Rightarrow> string \<Rightarrow> b256" where
  "fixed_slot keccak name = keccak (ascii ''unicity.seal-registry/'' @ ascii name)"

definition derived :: "keccak \<Rightarrow> string \<Rightarrow> u64 list \<Rightarrow> b256" where
  "derived keccak name words =
     keccak (b256_bytes (fixed_slot keccak name) @ concat (map (\<lambda>w. b256_bytes (ucast w)) words))"

definition entry_slot :: "keccak \<Rightarrow> u64 \<Rightarrow> u64 \<Rightarrow> b256" where
  "entry_slot keccak epoch field = derived keccak ''b1.entry'' [epoch, field]"

definition member_slot :: "keccak \<Rightarrow> u64 \<Rightarrow> u64 \<Rightarrow> u64 \<Rightarrow> b256" where
  "member_slot keccak epoch index field = derived keccak ''b1.member'' [epoch, index, field]"

definition small :: "b256 \<Rightarrow> 'h b1_error + u64" where
  "small v = (if unat v < 2 ^ 64 then Inr (ucast v) else Inl Registry)"

definition read_slot :: "'h sload \<Rightarrow> b256 \<Rightarrow> 'h b1_error + b256" where
  "read_slot sload k = map_err Host (sload k)"

text \<open>The loops that fill an array of words, one read after the other.\<close>

fun read_slots :: "'h sload \<Rightarrow> b256 list \<Rightarrow> 'h b1_error + b256 list" where
  "read_slots sload [] = Inr []"
| "read_slots sload (k # ks) =
     rbind (read_slot sload k) (\<lambda>v. rbind (read_slots sload ks) (\<lambda>vs. Inr (v # vs)))"

section \<open>Entries\<close>

record 'key registry_member =
  rg_id :: bytes
  rg_key :: 'key
  rg_weight :: u64

record 'key registry_entry =
  rg_start :: u64
  rg_end :: "u64 option"
  rg_total :: u64
  rg_members :: "'key registry_member list"

definition read_member ::
  "keccak \<Rightarrow> (bytes \<Rightarrow> 'key option) \<Rightarrow> 'h sload \<Rightarrow> u64 \<Rightarrow> u64 \<Rightarrow> 'key registry_member list
    \<Rightarrow> 'h b1_error + 'key registry_member" where
  "read_member keccak parse_key sload epoch j members =
     rbind (read_slots sload (map (\<lambda>f. member_slot keccak epoch j (of_nat f)) [0..<8])) (\<lambda>m.
     rbind (small (m ! 0)) (\<lambda>len.
     if \<not> (1 \<le> len \<and> len \<le> 128) then Inl Registry else
     let id_bytes = b256_bytes (m ! 1) @ b256_bytes (m ! 2) @ b256_bytes (m ! 3) @ b256_bytes (m ! 4);
         n = unat len in
     if (\<exists>b \<in> set (drop n id_bytes). b \<noteq> 0) \<or> (\<exists>b \<in> set (drop 1 (b256_bytes (m ! 6))). b \<noteq> 0)
     then Inl Registry else
     let name = take n id_bytes in
     if \<not> utf8_valid name then Inl Registry else
     rbind (ok_or Registry (parse_key (b256_bytes (m ! 5) @ [b256_bytes (m ! 6) ! 0]))) (\<lambda>key.
     rbind (small (m ! 7)) (\<lambda>weight.
     if weight = 0 \<or> (members \<noteq> [] \<and> name \<le> rg_id (last members)) \<or> key \<in> rg_key ` set members
     then Inl Registry
     else Inr \<lparr>rg_id = name, rg_key = key, rg_weight = weight\<rparr>))))"

fun read_members ::
  "keccak \<Rightarrow> (bytes \<Rightarrow> 'key option) \<Rightarrow> 'h sload \<Rightarrow> u64 \<Rightarrow> nat list \<Rightarrow> u64 \<Rightarrow> 'key registry_member list
    \<Rightarrow> 'h b1_error + u64 \<times> 'key registry_member list" where
  "read_members keccak parse_key sload epoch [] acc members = Inr (acc, members)"
| "read_members keccak parse_key sload epoch (j # js) acc members =
     rbind (read_member keccak parse_key sload epoch (of_nat j) members) (\<lambda>m.
     rbind (ok_or Registry (checked_add acc (rg_weight m))) (\<lambda>acc.
     read_members keccak parse_key sload epoch js acc (members @ [m])))"

definition read_registry_entry ::
  "keccak \<Rightarrow> (bytes \<Rightarrow> 'key option) \<Rightarrow> 'h sload \<Rightarrow> u64 \<Rightarrow> 'h b1_error + 'key registry_entry option" where
  "read_registry_entry keccak parse_key sload epoch =
     rbind (read_slots sload (map (\<lambda>i. entry_slot keccak epoch (of_nat i)) [0..<11])) (\<lambda>w.
     if w ! 0 = 0 then (if \<exists>v \<in> set w. v \<noteq> 0 then Inl Registry else Inr None) else
     rbind (small (w ! 1)) (\<lambda>kind.
     rbind (small (w ! 4)) (\<lambda>start.
     rbind (small (w ! 5)) (\<lambda>stop.
     rbind (small (w ! 6)) (\<lambda>has_end.
     rbind (small (w ! 7)) (\<lambda>scheme.
     rbind (small (w ! 9)) (\<lambda>count.
     rbind (small (w ! 10)) (\<lambda>tot.
     if w ! 0 \<noteq> 1 \<or> \<not> (1 \<le> kind \<and> kind \<le> 3) \<or> w ! 2 = 0 \<or> w ! 8 = 0 \<or> (kind = 1) \<noteq> (w ! 3 = 0) \<or>
        \<not> (scheme = 1 \<or> scheme = 2) \<or> \<not> (1 \<le> count \<and> count \<le> MAX_MEMBERS) \<or> 1 < has_end \<or>
        (has_end = 0 \<and> stop \<noteq> 0) \<or> (has_end = 1 \<and> stop \<le> start)
     then Inl Registry else
     rbind (read_members keccak parse_key sload epoch [0..<unat count] 0 []) (\<lambda>(acc, members).
     if acc \<noteq> tot then Inl Registry
     else Inr (Some \<lparr>rg_start = start, rg_end = (if has_end = 1 then Some stop else None), rg_total = tot,
       rg_members = members\<rparr>))))))))))"

text \<open>The words the registry keeps for an admitted entry: \<open>pad_words\<close> of \<open>execution/src/lib.rs\<close> left-aligns a byte string.\<close>

fun pad_words :: "nat \<Rightarrow> bytes \<Rightarrow> b256 list" where
  "pad_words 0 raw = []"
| "pad_words (Suc n) raw =
     (let chunk = take 32 raw in
      from_be (chunk @ replicate (32 - length chunk) 0) # pad_words n (drop 32 raw))"

section \<open>Common words\<close>

record pins =
  pn_genesis_commitment :: b256
  pn_profile_hash :: b256

record common_v2 =
  cv_phase :: u64
  cv_network :: u64
  cv_genesis :: u64
  cv_ready :: bool
  cv_origin :: u64
  cv_round :: u64

definition common_names :: "string list" where
  "common_names = [''genesisCommitment'', ''phase'', ''b1.initialized'', ''b1.network'', ''b1.profileHash'',
     ''b1.format'', ''b1.genesisEpoch'', ''b1.importedTipEpoch'', ''b1.originReady'', ''clock.rootRound'',
     ''origin.rootEpoch'']"

definition read_common_v2 :: "keccak \<Rightarrow> 'h sload \<Rightarrow> pins \<Rightarrow> 'h b1_error + common_v2" where
  "read_common_v2 keccak sload pins =
     rbind (read_slots sload (map (fixed_slot keccak) common_names)) (\<lambda>w.
     rbind (small (w ! 1)) (\<lambda>phase.
     rbind (small (w ! 3)) (\<lambda>network.
     rbind (small (w ! 6)) (\<lambda>genesis.
     rbind (small (w ! 7)) (\<lambda>tip.
     rbind (small (w ! 8)) (\<lambda>ready.
     rbind (small (w ! 9)) (\<lambda>round.
     rbind (small (w ! 10)) (\<lambda>origin.
     if w ! 0 = 0 \<or> w ! 0 \<noteq> pn_genesis_commitment pins \<or> w ! 4 = 0 \<or> w ! 4 \<noteq> pn_profile_hash pins \<or>
        w ! 2 \<noteq> 1 \<or> w ! 5 \<noteq> 2 \<or> \<not> (phase = 1 \<or> phase = 2) \<or> \<not> (1 \<le> network \<and> network \<le> 65535) \<or>
        tip < genesis \<or> 1 < ready
     then Inl Registry
     else if (ready = 0 \<and> (origin \<noteq> 0 \<or> round \<noteq> 0)) \<or> (ready = 1 \<and> origin \<noteq> tip) then Inl Registry
     else Inr \<lparr>cv_phase = phase, cv_network = network, cv_genesis = genesis, cv_ready = (ready = 1),
       cv_origin = origin, cv_round = round\<rparr>))))))))"

definition cert_batch_pins :: "b1_context \<Rightarrow> pins" where
  "cert_batch_pins c = \<lparr>pn_genesis_commitment = bc_genesis_commitment c, pn_profile_hash = bc_profile_hash c\<rparr>"

section \<open>Reading back a stored entry\<close>

lemma read_slots_iff: "read_slots sload ks = Inr vs \<longleftrightarrow> list_all2 (\<lambda>k v. sload k = Inr v) ks vs"
  by (induction ks arbitrary: vs) (auto simp: result_iff read_slot_def list_all2_Cons1)

lemma read_slots_range:
  "length vs = n \<Longrightarrow> read_slots sload (map f [0..<n]) = Inr vs \<longleftrightarrow> (\<forall>i < n. sload (f i) = Inr (vs ! i))"
  by (auto simp: read_slots_iff list_all2_conv_all_nth)

lemma small_iff: "small v = Inr w \<longleftrightarrow> v = ucast w"
proof (cases "unat v < 2 ^ 64")
  case True
  then have "unat (ucast v :: u64) = unat v" by (intro unat_ucast_small) simp
  with True show ?thesis by (auto simp: small_def word_unat_eq_iff unat_ucast_up)
next
  case False
  then show ?thesis using unat_u64_less [of w] by (auto simp: small_def unat_ucast_up)
qed

lemma small_simps [simp]: "small (ucast w) = Inr w" "small 0 = Inr 0" "small 1 = Inr 1"
  by (simp_all add: small_iff)

lemma length_pad_words [simp]: "length (pad_words n raw) = n"
  by (induction n arbitrary: raw) (simp_all add: Let_def)

lemma pad_words_bytes:
  "length raw \<le> 32 * n \<Longrightarrow> concat (map b256_bytes (pad_words n raw)) = raw @ replicate (32 * n - length raw) 0"
proof (induction n arbitrary: raw)
  case (Suc n)
  have "length (drop 32 raw) \<le> 32 * n" using Suc.prems by simp
  note IH = Suc.IH [OF this]
  have word: "b256_bytes (from_be xs) = xs" if "length xs = 32" for xs :: bytes
    using that by (intro to_be_from_be) simp_all
  show ?case
  proof (cases "length raw \<le> 32")
    case True
    then have "replicate (32 - length raw) (0 :: u8) @ replicate (32 * n) 0 = replicate (32 * Suc n - length raw) 0"
      by (simp add: replicate_add [symmetric])
    then show ?thesis using True IH by (simp add: word Let_def)
  next
    case False
    then show ?thesis using IH by (simp add: word Let_def min_def flip: append_assoc)
  qed
qed simp

definition entry_total :: "b1_entry \<Rightarrow> nat" where
  "entry_total e = sum_list (map (\<lambda>m. unat (mb_weight m)) (en_members e))"

definition entry_words :: "b1_entry \<Rightarrow> b256 list" where
  "entry_words e =
     [1, ucast (en_body_kind e), en_body_id e, en_activation_commit_id e, ucast (en_start e),
      (case en_end e of Some stop \<Rightarrow> ucast stop | None \<Rightarrow> 0), (if en_end e = None then 0 else 1),
      ucast (en_signing_scheme e), en_signing_config_hash e, of_nat (length (en_members e)),
      of_nat (entry_total e)]"

definition member_words :: "b1_member \<Rightarrow> b256 list" where
  "member_words m =
     of_nat (length (mb_node_id m)) # pad_words 4 (mb_node_id m) @ pad_words 2 (mb_key m) @ [ucast (mb_weight m)]"

definition holds_entry :: "keccak \<Rightarrow> 'h sload \<Rightarrow> b1_entry \<Rightarrow> bool" where
  "holds_entry keccak sload e \<longleftrightarrow>
     (\<forall>i < 11. sload (entry_slot keccak (en_epoch e) (of_nat i)) = Inr (entry_words e ! i)) \<and>
     (\<forall>j < length (en_members e). \<forall>f < 8.
        sload (member_slot keccak (en_epoch e) (of_nat j) (of_nat f)) = Inr (member_words (en_members e ! j) ! f))"

definition member_of :: "(bytes \<Rightarrow> 'key option) \<Rightarrow> b1_member \<Rightarrow> 'key registry_member" where
  "member_of parse_key m = \<lparr>rg_id = mb_node_id m, rg_key = the (parse_key (mb_key m)), rg_weight = mb_weight m\<rparr>"

text \<open>A point has one compressed encoding.\<close>

definition one_encoding :: "(bytes \<Rightarrow> 'key option) \<Rightarrow> bool" where
  "one_encoding parse_key \<longleftrightarrow>
     (\<forall>a b. length a = 33 \<longrightarrow> length b = 33 \<longrightarrow> parse_key a \<noteq> None \<longrightarrow> parse_key a = parse_key b \<longrightarrow> a = b)"

lemma pad_words_4: "length raw \<le> 128 \<Longrightarrow> pad_words 4 raw = [a, b, c, d] \<Longrightarrow>
    b256_bytes a @ b256_bytes b @ b256_bytes c @ b256_bytes d = raw @ replicate (128 - length raw) 0"
  using pad_words_bytes [of raw 4] by simp

lemma pad_words_key:
  assumes "length key = 33" "pad_words 2 key = [a, b]"
  shows "b256_bytes a @ [b256_bytes b ! 0] = key" "\<forall>x \<in> set (drop 1 (b256_bytes b)). x = 0"
proof -
  have bytes: "b256_bytes a @ b256_bytes b = key @ replicate 31 0"
    using pad_words_bytes [of key 2] assms by simp
  obtain k0 k where key: "key = k0 @ [k]" "length k0 = 32" 
    using assms(1) by (cases key rule: rev_cases) auto
  with bytes have "b256_bytes a = k0" "b256_bytes b = k # replicate 31 0"
    by (simp_all add: append_eq_append_conv)
  with key show "b256_bytes a @ [b256_bytes b ! 0] = key" "\<forall>x \<in> set (drop 1 (b256_bytes b)). x = 0" by simp_all
qed

lemma list_2: "length xs = 2 \<Longrightarrow> \<exists>a b. xs = [a, b]"
  by (auto simp: numeral_eq_Suc length_Suc_conv)

lemma list_4: "length xs = 4 \<Longrightarrow> \<exists>a b c d. xs = [a, b, c, d]"
  by (auto simp: numeral_eq_Suc length_Suc_conv)

lemma read_member_stored:
  assumes words: "\<forall>f < 8. sload (member_slot keccak epoch j (of_nat f)) = Inr (member_words m ! f)"
    and ok: "member_ok m" "parse_key (mb_key m) \<noteq> None" "0 < mb_weight m"
    and fresh: "members = [] \<or> rg_id (last members) < mb_node_id m" "the (parse_key (mb_key m)) \<notin> rg_key ` set members"
  shows "read_member keccak parse_key sload epoch j members = Inr (member_of parse_key m)"
proof -
  obtain a b c d where four: "pad_words 4 (mb_node_id m) = [a, b, c, d]"
    using list_4 [OF length_pad_words] by blast
  obtain x y where two: "pad_words 2 (mb_key m) = [x, y]"
    using list_2 [OF length_pad_words] by blast
  let ?w = "[of_nat (length (mb_node_id m)), a, b, c, d, x, y, ucast (mb_weight m)]"
  have "member_words m = ?w" by (simp add: member_words_def four two)
  with words have reads: "read_slots sload (map (\<lambda>f. member_slot keccak epoch j (of_nat f)) [0..<8]) = Inr ?w"
    by (intro read_slots_range [THEN iffD2]) simp_all
  have len: "1 \<le> length (mb_node_id m)" "length (mb_node_id m) \<le> 128" "length (mb_key m) = 33" "utf8_valid (mb_node_id m)"
    using ok(1) by (simp_all add: member_ok_def)
  have "of_nat (length (mb_node_id m)) = (ucast (of_nat (length (mb_node_id m)) :: u64) :: b256)"
    using len by (simp add: word_unat_eq_iff unat_ucast_up unat_of_nat)
  then have n: "small (of_nat (length (mb_node_id m))) = Inr (of_nat (length (mb_node_id m)) :: u64)"
    by (simp only: small_iff)
  have m: "unat (of_nat (length (mb_node_id m)) :: u64) = length (mb_node_id m)" using len by (simp add: unat_of_nat)
  note name = pad_words_4 [OF len(2) four] and key = pad_words_key [OF len(3) two]
  show ?thesis
    using ok fresh len
    by (auto simp: read_member_def reads n m name key Let_def word_le_nat_alt member_of_def)
qed

lemma read_members_stored:
  assumes "one_encoding parse_key"
    and "\<forall>i < length ms. \<forall>f < 8. sload (member_slot keccak epoch (of_nat (length prev + i)) (of_nat f)) = Inr (member_words (ms ! i) ! f)"
    and "\<forall>m \<in> set (prev @ ms). member_ok m \<and> parse_key (mb_key m) \<noteq> None" "\<forall>m \<in> set ms. 0 < mb_weight m"
    and "sorted_wrt (<) (map mb_node_id (prev @ ms))" "distinct (map mb_key (prev @ ms))"
    and "unat acc + sum_list (map (\<lambda>m. unat (mb_weight m)) ms) < 2 ^ 64"
  shows "read_members keccak parse_key sload epoch [length prev..<length prev + length ms] acc (map (member_of parse_key) prev) =
    Inr (acc + of_nat (sum_list (map (\<lambda>m. unat (mb_weight m)) ms)), map (member_of parse_key) (prev @ ms))"
  using assms(2-)
proof (induction ms arbitrary: prev acc)
  case Nil
  then show ?case by simp
next
  case (Cons m ms)
  let ?members = "map (member_of parse_key) prev"
  have "the (parse_key (mb_key m)) \<notin> rg_key ` set ?members"
  proof
    assume "the (parse_key (mb_key m)) \<in> rg_key ` set ?members"
    then obtain p where p: "p \<in> set prev" "the (parse_key (mb_key m)) = the (parse_key (mb_key p))"
      by (auto simp: member_of_def)
    moreover have "parse_key (mb_key m) \<noteq> None" "parse_key (mb_key p) \<noteq> None" using Cons.prems(2) p(1) by simp_all
    ultimately have "parse_key (mb_key m) = parse_key (mb_key p)" by (metis option.expand)
    then have "mb_key m = mb_key p" using assms(1) Cons.prems(2) p(1) by (simp add: one_encoding_def member_ok_def)
    then show False using Cons.prems(5) p(1) by auto
  qed
  moreover have "?members = [] \<or> rg_id (last ?members) < mb_node_id m"
    using Cons.prems(4) by (cases prev rule: rev_cases) (auto simp: member_of_def sorted_wrt_append)
  ultimately have read: "read_member keccak parse_key sload epoch (of_nat (length prev)) ?members = Inr (member_of parse_key m)"
    using Cons.prems(1) [rule_format, of 0] Cons.prems(2,3) by (intro read_member_stored) auto
  have add: "checked_add acc (mb_weight m) = Some (acc + mb_weight m)"
    using Cons.prems(6) by (simp add: checked_add_Some_iff unat_add_exact)
  have "read_members keccak parse_key sload epoch [length (prev @ [m])..<length (prev @ [m]) + length ms] (acc + mb_weight m)
      (map (member_of parse_key) (prev @ [m])) =
    Inr (acc + mb_weight m + of_nat (sum_list (map (\<lambda>m. unat (mb_weight m)) ms)), map (member_of parse_key) ((prev @ [m]) @ ms))"
  proof (rule Cons.IH)
    show "\<forall>i < length ms. \<forall>f < 8. sload (member_slot keccak epoch (of_nat (length (prev @ [m]) + i)) (of_nat f)) = Inr (member_words (ms ! i) ! f)"
    proof (intro allI impI)
      fix i f :: nat assume "i < length ms" "f < 8"
      then show "sload (member_slot keccak epoch (of_nat (length (prev @ [m]) + i)) (of_nat f)) = Inr (member_words (ms ! i) ! f)"
        using Cons.prems(1) [rule_format, of "Suc i" f] by simp
    qed
    show "unat (acc + mb_weight m) + sum_list (map (\<lambda>m. unat (mb_weight m)) ms) < 2 ^ 64"
      using Cons.prems(6) by (simp add: unat_add_exact)
  qed (use Cons.prems in auto)
  then show ?case
    using read add by (simp add: upt_conv_Cons member_of_def [of parse_key m] add.assoc del: upt_Suc)
qed

definition entry_of :: "(bytes \<Rightarrow> 'key option) \<Rightarrow> b1_entry \<Rightarrow> 'key registry_entry" where
  "entry_of parse_key e =
     \<lparr>rg_start = en_start e, rg_end = en_end e, rg_total = of_nat (entry_total e),
      rg_members = map (member_of parse_key) (en_members e)\<rparr>"

lemma entry_validate_iff:
  "entry_validate valid_key e = Inr v \<longleftrightarrow>
     (1 \<le> en_body_kind e \<and> en_body_kind e \<le> 3) \<and> en_body_id e \<noteq> 0 \<and> en_signing_config_hash e \<noteq> 0 \<and>
     (en_signing_scheme e = 1 \<or> en_signing_scheme e = 2) \<and> (en_body_kind e = 1) = (en_activation_commit_id e = 0) \<and>
     (case en_end e of Some stop \<Rightarrow> en_start e < stop | None \<Rightarrow> True) \<and> members_ok valid_key (en_members e)"
  by (cases "en_end e") (auto simp: entry_validate_def check_members_iff linorder_not_le [of _ "en_start e"])

lemma registry_entry_read:
  assumes "holds_entry keccak sload e" "b1_entry_ok e" "entry_validate (\<lambda>k. parse_key k \<noteq> None) e = Inr ()"
    "one_encoding parse_key"
  shows "read_registry_entry keccak parse_key sload (en_epoch e) = Inr (Some (entry_of parse_key e))"
proof -
  have members: "members_ok (\<lambda>k. parse_key k \<noteq> None) (en_members e)" using assms(3) by (simp add: entry_validate_iff)
  have sum: "entry_total e < 2 ^ 64"
    using members by (simp add: members_ok_def entry_total_def WEIGHT_CAP_B_def)
  have count: "1 \<le> length (en_members e)" "length (en_members e) \<le> 16" using assms(2) by (auto simp: b1_entry_ok_def Suc_le_eq)
  have words: "read_slots sload (map (\<lambda>i. entry_slot keccak (en_epoch e) (of_nat i)) [0..<11]) = Inr (entry_words e)"
    using assms(1) by (intro read_slots_range [THEN iffD2]) (simp_all add: holds_entry_def entry_words_def)
  have narrow: "(of_nat n :: b256) = ucast (of_nat n :: u64)" if "n < 2 ^ 64" for n
    using that by (simp add: word_unat_eq_iff unat_ucast_up unat_of_nat)
  have "length (en_members e) < 2 ^ 64" using count by simp
  note narrow = narrow [OF this] narrow [OF sum]
  have n: "unat (of_nat (length (en_members e)) :: u64) = length (en_members e)" using count by (simp add: unat_of_nat)
  have read: "read_members keccak parse_key sload (en_epoch e) [0..<length (en_members e)] 0 [] =
      Inr (of_nat (entry_total e), map (member_of parse_key) (en_members e))"
    using read_members_stored [of parse_key "en_members e" sload keccak "en_epoch e" "[]" 0] assms members sum
    by (simp add: holds_entry_def b1_entry_ok_def members_ok_def entry_total_def)
  show ?thesis
    using assms(3) count
    by (cases "en_end e")
      (auto simp: read_registry_entry_def words entry_words_def narrow entry_validate_iff n read entry_of_def
        MAX_MEMBERS_def word_le_nat_alt word_less_nat_alt)
qed

text \<open>
  Claim C27. A registry that keeps the words of a valid entry gives the entry back: the reader of the
  certificate batch returns exactly the interval, the members in order and the total weight that admission
  checked, and refuses none of them.
\<close>

theorem registry_entry_stored:
  assumes "holds_entry keccak sload e" "b1_entry_ok e" "entry_validate (\<lambda>k. parse_key k \<noteq> None) e = Inr ()"
    "one_encoding parse_key"
  shows "read_registry_entry keccak parse_key sload (en_epoch e) = Inr (Some (entry_of parse_key e))"
  using assms by (rule registry_entry_read)

definition sample_keccak :: keccak where
  "sample_keccak bs =
     (if length bs = 96 then from_be (drop 64 bs) else if length bs = 128 then 100 + from_be (drop 96 bs) else 0)"

definition sample_sload :: "b1_entry \<Rightarrow> unit sload" where
  "sample_sload e k =
     (if k < 11 then Inr (entry_words e ! unat k) else Inr (member_words (en_members e ! 0) ! (unat k - 100)))"

lemma sample_holds: "length (en_members e) = 1 \<Longrightarrow> holds_entry sample_keccak (sample_sload e) e"
proof -
  assume one: "length (en_members e) = 1"
  have "unat (of_nat i :: b256) = i" "(ucast (of_nat i :: u64) :: b256) = of_nat i" if "i < 11" for i
    using that by (simp_all add: word_unat_eq_iff unat_ucast_up unat_of_nat)
  moreover have "unat (100 + of_nat f :: b256) = 100 + f" "(ucast (of_nat f :: u64) :: b256) = of_nat f" if "f < 8" for f
    using that by (simp_all add: word_unat_eq_iff unat_ucast_up unat_of_nat unat_word_ariths)
  ultimately show ?thesis
    using one by (auto simp: holds_entry_def sample_sload_def sample_keccak_def entry_slot_def member_slot_def derived_def
      from_be_to_be word_less_nat_alt)
qed

theorem registry_entry_stored_witness:
  "read_registry_entry sample_keccak Some (sample_sload (sample_entry 4 40 None)) 4 =
     Inr (Some \<lparr>rg_start = 40, rg_end = None, rg_total = 5,
       rg_members = [\<lparr>rg_id = ascii ''n1'', rg_key = replicate 33 2, rg_weight = 5\<rparr>]\<rparr>)"
proof -
  let ?e = "sample_entry 4 40 None"
  have "holds_entry sample_keccak (sample_sload ?e) ?e" by (rule sample_holds) (simp add: sample_entry_def)
  moreover have "b1_entry_ok ?e"
    by (simp add: sample_entry_def b1_entry_ok_def member_ok_def sample_member_def ascii_def)
  moreover have "entry_validate (\<lambda>k. Some k \<noteq> None) ?e = Inr ()"
    by (simp add: entry_validate_iff sample_entry_def members_ok_def sample_member_def WEIGHT_CAP_B_def)
  ultimately have "read_registry_entry sample_keccak Some (sample_sload ?e) (en_epoch ?e) = Inr (Some (entry_of Some ?e))"
    by (rule registry_entry_stored) (simp add: one_encoding_def)
  then show ?thesis by (simp add: entry_of_def entry_total_def member_of_def sample_entry_def sample_member_def)
qed

section \<open>What the readers establish\<close>

definition registry_ok :: "'key registry_entry \<Rightarrow> bool" where
  "registry_ok e \<longleftrightarrow>
     rg_members e \<noteq> [] \<and> length (rg_members e) \<le> 16 \<and> sorted_wrt (<) (map rg_id (rg_members e)) \<and>
     distinct (map rg_key (rg_members e)) \<and> (\<forall>m \<in> set (rg_members e). 0 < rg_weight m) \<and>
     unat (rg_total e) = sum_list (map (\<lambda>m. unat (rg_weight m)) (rg_members e)) \<and>
     (case rg_end e of Some stop \<Rightarrow> rg_start e < stop | None \<Rightarrow> True)"

lemma read_member_shape:
  assumes "read_member keccak parse_key sload epoch j members = Inr m"
  shows "0 < rg_weight m" "members = [] \<or> rg_id (last members) < rg_id m" "rg_key m \<notin> rg_key ` set members"
  using assms by (auto simp: read_member_def result_iff Let_def not_le word_neq_0_conv split: if_splits)

lemma read_members_shape:
  assumes "read_members keccak parse_key sload epoch js acc members = Inr (t, ms)"
    "sorted_wrt (<) (map rg_id members)" "distinct (map rg_key members)" "\<forall>m \<in> set members. 0 < rg_weight m"
    "unat acc = sum_list (map (\<lambda>m. unat (rg_weight m)) members)"
  shows "length ms = length members + length js \<and> sorted_wrt (<) (map rg_id ms) \<and> distinct (map rg_key ms) \<and>
    (\<forall>m \<in> set ms. 0 < rg_weight m) \<and> unat t = sum_list (map (\<lambda>m. unat (rg_weight m)) ms)"
  using assms
proof (induction js arbitrary: acc members)
  case (Cons j js)
  from Cons.prems(1) obtain m acc' where m: "read_member keccak parse_key sload epoch (of_nat j) members = Inr m"
    and acc': "checked_add acc (rg_weight m) = Some acc'"
    and rest: "read_members keccak parse_key sload epoch js acc' (members @ [m]) = Inr (t, ms)"
    by (auto simp: result_iff)
  note shape = read_member_shape [OF m]
  have "sorted_wrt (<) (map rg_id (members @ [m]))"
    using sorted_wrt_snoc_last [OF Cons.prems(2), of "rg_id m"] shape(2) by (cases "members = []") (simp_all add: last_map)
  from Cons.IH [OF rest this] show ?case
    using Cons.prems shape acc' by (auto simp: checked_add_Some_iff)
qed auto

lemma registry_entry_shape:
  assumes "read_registry_entry keccak parse_key sload epoch = Inr (Some e)"
  shows "registry_ok e"
proof -
  from assms obtain count :: u64 where
    read: "read_members keccak parse_key sload epoch [0..<unat count] 0 [] = Inr (rg_total e, rg_members e)"
    and count: "0 < unat count" "\<not> 16 < unat count"
    and interval: "case rg_end e of Some stop \<Rightarrow> rg_start e < stop | None \<Rightarrow> True"
    by (auto simp: read_registry_entry_def result_iff word_less_nat_alt word_le_nat_alt MAX_MEMBERS_def not_le
        split: if_split_asm prod.splits)
  then show ?thesis using read_members_shape [OF read] by (auto simp: registry_ok_def)
qed

end
