(* ===== verification/Registry_Call.thy ===== *)
theory Registry_Call
  imports B1_Registry
begin

text \<open>
  The arguments of the privileged registry calls, \<open>execution/src/lib.rs\<close>: the projection of the root input, the
  epoch transition and the admitted update onto the argument tuples of \<open>open\<close>. The parent database, the EVM,
  the ABI encoder and the hash functions are the fields of a \<open>host\<close>. The projection of a well-formed update is
  shown to be injective.
\<close>

section \<open>Host\<close>

datatype 'db privileged_call =
    HandlerError string
  | NotSuccess string
  | Completed (pc_spent: u64) (pc_refunded: u64) (pc_db: 'db)

record assignment_projection =
  ap_old_root_epoch :: u64
  ap_old_shard_epoch :: u64
  ap_old_active_conf_hash :: b256
  ap_new_root_epoch :: u64
  ap_new_shard_epoch :: u64
  ap_new_active_conf_hash :: b256
  ap_supersession_span :: u64
  ap_supersession_commitment :: b256
  ap_projection_hash :: b256

record member_abi =
  ma_node_id_length :: u64
  ma_node_id :: "b256 list"
  ma_key :: "b256 list"
  ma_weight :: u64

record entry_abi =
  ea_epoch :: u64
  ea_body_kind :: u64
  ea_body_id :: b256
  ea_activation_commit_id :: b256
  ea_start :: u64
  ea_has_end :: bool
  ea_end :: u64
  ea_signing_scheme :: u64
  ea_signing_config_hash :: b256
  ea_members :: "member_abi list"

record update_abi =
  ua_prior_tip_epoch :: u64
  ua_has_old_tip_end :: bool
  ua_old_tip_end :: u64
  ua_new_entries :: "entry_abi list"

record open_head =
  oh_n :: u64
  oh_root_round :: u64
  oh_root_epoch :: u64
  oh_timestamp :: u64
  oh_tree_root :: b256
  oh_origin_identity :: b256
  oh_tr_hash :: b256
  oh_shard_conf_hash :: b256
  oh_certified_round :: u64
  oh_cert_epoch :: u64
  oh_auth_epoch :: u64
  oh_state_hash :: b256
  oh_has_block_hash :: bool
  oh_block_hash :: b256
  oh_input_commitment :: b256
  oh_transition_count :: u64
  oh_body_id :: b256
  oh_genesis_id :: b256
  oh_frozen_id :: b256
  oh_commit_id :: b256
  oh_frozen_parent :: b256
  oh_successor_tr :: b256
  oh_active_conf_hash :: b256

record 'db host =
  hs_sha256 :: sha256
  hs_keccak :: keccak
  hs_valid_key :: "bytes \<Rightarrow> bool"
  hs_open_abi :: "open_head \<Rightarrow> assignment_projection \<Rightarrow> update_abi \<Rightarrow> bytes"
  hs_import_abi :: "import_root_records_call \<Rightarrow> bytes"
  hs_finalize_abi :: "u64 \<Rightarrow> b256 \<Rightarrow> bytes"
  hs_code_hash :: "'db \<Rightarrow> address \<Rightarrow> string + b256 option"
  hs_storage :: "'db \<Rightarrow> address \<Rightarrow> b256 \<Rightarrow> string + b256"
  hs_call :: "'db \<Rightarrow> address \<Rightarrow> bytes \<Rightarrow> u64 \<Rightarrow> 'db privileged_call"

text \<open>The EVM meters a privileged call: it spends at most the gas limit of its transaction.\<close>

definition host_metered :: "'db host \<Rightarrow> bool" where
  "host_metered h \<longleftrightarrow>
     (\<forall>db to data limit gas refund db'. hs_call h db to data limit = Completed gas refund db' \<longrightarrow> gas \<le> limit)"

section \<open>Constants\<close>

definition OPEN_SELECTOR :: bytes where "OPEN_SELECTOR = [0x72, 0x42, 0x36, 0xc0]"
definition SEAL_REGISTRY_CODE_HASH :: b256 where
  "SEAL_REGISTRY_CODE_HASH = 0x8c5b57fd322b9ca1370fca310564a1fba8e80b6ad29a78ceb23aa9ae4113cfe4"
definition GENESIS_SHARD_CONF_HASH_SLOT :: b256 where
  "GENESIS_SHARD_CONF_HASH_SLOT = 0x4d19b7530faa2fa3495319b01857830cdc6ca35a5b20c4084d10119118d44afe"
definition ASSIGNMENT_EPOCH_SLOT :: b256 where
  "ASSIGNMENT_EPOCH_SLOT = 0xd1358cd157e8920f4cfe36f79ae73373716b602bf47f574ea08d5281befa59ef"
definition ASSIGNMENT_ROOT_EPOCH_SLOT :: b256 where
  "ASSIGNMENT_ROOT_EPOCH_SLOT = 0x52ff97c9251b51e7f509a2b0fc46b23b06051f0336a4c2214c3a1b91f9bd79ad"
definition ASSIGNMENT_ACTIVE_CONF_HASH_SLOT :: b256 where
  "ASSIGNMENT_ACTIVE_CONF_HASH_SLOT = 0xd56125ba33c296e14f68d6694333af40f3cc48fa5a36f9e92163bf6a6a427ce1"
definition OUTCOMES_ROUND_SLOT :: b256 where
  "OUTCOMES_ROUND_SLOT = 0xdf6054d2856db510df05f205217ce7e44e297a6e8637b87280ec2ea8c9f4c7ee"
definition OUTCOMES_COMMITMENT_SLOT :: b256 where
  "OUTCOMES_COMMITMENT_SLOT = 0xa20cac25b5a8a5560378675c46b953deb71e952d3a217adf06a367755ed9e14c"
definition B1_NETWORK_SLOT :: b256 where
  "B1_NETWORK_SLOT = 0x36655612ed573010c759ea2241753af111519811fe26d69e6b788feffd5d8a5a"
definition B1_PROFILE_HASH_SLOT :: b256 where
  "B1_PROFILE_HASH_SLOT = 0x134a17ec577b5250d3bf72a1025982cb0e0dcc333f6fcb9e4b09f238d462e907"
definition B1_INITIALIZED_SLOT :: b256 where
  "B1_INITIALIZED_SLOT = 0x86dbc6fb003fd76a5c36b58ac720e220e7b567a5a78a807dd5110458760d889b"
definition PHASE_SLOT :: b256 where
  "PHASE_SLOT = 0xbd46d80656ebd65ff40d271a180003a97a8f7200d2b0562e68a0b3455cd447d1"

section \<open>Types\<close>

record execution_config =
  xc_system_gas_limit :: u64
  xc_b1 :: b1_context

record update_input =
  ui_bytes :: bytes
  ui_records :: bytes
  ui_parent_number :: u64

record execution_result =
  er_admission_gas :: u64
  er_records_admission_gas :: u64
  er_open_gas_spent :: u64
  er_open_gas_refunded :: u64
  er_import_gas_spent :: u64
  er_import_gas_refunded :: u64
  er_finalize_gas_spent :: u64
  er_finalize_gas_refunded :: u64
  er_total_gas_spent :: u64
  er_input_commitment :: b256
  er_origin_identity :: b256
  er_technical_record_hash :: b256
  er_registry_commitment :: b256

datatype execution_error =
    InvalidInput string
  | DatabaseError string
  | OpenFailed string
  | RegistryEpochRefused u64 u64
  | ImportFailed string
  | FinalizeFailed string
  | RecordImportError import_error
  | B1UpdateError update_error
  | B1ProfileMismatch string
  | HookError hook_error
  | GasBudgetExceeded u64 u64
  | Panicked string

text \<open>\<open>Panicked\<close> is not a value of the source's enum: it stands for a failed \<open>expect\<close>.\<close>

section \<open>Projection onto the call arguments\<close>

definition project_member :: "b1_member \<Rightarrow> member_abi" where
  "project_member m =
     \<lparr>ma_node_id_length = of_nat (length (mb_node_id m)), ma_node_id = pad_words 4 (mb_node_id m),
      ma_key = pad_words 2 (mb_key m), ma_weight = mb_weight m\<rparr>"

definition unwrap_or_default :: "u64 option \<Rightarrow> u64" where
  "unwrap_or_default v = (case v of Some x \<Rightarrow> x | None \<Rightarrow> 0)"

definition project_entry :: "b1_entry \<Rightarrow> entry_abi" where
  "project_entry e =
     \<lparr>ea_epoch = en_epoch e, ea_body_kind = en_body_kind e, ea_body_id = en_body_id e,
      ea_activation_commit_id = en_activation_commit_id e, ea_start = en_start e,
      ea_has_end = (en_end e \<noteq> None), ea_end = unwrap_or_default (en_end e),
      ea_signing_scheme = en_signing_scheme e, ea_signing_config_hash = en_signing_config_hash e,
      ea_members = map project_member (en_members e)\<rparr>"

definition project_update :: "b1_update \<Rightarrow> update_abi" where
  "project_update u =
     \<lparr>ua_prior_tip_epoch = up_prior_tip_epoch u, ua_has_old_tip_end = (up_old_tip_end u \<noteq> None),
      ua_old_tip_end = unwrap_or_default (up_old_tip_end u),
      ua_new_entries = map project_entry (up_new_entries u)\<rparr>"

definition assignment_projection_hash :: "keccak \<Rightarrow> epoch_transition \<Rightarrow> b256" where
  "assignment_projection_hash keccak t =
     keccak (b256_bytes (keccak (ascii ''unicity.seal-registry.v2/assignment-ack-projection'')) @
       b256_bytes (ucast (et_old_root_epoch t)) @ b256_bytes (ucast (et_old_shard_epoch t)) @
       b256_bytes (et_old_active_conf_hash t) @
       b256_bytes (ucast (et_new_root_epoch t)) @ b256_bytes (ucast (et_new_shard_epoch t)) @
       b256_bytes (et_new_active_conf_hash t) @
       b256_bytes (ucast (et_supersession_span t)) @ b256_bytes (et_supersession_commitment t))"

definition zero_assignment_projection :: assignment_projection where
  "zero_assignment_projection =
     \<lparr>ap_old_root_epoch = 0, ap_old_shard_epoch = 0, ap_old_active_conf_hash = 0, ap_new_root_epoch = 0,
      ap_new_shard_epoch = 0, ap_new_active_conf_hash = 0, ap_supersession_span = 0,
      ap_supersession_commitment = 0, ap_projection_hash = 0\<rparr>"

definition project_assignment :: "keccak \<Rightarrow> epoch_transition \<Rightarrow> assignment_projection" where
  "project_assignment keccak t =
     \<lparr>ap_old_root_epoch = et_old_root_epoch t, ap_old_shard_epoch = et_old_shard_epoch t,
      ap_old_active_conf_hash = et_old_active_conf_hash t, ap_new_root_epoch = et_new_root_epoch t,
      ap_new_shard_epoch = et_new_shard_epoch t, ap_new_active_conf_hash = et_new_active_conf_hash t,
      ap_supersession_span = et_supersession_span t, ap_supersession_commitment = et_supersession_commitment t,
      ap_projection_hash = assignment_projection_hash keccak t\<rparr>"

definition first_transition :: "root_input \<Rightarrow> execution_error + epoch_transition option" where
  "first_transition input =
     (case ri_transitions input of
        [] \<Rightarrow> Inr None
      | raw # _ \<Rightarrow>
          (case decode_epoch_transition raw of
             Inl _ \<Rightarrow> Inl (InvalidInput ''invalid epoch transition encoding'')
           | Inr t \<Rightarrow> Inr (Some t)))"

record prepared_transition =
  pt_n :: u64
  pt_open_data :: bytes
  pt_input_commitment :: b256
  pt_origin_identity :: b256
  pt_technical_record_hash :: b256

definition certified_fields :: "origin_class \<Rightarrow> input_record \<Rightarrow> execution_error + u64 \<times> b256 \<times> bool \<times> b256" where
  "certified_fields cls ir =
     (if cls = Bootstrap then Inr (0, 0, False, 0)
      else rbind (ok_or (Panicked ''validated'') (ir_state_hash ir)) (\<lambda>state_hash.
        Inr (ir_round ir, state_hash, ir_block_hash ir \<noteq> None, case_option 0 (\<lambda>b. b) (ir_block_hash ir))))"

definition prepare_transition ::
  "'db host \<Rightarrow> root_input \<Rightarrow> b1_update \<Rightarrow> b256 \<Rightarrow> execution_error + prepared_transition" where
  "prepare_transition h input update genesis_shard_conf_hash =
     rbind (map_err InvalidInput (origin_class (hs_sha256 h) input)) (\<lambda>cls.
     rbind (first_transition input) (\<lambda>transition.
     rbind (map_err InvalidInput (input_commitment (hs_sha256 h) input)) (\<lambda>commitment.
     rbind (map_err InvalidInput (origin_identity (hs_sha256 h) input)) (\<lambda>identity.
     rbind (certified_fields cls (ro_input_record (ri_origin input))) (\<lambda>(certified_round, state_hash, has_block_hash, block_hash).
     let tr_hash = technical_record_hash (hs_sha256 h) (ri_technical input);
         assignment = case_option zero_assignment_projection (project_assignment (hs_keccak h)) transition;
         head = \<lparr>oh_n = ri_authorized_round input, oh_root_round = ro_root_round (ri_origin input),
           oh_root_epoch = ro_root_epoch (ri_origin input), oh_timestamp = ro_reference_time (ri_origin input),
           oh_tree_root = ro_tree_root (ri_origin input), oh_origin_identity = identity, oh_tr_hash = tr_hash,
           oh_shard_conf_hash = genesis_shard_conf_hash, oh_certified_round = certified_round,
           oh_cert_epoch = ri_certified_epoch input, oh_auth_epoch = ri_authorized_epoch input,
           oh_state_hash = state_hash, oh_has_block_hash = has_block_hash, oh_block_hash = block_hash,
           oh_input_commitment = commitment, oh_transition_count = (if transition = None then 0 else 1),
           oh_body_id = case_option 0 et_body_id transition, oh_genesis_id = case_option 0 et_genesis_id transition,
           oh_frozen_id = case_option 0 et_frozen_id transition, oh_commit_id = case_option 0 et_commit_id transition,
           oh_frozen_parent = case_option 0 et_frozen_parent transition,
           oh_successor_tr = case_option 0 et_successor_tr transition,
           oh_active_conf_hash = case_option (ro_shard_conf_hash (ri_origin input)) et_new_active_conf_hash transition\<rparr> in
     Inr \<lparr>pt_n = ri_authorized_round input,
       pt_open_data = OPEN_SELECTOR @ drop 4 (hs_open_abi h head assignment (project_update update)),
       pt_input_commitment = commitment, pt_origin_identity = identity, pt_technical_record_hash = tr_hash\<rparr>)))))"

section \<open>Projection is injective\<close>

lemma pad_words_inj:
  assumes "pad_words n a = pad_words n b" "length a = length b" "length a \<le> 32 * n"
  shows "a = b"
  by (metis pad_words_bytes append_same_eq assms)

lemma project_member_inj:
  assumes "project_member a = project_member b" "member_ok a" "member_ok b"
  shows "a = b"
proof -
  have len: "length (mb_node_id a) \<le> 128" "length (mb_node_id b) \<le> 128" "length (mb_key a) = 33" "length (mb_key b) = 33"
    using assms by (simp_all add: member_ok_def)
  have eqs: "(of_nat (length (mb_node_id a)) :: u64) = of_nat (length (mb_node_id b))"
    "pad_words 4 (mb_node_id a) = pad_words 4 (mb_node_id b)" "pad_words 2 (mb_key a) = pad_words 2 (mb_key b)"
    "mb_weight a = mb_weight b"
    using assms(1) by (simp_all add: project_member_def)
  have "length (mb_node_id a) = length (mb_node_id b)"
    using eqs(1) len by (simp add: word_unat_eq_iff unat_of_nat)
  then show ?thesis using pad_words_inj [OF eqs(2)] pad_words_inj [OF eqs(3)] len eqs(4) by simp
qed

lemma unwrap_inj: "(v \<noteq> None) = (w \<noteq> None) \<Longrightarrow> unwrap_or_default v = unwrap_or_default w \<Longrightarrow> v = w"
  by (cases v; cases w) (auto simp: unwrap_or_default_def)

lemma map_inj_eq: "map f xs = map f ys \<Longrightarrow> (\<And>x y. x \<in> set xs \<Longrightarrow> y \<in> set ys \<Longrightarrow> f x = f y \<Longrightarrow> x = y) \<Longrightarrow> xs = ys"
  by (induction xs arbitrary: ys) (auto simp: Cons_eq_map_conv)

lemma project_entry_inj:
  assumes "project_entry a = project_entry b" "b1_entry_ok a" "b1_entry_ok b"
  shows "a = b"
proof -
  have "en_members a = en_members b"
    using assms by (intro map_inj_eq [of project_member]) (auto simp: project_entry_def b1_entry_ok_def intro: project_member_inj)
  moreover have "en_end a = en_end b" using assms(1) by (intro unwrap_inj) (simp_all add: project_entry_def)
  ultimately show ?thesis using assms(1) by (simp add: project_entry_def)
qed

text \<open>
  Claim C28. The projection onto the registry's call arguments loses nothing: two well-formed updates with
  the same \<open>B1Update\<close> tuple agree on the prior tip, its closing round and every new entry, so the registry
  installs exactly the entries that admission checked.
\<close>

theorem project_update_inj:
  assumes "update_ok k u" "update_ok k v" "project_update u = project_update v"
  shows "up_prior_tip_epoch u = up_prior_tip_epoch v \<and> up_old_tip_end u = up_old_tip_end v \<and>
    up_new_entries u = up_new_entries v"
proof (intro conjI)
  show "up_prior_tip_epoch u = up_prior_tip_epoch v" using assms(3) by (simp add: project_update_def)
  show "up_old_tip_end u = up_old_tip_end v" using assms(3) by (intro unwrap_inj) (simp_all add: project_update_def)
  show "up_new_entries u = up_new_entries v"
    using assms by (intro map_inj_eq [of project_entry]) (auto simp: project_update_def update_ok_def intro: project_entry_inj)
qed

theorem project_update_inj_witness:
  "up_new_entries sample_update = up_new_entries (sample_update\<lparr>up_network := 2\<rparr>)"
proof -
  have "update_ok 2 (sample_update\<lparr>up_network := 2\<rparr>)" using sample_update_ok by (simp add: update_ok_def)
  moreover have "project_update sample_update = project_update (sample_update\<lparr>up_network := 2\<rparr>)"
    by (simp add: project_update_def)
  ultimately show ?thesis using project_update_inj [OF sample_update_ok] by blast
qed

end
