(* ===== verification/Registry_Transition.thy ===== *)
theory Registry_Transition
  imports Registry_Call
begin

text \<open>
  The privileged registry transition of one block, \<open>execution/src/lib.rs\<close>: the checks of the parent registry, the
  admission of the update and of the root records, and the run of \<open>open\<close>, \<open>importRootRecords\<close> and \<open>finalize\<close>
  within the system gas limit. An error keeps what was committed before it; the caller discards the candidate.
\<close>

section \<open>The run\<close>

definition registry_word :: "'db host \<Rightarrow> 'db \<Rightarrow> b256 \<Rightarrow> execution_error + b256" where
  "registry_word h db slot = map_err DatabaseError (hs_storage h db SEAL_REGISTRY slot)"

fun check_words :: "'db host \<Rightarrow> 'db \<Rightarrow> (b256 \<times> b256 \<times> string) list \<Rightarrow> execution_error + unit" where
  "check_words h db [] = Inr ()"
| "check_words h db ((slot, expected, what) # rest) =
     rbind (registry_word h db slot) (\<lambda>v.
     if v \<noteq> expected then Inl (B1ProfileMismatch what) else check_words h db rest)"

definition pinned_words :: "'db host \<Rightarrow> b1_context \<Rightarrow> (b256 \<times> b256 \<times> string) list" where
  "pinned_words h c =
     [(B1_INITIALIZED_SLOT, 1, ''B1 registry is not initialized''),
      (B1_NETWORK_SLOT, ucast (bc_network c), ''B1 network differs from the profile''),
      (fixed_slot (hs_keccak h) ''b1.format'', 2, ''B1 registry layout is not the permanent format 2''),
      (B1_PROFILE_HASH_SLOT, bc_profile_hash c, ''B1 profile hash differs from the profile''),
      (fixed_slot (hs_keccak h) ''genesisCommitment'', bc_genesis_commitment c,
       ''B1 genesis commitment differs from the deployment pin'')]"

definition check_registry :: "'db host \<Rightarrow> 'db \<Rightarrow> b1_context \<Rightarrow> execution_error + unit" where
  "check_registry h db c =
     rbind (map_err DatabaseError (hs_code_hash h db SEAL_REGISTRY)) (\<lambda>account.
     rbind (ok_or (InvalidInput ''SealRegistry account missing from parent state'') account) (\<lambda>code_hash.
     if code_hash \<noteq> SEAL_REGISTRY_CODE_HASH
     then Inl (InvalidInput ''SealRegistry parent code hash does not match pinned artifact'') else
     rbind (check_words h db (pinned_words h c)) (\<lambda>_.
     rbind (registry_word h db (fixed_slot (hs_keccak h) ''b1.originReady'')) (\<lambda>ready.
     rbind (registry_word h db (fixed_slot (hs_keccak h) ''origin.rootEpoch'')) (\<lambda>usable.
     rbind (registry_word h db (fixed_slot (hs_keccak h) ''b1.importedTipEpoch'')) (\<lambda>imported.
     if ready = 1 \<and> usable \<noteq> imported
     then Inl (B1ProfileMismatch ''B1 registry usable origin differs from its imported tip'')
     else Inr ()))))))"

definition epoch_ok :: "b256 \<Rightarrow> b256 \<Rightarrow> b256 \<Rightarrow> root_input \<Rightarrow> epoch_transition option \<Rightarrow> bool" where
  "epoch_ok assigned assigned_shard assigned_active input transition \<longleftrightarrow>
     (case transition of
        Some t \<Rightarrow>
          assigned = ucast (et_old_root_epoch t) \<and> assigned_shard = ucast (et_old_shard_epoch t) \<and>
          assigned_active = et_old_active_conf_hash t \<and>
          ro_root_epoch (ri_origin input) = et_new_root_epoch t \<and> ri_authorized_epoch input = et_new_shard_epoch t \<and>
          ri_certified_epoch input = et_old_shard_epoch t \<and>
          ro_shard_conf_hash (ri_origin input) = et_new_active_conf_hash t
      | None \<Rightarrow>
          assigned = ucast (ro_root_epoch (ri_origin input)) \<and> assigned_shard = ucast (ri_authorized_epoch input) \<and>
          assigned_active = ro_shard_conf_hash (ri_origin input) \<and>
          ri_certified_epoch input = ri_authorized_epoch input)"

definition check_assignment :: "'db host \<Rightarrow> 'db \<Rightarrow> root_input \<Rightarrow> execution_error + b256" where
  "check_assignment h db input =
     rbind (registry_word h db ASSIGNMENT_ROOT_EPOCH_SLOT) (\<lambda>assigned.
     rbind (registry_word h db ASSIGNMENT_EPOCH_SLOT) (\<lambda>assigned_shard.
     rbind (registry_word h db ASSIGNMENT_ACTIVE_CONF_HASH_SLOT) (\<lambda>assigned_active.
     rbind (registry_word h db GENESIS_SHARD_CONF_HASH_SLOT) (\<lambda>genesis_shard_conf_hash.
     if assigned_active = 0 \<or> genesis_shard_conf_hash = 0
     then Inl (InvalidInput ''SealRegistry assignment is not initialized'') else
     rbind (first_transition input) (\<lambda>transition.
     if \<not> epoch_ok assigned assigned_shard assigned_active input transition
     then Inl (RegistryEpochRefused (if unat assigned < 2 ^ 64 then ucast assigned else - 1)
       (ro_root_epoch (ri_origin input)))
     else Inr genesis_shard_conf_hash)))))"

definition admit_block ::
  "'db host \<Rightarrow> root_input \<Rightarrow> update_input \<Rightarrow> execution_config \<Rightarrow> execution_error + admitted_update \<times> admitted_import \<times> u64" where
  "admit_block h input update config =
     rbind (map_err InvalidInput (origin_identity (hs_sha256 h) input)) (\<lambda>identity.
     rbind (map_err B1UpdateError (admit (hs_sha256 h) (hs_valid_key h) (ui_bytes update) (xc_b1 config)
       \<lparr>ub_committed_hash = ri_b1_update_hash input, ub_parent_hash = ri_parent_hash input,
        ub_parent_number = ui_parent_number update, ub_origin_epoch = ro_root_epoch (ri_origin input),
        ub_origin_round = ro_root_round (ri_origin input), ub_origin_identity = identity\<rparr>
       (xc_system_gas_limit config))) (\<lambda>admitted.
     rbind (ok_or (GasBudgetExceeded (au_gas admitted) (xc_system_gas_limit config))
       (checked_sub (xc_system_gas_limit config) (au_gas admitted))) (\<lambda>budget.
     rbind (map_err RecordImportError (admit_import (hs_sha256 h) (ui_records update) (ri_root_records_hash input) budget)) (\<lambda>records.
     rbind (ok_or (GasBudgetExceeded (- 1) (xc_system_gas_limit config))
       (checked_add (au_gas admitted) (ai_gas records))) (\<lambda>admission_gas.
     Inr (admitted, records, admission_gas))))))"

definition run_system_call ::
  "'db host \<Rightarrow> (string \<Rightarrow> execution_error) \<Rightarrow> bytes \<Rightarrow> u64 \<Rightarrow> (execution_error, 'db, u64 \<times> u64) action" where
  "run_system_call h failed data gas_limit db =
     (case hs_call h db SEAL_REGISTRY data gas_limit of
        HandlerError e \<Rightarrow> (Inl (failed e), db)
      | NotSuccess e \<Rightarrow> (Inl (failed e), db)
      | Completed spent refunded db' \<Rightarrow> (Inr (spent, refunded), db'))"

definition check_outcome :: "'db host \<Rightarrow> u64 \<Rightarrow> b256 \<Rightarrow> 'db \<Rightarrow> execution_error + unit" where
  "check_outcome h n commitment db =
     rbind (registry_word h db OUTCOMES_ROUND_SLOT) (\<lambda>stored_round.
     rbind (registry_word h db OUTCOMES_COMMITMENT_SLOT) (\<lambda>stored_commitment.
     rbind (registry_word h db PHASE_SLOT) (\<lambda>stored_phase.
     if stored_round \<noteq> ucast n \<or> stored_commitment \<noteq> commitment \<or> stored_phase \<noteq> 2
     then Inl (FinalizeFailed ''registry post-state does not contain the finalized round and outcome commitment'')
     else Inr ())))"

definition admit_transition ::
  "'db host \<Rightarrow> root_input \<Rightarrow> update_input \<Rightarrow> execution_config \<Rightarrow> 'db
    \<Rightarrow> execution_error + admitted_import \<times> u64 \<times> prepared_transition" where
  "admit_transition h input update config db =
     (if xc_system_gas_limit config = 0 then Inl (InvalidInput ''system gas limit must be positive'') else
      rbind (map_err InvalidInput (origin_class (hs_sha256 h) input)) (\<lambda>_.
      rbind (check_registry h db (xc_b1 config)) (\<lambda>_.
      rbind (check_assignment h db input) (\<lambda>genesis_shard_conf_hash.
      rbind (admit_block h input update config) (\<lambda>(admitted, records, admission_gas).
      rbind (prepare_transition h input (au_update admitted) genesis_shard_conf_hash) (\<lambda>prepared.
      Inr (records, admission_gas, prepared)))))))"

definition run_calls ::
  "'db host \<Rightarrow> u64 \<Rightarrow> u64 \<Rightarrow> admitted_import \<Rightarrow> u64 \<Rightarrow> prepared_transition \<Rightarrow> (execution_error, 'db, execution_result) action" where
  "run_calls h limit authorized_round records admitted_gas prepared =
     (let over = (\<lambda>spent. GasBudgetExceeded spent limit) in
      sbind (run_system_call h OpenFailed (pt_open_data prepared) (limit - admitted_gas)) (\<lambda>(open_spent, open_refunded).
      sbind (slift (ok_or (over (- 1)) (checked_add admitted_gas open_spent))) (\<lambda>after_open.
      sbind (slift (ok_or (over after_open) (checked_sub limit after_open))) (\<lambda>import_remaining.
      sbind (run_system_call h ImportFailed (import_call_data (hs_import_abi h) (ai_import records) (pt_n prepared))
        import_remaining) (\<lambda>(import_spent, import_refunded).
      sbind (slift (ok_or (over (- 1)) (checked_add after_open import_spent))) (\<lambda>staged_gas.
      let registry_commitment = system_outcome_commitment (hs_sha256 h) staged_gas (pt_input_commitment prepared) in
      sbind (slift (ok_or (over staged_gas) (checked_sub limit staged_gas))) (\<lambda>remaining.
      sbind (run_system_call h FinalizeFailed (hs_finalize_abi h (pt_n prepared) registry_commitment) remaining)
        (\<lambda>(finalize_spent, finalize_refunded).
      sbind (slift (ok_or (over (- 1)) (checked_add staged_gas finalize_spent))) (\<lambda>total_gas.
      if limit < total_gas then slift (Inl (over total_gas)) else
      sbind (\<lambda>db. (check_outcome h authorized_round registry_commitment db, db)) (\<lambda>_.
      slift (Inr
        \<lparr>er_admission_gas = admitted_gas, er_records_admission_gas = ai_gas records,
         er_open_gas_spent = open_spent, er_open_gas_refunded = open_refunded,
         er_import_gas_spent = import_spent, er_import_gas_refunded = import_refunded,
         er_finalize_gas_spent = finalize_spent, er_finalize_gas_refunded = finalize_refunded,
         er_total_gas_spent = total_gas, er_input_commitment = pt_input_commitment prepared,
         er_origin_identity = pt_origin_identity prepared,
         er_technical_record_hash = pt_technical_record_hash prepared,
         er_registry_commitment = registry_commitment\<rparr>)))))))))))"

definition execute_registry_transition_on_db ::
  "'db host \<Rightarrow> root_input \<Rightarrow> update_input \<Rightarrow> execution_config \<Rightarrow> (execution_error, 'db, execution_result) action" where
  "execute_registry_transition_on_db h input update config db =
     sbind (slift (admit_transition h input update config db)) (\<lambda>(records, admitted_gas, prepared).
     run_calls h (xc_system_gas_limit config) (ri_authorized_round input) records admitted_gas prepared) db"

definition execute_registry_transition ::
  "'db host \<Rightarrow> root_input \<Rightarrow> update_input \<Rightarrow> 'db \<Rightarrow> execution_config \<Rightarrow> execution_error + execution_result \<times> 'db" where
  "execute_registry_transition h input update parent config =
     (case execute_registry_transition_on_db h input update config parent of
        (Inl e, _) \<Rightarrow> Inl e
      | (Inr result, candidate) \<Rightarrow> Inr (result, candidate))"

section \<open>Gas\<close>


lemma admit_block_iff:
  assumes "slice (ui_bytes update)"
  shows "admit_block h input update config = Inr (admitted, records, gas) \<longleftrightarrow>
    (\<exists>identity rest. origin_identity (hs_sha256 h) input = Inr identity \<and>
      admit (hs_sha256 h) (hs_valid_key h) (ui_bytes update) (xc_b1 config)
        \<lparr>ub_committed_hash = ri_b1_update_hash input, ub_parent_hash = ri_parent_hash input,
         ub_parent_number = ui_parent_number update, ub_origin_epoch = ro_root_epoch (ri_origin input),
         ub_origin_round = ro_root_round (ri_origin input), ub_origin_identity = identity\<rparr>
        (xc_system_gas_limit config) = Inr admitted \<and>
      unat (xc_system_gas_limit config) = unat (au_gas admitted) + unat rest \<and>
      admit_import (hs_sha256 h) (ui_records update) (ri_root_records_hash input) rest = Inr records \<and>
      unat gas = unat (au_gas admitted) + unat (ai_gas records) \<and> gas \<le> xc_system_gas_limit config)"
  by (auto simp: admit_block_def result_iff checked_sub_Some_iff checked_add_Some_iff admit_import_iff word_le_nat_alt)





text \<open>The checked sums and the \<open>expect\<close> guard against errors that no run reaches.\<close>

definition unreachable_error :: "execution_error \<Rightarrow> bool" where
  "unreachable_error e \<longleftrightarrow> (\<exists>a b. e = GasBudgetExceeded a b) \<or> (\<exists>w. e = Panicked w)"

lemma unreachable_error_simps [simp]:
  "\<not> unreachable_error (InvalidInput m)" "\<not> unreachable_error (DatabaseError m)" "\<not> unreachable_error (OpenFailed m)"
  "\<not> unreachable_error (RegistryEpochRefused x y)" "\<not> unreachable_error (ImportFailed m)"
  "\<not> unreachable_error (FinalizeFailed m)" "\<not> unreachable_error (RecordImportError i)"
  "\<not> unreachable_error (B1UpdateError u)" "\<not> unreachable_error (B1ProfileMismatch m)"
  by (simp_all add: unreachable_error_def)









section \<open>The run, stage by stage\<close>

text \<open>What a successful run did: three calls, each on the state the previous one committed, under the limit left.\<close>

definition ran :: "'db host \<Rightarrow> u64 \<Rightarrow> admitted_import \<Rightarrow> u64 \<Rightarrow> prepared_transition \<Rightarrow> 'db \<Rightarrow> execution_result \<Rightarrow> 'db \<Rightarrow> bool" where
  "ran h limit records gas prepared db r db' \<longleftrightarrow>
     (\<exists>db1 db2.
        hs_call h db SEAL_REGISTRY (pt_open_data prepared) (limit - gas) =
          Completed (er_open_gas_spent r) (er_open_gas_refunded r) db1 \<and>
        hs_call h db1 SEAL_REGISTRY (import_call_data (hs_import_abi h) (ai_import records) (pt_n prepared))
          (limit - (gas + er_open_gas_spent r)) =
          Completed (er_import_gas_spent r) (er_import_gas_refunded r) db2 \<and>
        hs_call h db2 SEAL_REGISTRY (hs_finalize_abi h (pt_n prepared) (er_registry_commitment r))
          (limit - (gas + er_open_gas_spent r + er_import_gas_spent r)) =
          Completed (er_finalize_gas_spent r) (er_finalize_gas_refunded r) db')"

lemma checked_add_eq_iff:
  "checked_add a b = Some c \<longleftrightarrow> unat a + unat (b :: 'a::len word) < 2 ^ LENGTH('a) \<and> c = a + b"
  by (auto simp: checked_add_def)

lemma checked_sub_eq_iff: "checked_sub a b = Some c \<longleftrightarrow> b \<le> a \<and> c = a - b"
  by (auto simp: checked_sub_def)

lemma run_system_call_iff:
  "run_system_call h failed data limit db = (Inr (spent, refunded), db') \<longleftrightarrow>
     hs_call h db SEAL_REGISTRY data limit = Completed spent refunded db'"
  by (auto simp: run_system_call_def split: privileged_call.splits)

lemma check_action_iff: "((\<lambda>db. (check db, db)) db = (Inr v, db')) \<longleftrightarrow> check db = Inr v \<and> db' = db"
  by auto

lemma execute_Inr_iff:
  "execute_registry_transition_on_db h input update config db = (Inr r, db') \<longleftrightarrow>
     (\<exists>records gas prepared. admit_transition h input update config db = Inr (records, gas, prepared) \<and>
        ran h (xc_system_gas_limit config) records gas prepared db r db' \<and>
        unat gas + unat (er_open_gas_spent r) < 2 ^ 64 \<and> gas + er_open_gas_spent r \<le> xc_system_gas_limit config \<and>
        unat (gas + er_open_gas_spent r) + unat (er_import_gas_spent r) < 2 ^ 64 \<and>
        gas + er_open_gas_spent r + er_import_gas_spent r \<le> xc_system_gas_limit config \<and>
        unat (gas + er_open_gas_spent r + er_import_gas_spent r) + unat (er_finalize_gas_spent r) < 2 ^ 64 \<and>
        er_total_gas_spent r = gas + er_open_gas_spent r + er_import_gas_spent r + er_finalize_gas_spent r \<and>
        er_total_gas_spent r \<le> xc_system_gas_limit config \<and>
        check_outcome h (ri_authorized_round input) (er_registry_commitment r) db' = Inr () \<and>
        er_admission_gas r = gas \<and> er_records_admission_gas r = ai_gas records \<and>
        er_registry_commitment r = system_outcome_commitment (hs_sha256 h)
          (gas + er_open_gas_spent r + er_import_gas_spent r) (pt_input_commitment prepared) \<and>
        er_input_commitment r = pt_input_commitment prepared \<and> er_origin_identity r = pt_origin_identity prepared \<and>
        er_technical_record_hash r = pt_technical_record_hash prepared)"
  by (cases r)
    (auto simp: execute_registry_transition_on_db_def run_calls_def Let_def action_iff ok_or_Inr_iff checked_add_eq_iff
      checked_sub_eq_iff run_system_call_iff ran_def not_less)




lemma ok_or_slift_Inl: "slift (ok_or e v) s = (Inl f, s') \<longleftrightarrow> v = None \<and> e = f \<and> s' = s"
  by (cases v) (auto simp: slift_def)









lemma check_outcome_iff:
  "check_outcome h n c db = Inr v \<longleftrightarrow> hs_storage h db SEAL_REGISTRY OUTCOMES_ROUND_SLOT = Inr (ucast n) \<and>
     hs_storage h db SEAL_REGISTRY OUTCOMES_COMMITMENT_SLOT = Inr c \<and> hs_storage h db SEAL_REGISTRY PHASE_SLOT = Inr 2"
  by (auto simp: check_outcome_def registry_word_def result_iff)

lemma prepared_commitment:
  "prepare_transition h input u g = Inr p \<Longrightarrow>
     input_commitment (hs_sha256 h) input = Inr (pt_input_commitment p) \<and> pt_n p = ri_authorized_round input"
  by (auto simp: prepare_transition_def result_iff Let_def split: prod.splits)

section \<open>Properties\<close>

text \<open>
  Claim C29. A successful registry transition executes exactly what the root input commits to: the update
  and the record companion are the canonical encodings of a well-formed, bound update and import with the
  committed hashes, \<open>open\<close>, \<open>importRootRecords\<close> and \<open>finalize\<close> ran in this order on each other's states, and
  the committed state carries the authorized round, the finalized phase and the outcome commitment over the gas
  of admission, open and import. The charged total is the exact sum of the four parts and within the system limit.
\<close>

theorem registry_transition_sound:
  assumes "slice (ui_bytes update)"
    "execute_registry_transition_on_db h input update config db = (Inr r, db')"
  shows "(\<exists>u i p. update_ok 2 u \<and> ui_bytes update = update_to_bytes u \<and>
        hs_sha256 h (ui_bytes update) = ri_b1_update_hash input \<and> entries_rules (hs_valid_key h) u \<and>
        import_ok (ai_import i) \<and> ui_records update = import_to_bytes (ai_import i) \<and>
        hs_sha256 h (ui_records update) = ri_root_records_hash input \<and>
        (\<exists>g. prepare_transition h input u g = Inr p) \<and>
        ran h (xc_system_gas_limit config) i (er_admission_gas r) p db r db') \<and>
     input_commitment (hs_sha256 h) input = Inr (er_input_commitment r) \<and>
     er_registry_commitment r = system_outcome_commitment (hs_sha256 h)
       (er_admission_gas r + er_open_gas_spent r + er_import_gas_spent r) (er_input_commitment r) \<and>
     hs_storage h db' SEAL_REGISTRY OUTCOMES_ROUND_SLOT = Inr (ucast (ri_authorized_round input)) \<and>
     hs_storage h db' SEAL_REGISTRY OUTCOMES_COMMITMENT_SLOT = Inr (er_registry_commitment r) \<and>
     hs_storage h db' SEAL_REGISTRY PHASE_SLOT = Inr 2 \<and>
     unat (er_total_gas_spent r) = unat (er_admission_gas r) + unat (er_open_gas_spent r) +
       unat (er_import_gas_spent r) + unat (er_finalize_gas_spent r) \<and>
     er_total_gas_spent r \<le> xc_system_gas_limit config"
proof -
  from assms(2) obtain records p where adm: "admit_transition h input update config db = Inr (records, er_admission_gas r, p)"
    and ran: "ran h (xc_system_gas_limit config) records (er_admission_gas r) p db r db'"
    and fits: "unat (er_admission_gas r) + unat (er_open_gas_spent r) < 2 ^ 64"
      "unat (er_admission_gas r + er_open_gas_spent r) + unat (er_import_gas_spent r) < 2 ^ 64"
      "unat (er_admission_gas r + er_open_gas_spent r + er_import_gas_spent r) + unat (er_finalize_gas_spent r) < 2 ^ 64"
      "er_total_gas_spent r = er_admission_gas r + er_open_gas_spent r + er_import_gas_spent r + er_finalize_gas_spent r"
    and rest: "er_total_gas_spent r \<le> xc_system_gas_limit config"
      "check_outcome h (ri_authorized_round input) (er_registry_commitment r) db' = Inr ()"
      "er_registry_commitment r = system_outcome_commitment (hs_sha256 h)
        (er_admission_gas r + er_open_gas_spent r + er_import_gas_spent r) (er_input_commitment r)"
      "er_input_commitment r = pt_input_commitment p"
    unfolding execute_Inr_iff by auto
  from adm obtain a g where block: "admit_block h input update config = Inr (a, records, er_admission_gas r)"
    and prep: "prepare_transition h input (au_update a) g = Inr p"
    by (auto simp: admit_transition_def result_iff)
  from block have upd: "update_ok 2 (au_update a)" "ui_bytes update = update_to_bytes (au_update a)"
      "hs_sha256 h (ui_bytes update) = ri_b1_update_hash input" "entries_rules (hs_valid_key h) (au_update a)"
    and imp: "import_ok (ai_import records)" "ui_records update = import_to_bytes (ai_import records)"
      "hs_sha256 h (ui_records update) = ri_root_records_hash input"
    by (auto simp: admit_block_iff [OF assms(1)] admit_iff [OF assms(1)] admit_import_iff)
  have "unat (er_total_gas_spent r) = unat (er_admission_gas r) + unat (er_open_gas_spent r) +
       unat (er_import_gas_spent r) + unat (er_finalize_gas_spent r)"
    using fits by (simp add: unat_add_exact)
  then show ?thesis using upd imp prep ran rest prepared_commitment [OF prep] by (auto simp: check_outcome_iff)
qed

definition sample_block_input :: root_input where
  "sample_block_input = (sample_root [])\<lparr>ri_b1_update_hash := 9, ri_root_records_hash := 9\<rparr>"

definition sample_empty_update :: b1_update where
  "sample_empty_update = \<lparr>up_network = 1, up_root_genesis_id = 7, up_execution_chain_id = 9, up_profile_hash = 11,
     up_parent_hash = 5, up_block_number = 5, up_origin_epoch = 1, up_origin_round = 4, up_origin_identity = 9,
     up_prior_tip_epoch = 1, up_old_tip_end = None, up_new_entries = []\<rparr>"

definition sample_import :: record_import where
  "sample_import = \<lparr>rm_progress = 1, rm_uc_time = 2, rm_target_count = 0, rm_target_tip = 0, rm_entries = []\<rparr>"

definition sample_update_input :: update_input where
  "sample_update_input = \<lparr>ui_bytes = update_to_bytes sample_empty_update, ui_records = import_to_bytes sample_import,
     ui_parent_number = 4\<rparr>"

definition sample_slots :: "b256 \<Rightarrow> b256" where
  "sample_slots slot =
     (if slot = B1_INITIALIZED_SLOT \<or> slot = B1_NETWORK_SLOT \<or> slot = ASSIGNMENT_ROOT_EPOCH_SLOT \<or> slot = OUTCOMES_ROUND_SLOT then 1
      else if slot = B1_PROFILE_HASH_SLOT then 11 else if slot = 39 then 12 else if slot = 31 \<or> slot = PHASE_SLOT then 2
      else if slot = ASSIGNMENT_ACTIVE_CONF_HASH_SLOT \<or> slot = GENESIS_SHARD_CONF_HASH_SLOT then 7
      else if slot = OUTCOMES_COMMITMENT_SLOT then 9 else 0)"

definition sample_host :: "unit host" where
  "sample_host = \<lparr>hs_sha256 = \<lambda>_. 9, hs_keccak = \<lambda>bs. of_nat (length bs), hs_valid_key = \<lambda>_. True,
     hs_open_abi = \<lambda>_ _ _. [], hs_import_abi = \<lambda>_. [], hs_finalize_abi = \<lambda>_ _. [],
     hs_code_hash = \<lambda>_ _. Inr (Some SEAL_REGISTRY_CODE_HASH), hs_storage = \<lambda>_ _ slot. Inr (sample_slots slot),
     hs_call = \<lambda>_ _ _ limit. if 100 \<le> limit then Completed 100 0 () else NotSuccess []\<rparr>"

definition sample_config :: execution_config where
  "sample_config = \<lparr>xc_system_gas_limit = 30000000, xc_b1 = sample_context\<rparr>"

lemmas slot_defs = B1_INITIALIZED_SLOT_def B1_NETWORK_SLOT_def ASSIGNMENT_ROOT_EPOCH_SLOT_def OUTCOMES_ROUND_SLOT_def
  B1_PROFILE_HASH_SLOT_def PHASE_SLOT_def ASSIGNMENT_ACTIVE_CONF_HASH_SLOT_def GENESIS_SHARD_CONF_HASH_SLOT_def
  OUTCOMES_COMMITMENT_SLOT_def ASSIGNMENT_EPOCH_SLOT_def

lemma sample_slot_values:
  "sample_slots B1_INITIALIZED_SLOT = 1" "sample_slots B1_NETWORK_SLOT = 1" "sample_slots ASSIGNMENT_ROOT_EPOCH_SLOT = 1"
  "sample_slots OUTCOMES_ROUND_SLOT = 1" "sample_slots B1_PROFILE_HASH_SLOT = 11" "sample_slots PHASE_SLOT = 2"
  "sample_slots ASSIGNMENT_ACTIVE_CONF_HASH_SLOT = 7" "sample_slots GENESIS_SHARD_CONF_HASH_SLOT = 7"
  "sample_slots OUTCOMES_COMMITMENT_SLOT = 9" "sample_slots ASSIGNMENT_EPOCH_SLOT = 0"
  "sample_slots 31 = 2" "sample_slots 39 = 12" "sample_slots 36 = 0"
  by (simp_all add: sample_slots_def slot_defs)

lemma sample_checks:
  "check_registry sample_host db sample_context = Inr ()" "check_assignment sample_host db sample_block_input = Inr 7"
  by (simp_all add: check_registry_def check_assignment_def pinned_words_def registry_word_def fixed_slot_def sample_host_def
      sample_context_def sample_slot_values first_transition_def epoch_ok_def sample_block_input_def sample_root_def)

lemma sample_class: "origin_class (\<lambda>_. 9) sample_block_input = Inr Bootstrap"
  by (simp add: origin_class_def sample_block_input_def sample_root_def check_transitions_def origin_shape_def
      technical_record_hash_def Let_def)

lemma sample_lengths: "length (update_to_bytes sample_empty_update) = 163" "length (import_to_bytes sample_import) = 66"
  by (simp_all add: update_to_bytes_def update_head_def update_hash32_def update_optional_def sample_empty_update_def
      UPDATE_DOMAIN_def import_to_bytes_def sample_import_def IMPORT_DOMAIN_def put_array_def put_text_def
      put_uint_def put_word_def put_bytes_def major_def)

definition sample_block_binding :: update_binding where
  "sample_block_binding = \<lparr>ub_committed_hash = 9, ub_parent_hash = 5, ub_parent_number = 4, ub_origin_epoch = 1,
     ub_origin_round = 4, ub_origin_identity = 9\<rparr>"

lemma sample_empty_admitted:
  "admit (\<lambda>_. 9) (\<lambda>_. True) (update_to_bytes sample_empty_update) sample_context sample_block_binding 30000000 =
     Inr \<lparr>au_update = sample_empty_update, au_gas = 4608\<rparr>"
proof -
  have "slice (update_to_bytes sample_empty_update)" by (simp add: slice_def sample_lengths)
  moreover have "member_total (up_new_entries sample_empty_update) = 0"
    "update_ok 2 sample_empty_update" "bindings_rules sample_empty_update sample_context sample_block_binding"
    "entries_rules (\<lambda>_. True) sample_empty_update" "ub_committed_hash sample_block_binding = 9"
    by (simp_all add: member_total_def sample_empty_update_def update_ok_def bindings_rules_def sample_context_def
        sample_block_binding_def entries_rules_def)
  ultimately show ?thesis by (simp add: admit_iff sample_lengths sample_values update_gas_def)
qed

lemma sample_import_admitted:
  "admit_import (\<lambda>_. 9) (import_to_bytes sample_import) 9 29995392 = Inr \<lparr>ai_import = sample_import, ai_gas = 3056\<rparr>"
proof -
  have "import_ok sample_import" "rm_entries sample_import = []" by (simp_all add: import_ok_def sample_import_def)
  then show ?thesis by (simp add: admit_import_iff sample_lengths admission_gas_def MAX_IMPORT_BYTES_def)
qed

lemma sample_fields:
  "ri_b1_update_hash sample_block_input = 9" "ri_root_records_hash sample_block_input = 9"
  "ri_parent_hash sample_block_input = 5" "ro_root_epoch (ri_origin sample_block_input) = 1"
  "ro_root_round (ri_origin sample_block_input) = 4" "ri_authorized_round sample_block_input = 1"
  "ri_transitions sample_block_input = []"
  by (simp_all add: sample_block_input_def sample_root_def)

lemma sample_admitted_block:
  "admit_block sample_host sample_block_input sample_update_input sample_config =
     Inr (\<lparr>au_update = sample_empty_update, au_gas = 4608\<rparr>, \<lparr>ai_import = sample_import, ai_gas = 3056\<rparr>, 7664)"
  using sample_empty_admitted
  by (simp add: admit_block_def origin_identity_def sample_host_def sample_class sample_update_input_def sample_config_def
      sample_block_binding_def sample_import_admitted checked_sub_def checked_add_def sample_fields)

definition sample_result :: execution_result where
  "sample_result = \<lparr>er_admission_gas = 7664, er_records_admission_gas = 3056, er_open_gas_spent = 100,
     er_open_gas_refunded = 0, er_import_gas_spent = 100, er_import_gas_refunded = 0, er_finalize_gas_spent = 100,
     er_finalize_gas_refunded = 0, er_total_gas_spent = 7964, er_input_commitment = 9, er_origin_identity = 9,
     er_technical_record_hash = 9, er_registry_commitment = 9\<rparr>"

lemma sample_run:
  "execute_registry_transition_on_db sample_host sample_block_input sample_update_input sample_config () = (Inr sample_result, ())"
proof -
  have sha: "hs_sha256 sample_host = (\<lambda>_. 9)" by (simp add: sample_host_def)
  obtain p where p: "prepare_transition sample_host sample_block_input sample_empty_update 7 = Inr p" "pt_input_commitment p = 9"
    "pt_origin_identity p = 9" "pt_technical_record_hash p = 9"
    by (simp add: prepare_transition_def sha sample_class first_transition_def sample_fields input_commitment_def
      canonical_cbor_def origin_identity_def certified_fields_def technical_record_hash_def Let_def)
  have "admit_transition sample_host sample_block_input sample_update_input sample_config () =
      Inr (\<lparr>ai_import = sample_import, ai_gas = 3056\<rparr>, 7664, p)"
    using sample_admitted_block sample_checks p
    by (simp add: admit_transition_def sha sample_class sample_config_def)
  with p show ?thesis
    by (simp add: execute_Inr_iff ran_def check_outcome_iff sample_slot_values sample_host_def sample_result_def
      sample_config_def system_outcome_commitment_def sample_fields)
qed

theorem registry_transition_sound_witness:
  "\<exists>u. ui_bytes sample_update_input = update_to_bytes u \<and> update_ok 2 u \<and>
     er_total_gas_spent sample_result \<le> xc_system_gas_limit sample_config \<and>
     hs_storage sample_host () SEAL_REGISTRY PHASE_SLOT = Inr 2"
proof -
  have "slice (ui_bytes sample_update_input)" by (simp add: slice_def sample_update_input_def sample_lengths)
  from registry_transition_sound [OF this sample_run] show ?thesis by blast
qed



end
