(* ===== verification/B1_Cbor.thy ===== *)
theory B1_Cbor
  imports B1_Registry
begin

text \<open>
  The borrowed deterministic CBOR of the certificate kernel, \<open>b1/src/cbor.rs\<close> with the byte reader of
  \<open>b1/src/lib.rs\<close>: the head reader, the bounded scan of a whole tree in its strict, typed and loose forms, the
  item views and the iteration over the children of a scanned item. The scan is shown to accept exactly
  the canonical encodings of well-formed trees, and iterating over the children of a scanned item never fails.
\<close>

section \<open>Reader\<close>

definition rd_take :: "nat \<Rightarrow> bytes \<Rightarrow> malformed + bytes \<times> bytes" where
  "rd_take n r = (if length r < n then Inl Truncated else Inr (take n r, drop n r))"

definition rd_uint :: "nat \<Rightarrow> bytes \<Rightarrow> malformed + u64 \<times> bytes" where
  "rd_uint n r = rbind (rd_take n r) (\<lambda>(bs, r). Inr (fold_be bs, r))"

definition rd_header :: "bytes \<Rightarrow> malformed + nat \<times> bytes" where
  "rd_header r =
     rbind (rd_uint 1 r) (\<lambda>(v, r). if v \<noteq> 1 then Inl Version else
     rbind (rd_uint 1 r) (\<lambda>(v, r). if v \<noteq> 0 then Inl Flags else
     rbind (rd_uint 2 r) (\<lambda>(v, r). Inr (unat v, r))))"

section \<open>Scan\<close>

record item =
  it_raw :: bytes
  it_major :: u8
  it_arg :: u64
  it_data :: bytes

definition b1_head :: "bytes \<Rightarrow> malformed + (u8 \<times> u64) \<times> bytes" where
  "b1_head r =
     rbind (rd_uint 1 r) (\<lambda>(v, r).
     let first = ucast v :: u8; ai = first AND 31 in
     rbind (if ai \<le> 23 then Inr (ucast ai, r)
            else if ai \<le> 27 then rd_uint (2 ^ unat (ai - 24)) r
            else if ai \<le> 30 then Inl Canonical else Inl Cbor) (\<lambda>(n, r).
     if (ai = 24 \<and> n < 24) \<or> (ai = 25 \<and> n \<le> 255) \<or> (ai = 26 \<and> n \<le> 65535) \<or> (ai = 27 \<and> n \<le> 0xffffffff)
     then Inl Canonical else Inr ((drop_bit 5 first, n), r)))"

definition MAX_ITEMS :: nat where "MAX_ITEMS = 32768"

text \<open>
  \<open>scan\<close> and the loop over the items of a container. The loop keeps the encoded keys of a strict map;
  the depth bounds the recursion and the announced count bounds the loop. The item counter is a natural number: every caller
  starts it at or below its cap, far below the machine bound.
\<close>

function cbor_scan :: "bool \<Rightarrow> bool \<Rightarrow> nat \<Rightarrow> nat \<Rightarrow> nat \<Rightarrow> bytes \<Rightarrow> malformed + bytes \<times> nat"
  and scan_items :: "bool \<Rightarrow> bool \<Rightarrow> nat \<Rightarrow> nat \<Rightarrow> bool \<Rightarrow> nat \<Rightarrow> nat \<Rightarrow> bytes list \<Rightarrow> nat \<Rightarrow> bytes \<Rightarrow> malformed + bytes \<times> nat"
where
  "cbor_scan strict utf8 cap depth tokens r =
     (let tokens = tokens + 1 in
      if cap < tokens then Inl Limit
      else if (case r of b # _ \<Rightarrow> drop_bit 5 b = 7 \<and> b \<noteq> 0xf6 | [] \<Rightarrow> False) then Inl Cbor
      else rbind (b1_head r) (\<lambda>((m, n), r).
        if m = 0 then Inr (r, tokens)
        else if m = 2 \<or> m = 3 then
          rbind (rd_take (unat n) r) (\<lambda>(data, r).
          if (strict \<or> utf8) \<and> m = 3 \<and> \<not> utf8_valid data then Inl Utf8 else Inr (r, tokens))
        else if m = 4 \<or> m = 5 \<or> m = 6 then
          if 16 \<le> depth then Inl Limit
          else if m = 5 \<and> strict \<and> 64 < n then Inl Limit
          else if m = 5 \<and> of_nat (length r) < n then Inl Truncated
          else let count = (if m = 5 then n * 2 else if m = 6 then 1 else n) in
            if of_nat (length r) < count then Inl Truncated
            else scan_items strict utf8 cap (depth + 1) (m = 5) 0 (unat count) [] tokens r
        else if m = 7 \<and> n = 22 then Inr (r, tokens)
        else Inl Cbor))"
| "scan_items strict utf8 cap depth is_map i count keys tokens r =
     (if count = 0 then Inr (r, tokens)
      else rbind (cbor_scan strict utf8 cap depth tokens r) (\<lambda>(r', tokens).
        if strict \<and> is_map \<and> even i then
          let key = take (length r - length r') r in
          if key \<in> set keys \<or> (keys \<noteq> [] \<and> key \<le> last keys) then Inl Canonical
          else scan_items strict utf8 cap depth is_map (i + 1) (count - 1) (keys @ [key]) tokens r'
        else scan_items strict utf8 cap depth is_map (i + 1) (count - 1) keys tokens r'))"
  by pat_completeness auto
termination
  by (relation "measures [case_sum (\<lambda>(s, u, cap, depth, tokens, r). 17 - depth)
        (\<lambda>(s, u, cap, depth, is_map, i, count, keys, tokens, r). 17 - depth),
      case_sum (\<lambda>_. 0) (\<lambda>(s, u, cap, depth, is_map, i, count, keys, tokens, r). count)]") auto

declare cbor_scan.simps [simp del] scan_items.simps [simp del]

definition cbor_item :: "bytes \<Rightarrow> malformed + item" where
  "cbor_item data =
     rbind (b1_head data) (\<lambda>((major, arg), r). Inr \<lparr>it_raw = data, it_major = major, it_arg = arg, it_data = r\<rparr>)"

definition scan_whole :: "bool \<Rightarrow> bool \<Rightarrow> nat \<Rightarrow> nat \<Rightarrow> bytes \<Rightarrow> malformed + item \<times> nat" where
  "scan_whole strict utf8 cap tokens data =
     rbind (cbor_scan strict utf8 cap 0 tokens data) (\<lambda>(r, tokens).
     if r \<noteq> [] then Inl Trailing else
     rbind (cbor_item data) (\<lambda>it. Inr (it, tokens)))"

definition one_capped :: "nat \<Rightarrow> nat \<Rightarrow> bytes \<Rightarrow> malformed + item \<times> nat" where
  "one_capped cap tokens data = scan_whole True True cap tokens data"

definition cbor_one :: "nat \<Rightarrow> bytes \<Rightarrow> malformed + item \<times> nat" where
  "cbor_one tokens data = one_capped MAX_ITEMS tokens data"

definition one_loose :: "nat \<Rightarrow> nat \<Rightarrow> bytes \<Rightarrow> malformed + item \<times> nat" where
  "one_loose cap tokens data = scan_whole False False cap tokens data"

definition one_typed :: "nat \<Rightarrow> nat \<Rightarrow> bytes \<Rightarrow> malformed + item \<times> nat" where
  "one_typed cap tokens data = scan_whole False True cap tokens data"

section \<open>Items\<close>

definition it_null :: "item \<Rightarrow> bool" where
  "it_null it \<longleftrightarrow> it_major it = 7 \<and> it_arg it = 22"

definition it_uint :: "u64 \<Rightarrow> item \<Rightarrow> malformed + u64" where
  "it_uint mx it = (if it_major it \<noteq> 0 \<or> mx < it_arg it then Inl Shape else Inr (it_arg it))"

definition it_blob :: "u8 \<Rightarrow> nat \<Rightarrow> nat \<Rightarrow> item \<Rightarrow> malformed + bytes" where
  "it_blob m mn mx it =
     (if it_major it \<noteq> m \<or> length (it_data it) < mn then Inl Shape
      else if mx < length (it_data it) then Inl Limit else Inr (it_data it))"

definition it_bytes :: "nat \<Rightarrow> item \<Rightarrow> malformed + bytes" where
  "it_bytes n it = (if it_major it \<noteq> 2 \<or> it_arg it \<noteq> of_nat n then Inl Shape else Inr (it_data it))"

definition it_collection :: "u8 \<Rightarrow> u64 \<Rightarrow> item \<Rightarrow> malformed + u64" where
  "it_collection m mx it =
     (if it_null it then Inr 0 else if it_major it \<noteq> m then Inl Shape else if mx < it_arg it then Inl Limit
      else Inr (it_arg it))"

definition USIZE_MAX :: nat where "USIZE_MAX = 2 ^ 64 - 1"

definition child_next :: "bytes \<Rightarrow> malformed + (item \<times> bytes) option" where
  "child_next rest =
     (if rest = [] then Inr None else
      rbind (map_err (\<lambda>_. Expect) (cbor_scan False False USIZE_MAX 0 0 rest)) (\<lambda>(r, _).
      rbind (map_err (\<lambda>_. Expect) (cbor_item (take (length rest - length r) rest))) (\<lambda>it.
      Inr (Some (it, r)))))"

section \<open>Heads\<close>

lemma rd_take_iff: "rd_take n r = Inr (bs, r') \<longleftrightarrow> length bs = n \<and> r = bs @ r'"
  by (auto simp: rd_take_def)

lemma rd_uint_iff: "rd_uint n r = Inr (v, r') \<longleftrightarrow> (\<exists>bs. length bs = n \<and> v = from_be bs \<and> r = bs @ r')"
  by (auto simp: rd_uint_def result_iff rd_take_iff fold_be_from_be)

lemma byte_of_uint: "ucast (from_be [b] :: u64) = (b :: u8)"
  using unat_byte_less [of b] by (simp add: from_be_def be_nat_def word_unat_eq_iff unat_ucast_small unat_of_nat)

lemma b1_head_iff: "b1_head r = Inr ((k, v), r') \<longleftrightarrow> k < 8 \<and> r = major k v @ r'"
proof (cases r)
  case Nil
  then show ?thesis by (auto simp: b1_head_def result_iff rd_uint_iff major_split)
next
  case (Cons b rest)
  let ?i = "b AND 31"
  have first: "rd_uint 1 r = Inr (from_be [b], rest)" using Cons by (auto simp: rd_uint_iff)
  let ?bad = "\<lambda>n :: u64. (?i = 24 \<and> n < 24) \<or> (?i = 25 \<and> n \<le> 255) \<or> (?i = 26 \<and> n \<le> 65535) \<or> (?i = 27 \<and> n \<le> 0xffffffff)"
  have head: "b1_head r =
      rbind (if ?i \<le> 23 then Inr (ucast ?i, rest) else if ?i \<le> 27 then rd_uint (2 ^ unat (?i - 24)) rest
        else if ?i \<le> 30 then Inl Canonical else Inl Cbor) (\<lambda>(n, r).
      if ?bad n then Inl Canonical else Inr ((drop_bit 5 b, n), r))"
    unfolding b1_head_def first rbind.simps prod.case Let_def byte_of_uint ..
  have "b1_head r = Inr ((k, v), r') \<longleftrightarrow> (\<exists>xs. folded_head b xs k v \<and> rest = xs @ r')"
  proof (cases "?i \<le> 23")
    case True
    then have "?i < 24" by (simp add: word_le_nat_alt word_less_nat_alt)
    with True show ?thesis unfolding head by (auto simp: folded_head_def Let_def)
  next
    case False
    then have i: "\<not> ?i < 24" and shift: "unat (?i - 24) = unat ?i - 24"
      by (simp_all add: word_le_nat_alt word_less_nat_alt unat_sub)
    have bad: "\<not> ?bad n \<longleftrightarrow> minimal_argument (2 ^ (unat ?i - 24)) n" if le: "?i \<le> 27" for n
    proof -
      consider "?i = 24" | "?i = 25" | "?i = 26" | "?i = 27"
        using le False unfolding word_le_nat_alt word_unat_eq_iff by simp linarith
      then show ?thesis by cases (simp_all add: minimal_argument_def not_less not_le)
    qed
    have "b1_head r = Inr ((k, v), r') \<longleftrightarrow> ?i \<le> 27 \<and> k = drop_bit 5 b \<and> \<not> ?bad v \<and> rd_uint (2 ^ unat (?i - 24)) rest = Inr (v, r')"
      using False unfolding head by (auto simp: result_iff)
    then show ?thesis using i bad unfolding shift rd_uint_iff folded_head_def Let_def by auto
  qed
  moreover obtain c ys where "major k v = c # ys" by (simp add: major_split)
  ultimately show ?thesis using Cons by (auto simp: folded_head_iff)
qed

section \<open>Trees\<close>

text \<open>The data model behind the bytes: a map is the list of its keys and values, alternating.\<close>

datatype cbor =
    CUint u64
  | CBytes bytes
  | CText bytes
  | CArray "cbor list"
  | CMap "cbor list"
  | CTag u64 cbor
  | CNull

fun enc :: "cbor \<Rightarrow> bytes" where
  "enc (CUint n) = major 0 n"
| "enc (CBytes bs) = major 2 (of_nat (length bs)) @ bs"
| "enc (CText bs) = major 3 (of_nat (length bs)) @ bs"
| "enc (CArray ts) = major 4 (of_nat (length ts)) @ concat (map enc ts)"
| "enc (CMap ts) = major 5 (of_nat (length ts div 2)) @ concat (map enc ts)"
| "enc (CTag n t) = major 6 n @ enc t"
| "enc CNull = major 7 22"

fun nodes :: "cbor \<Rightarrow> nat" where
  "nodes (CArray ts) = 1 + sum_list (map nodes ts)"
| "nodes (CMap ts) = 1 + sum_list (map nodes ts)"
| "nodes (CTag n t) = 1 + nodes t"
| "nodes _ = 1"

fun keys_from :: "nat \<Rightarrow> cbor list \<Rightarrow> bytes list" where
  "keys_from i [] = []"
| "keys_from i (t # ts) = (if even i then enc t # keys_from (i + 1) ts else keys_from (i + 1) ts)"

fun wf_tree :: "bool \<Rightarrow> bool \<Rightarrow> nat \<Rightarrow> cbor \<Rightarrow> bool" where
  "wf_tree strict utf8 d (CText bs) = (strict \<or> utf8 \<longrightarrow> utf8_valid bs)"
| "wf_tree strict utf8 d (CArray ts) = (d < 16 \<and> (\<forall>t \<in> set ts. wf_tree strict utf8 (d + 1) t))"
| "wf_tree strict utf8 d (CMap ts) =
     (d < 16 \<and> even (length ts) \<and> (strict \<longrightarrow> length ts \<le> 128 \<and> sorted_wrt (<) (keys_from 0 ts)) \<and>
      (\<forall>t \<in> set ts. wf_tree strict utf8 (d + 1) t))"
| "wf_tree strict utf8 d (CTag n t) = (d < 16 \<and> wf_tree strict utf8 (d + 1) t)"
| "wf_tree strict utf8 d _ = True"

lemma enc_nonempty [simp]: "enc t \<noteq> []"
  by (cases t) (simp_all add: major_split)

lemma enc_length: "length ts \<le> length (concat (map enc ts))"
proof (induction ts)
  case (Cons t ts)
  have "1 \<le> length (enc t)" by (simp add: Suc_le_eq)
  with Cons show ?case by simp
qed simp

fun tree_head :: "cbor \<Rightarrow> u8 \<times> u64" where
  "tree_head (CUint n) = (0, n)"
| "tree_head (CBytes bs) = (2, of_nat (length bs))"
| "tree_head (CText bs) = (3, of_nat (length bs))"
| "tree_head (CArray ts) = (4, of_nat (length ts))"
| "tree_head (CMap ts) = (5, of_nat (length ts div 2))"
| "tree_head (CTag n t) = (6, n)"
| "tree_head CNull = (7, 22)"

fun tree_data :: "cbor \<Rightarrow> bytes" where
  "tree_data (CUint n) = []"
| "tree_data (CBytes bs) = bs"
| "tree_data (CText bs) = bs"
| "tree_data (CArray ts) = concat (map enc ts)"
| "tree_data (CMap ts) = concat (map enc ts)"
| "tree_data (CTag n t) = enc t"
| "tree_data CNull = []"

lemma enc_split: "enc t = major (fst (tree_head t)) (snd (tree_head t)) @ tree_data t"
  by (cases t) simp_all

lemma tree_head_major: "fst (tree_head t) < 8"
  by (cases t) simp_all

lemma major_inj:
  assumes "k < 8" "l < 8"
  shows "major k v @ xs = major l w @ ys \<longleftrightarrow> k = l \<and> v = w \<and> xs = ys"
proof
  assume eq: "major k v @ xs = major l w @ ys"
  have "b1_head (major k v @ xs) = Inr ((k, v), xs)" using assms(1) by (simp only: b1_head_iff)
  moreover have "b1_head (major k v @ xs) = Inr ((l, w), ys)" unfolding eq using assms(2) by (simp only: b1_head_iff)
  ultimately show "k = l \<and> v = w \<and> xs = ys" by simp
qed simp

lemma head_enc_iff:
  assumes "k < 8"
  shows "major k v @ r1 = enc t @ r' \<longleftrightarrow> tree_head t = (k, v) \<and> r1 = tree_data t @ r'"
  unfolding enc_split append_assoc major_inj [OF assms tree_head_major] prod_eq_iff by auto

lemma ex_cbor:
  "(\<exists>t. P t) \<longleftrightarrow> (\<exists>n. P (CUint n)) \<or> (\<exists>bs. P (CBytes bs)) \<or> (\<exists>bs. P (CText bs)) \<or> (\<exists>ts. P (CArray ts)) \<or>
     (\<exists>ts. P (CMap ts)) \<or> (\<exists>n t. P (CTag n t)) \<or> P CNull"
  by (metis cbor.exhaust)

lemma null_head:
  assumes "k < 8" "major k v = b # xs"
  shows "drop_bit 5 b = 7 \<and> b \<noteq> 0xf6 \<longleftrightarrow> k = 7 \<and> v \<noteq> 22"
proof -
  have b: "b = head_byte k (argument_info v)" using assms(2) by (simp add: major_split)
  have k: "drop_bit 5 b = k" unfolding b using head_byte_fields assms(1) argument_info_less by blast
  have null: "major 7 22 = [0xf6]" by (simp add: major_def head_byte_def)
  have "b = 0xf6 \<longleftrightarrow> v = 22" if "k = 7"
  proof
    assume "b = 0xf6"
    then have "major 7 v @ [] = major 7 22 @ xs" using assms(2) that null by simp
    then show "v = 22" by (subst (asm) major_inj) simp_all
  next
    assume "v = 22"
    then show "b = 0xf6" using assms(2) that null by simp
  qed
  then show ?thesis using k by auto
qed

definition scans :: "bool \<Rightarrow> bool \<Rightarrow> nat \<Rightarrow> nat \<Rightarrow> bool" where
  "scans strict utf8 cap d \<longleftrightarrow>
     (\<forall>tok r r' tok'. slice r \<longrightarrow>
        (cbor_scan strict utf8 cap d tok r = Inr (r', tok') \<longleftrightarrow>
         (\<exists>t. wf_tree strict utf8 d t \<and> r = enc t @ r' \<and> tok' = tok + nodes t \<and> tok' \<le> cap)))"

lemma scansD:
  "scans strict utf8 cap d \<Longrightarrow> slice r \<Longrightarrow> cbor_scan strict utf8 cap d tok r = Inr (r', tok') \<longleftrightarrow>
     (\<exists>t. wf_tree strict utf8 d t \<and> r = enc t @ r' \<and> tok' = tok + nodes t \<and> tok' \<le> cap)"
  by (simp add: scans_def)

lemma ex_list_Cons: "(\<exists>ts. length ts = Suc n \<and> P ts) \<longleftrightarrow> (\<exists>t ts. length ts = n \<and> P (t # ts))"
  by (auto simp: length_Suc_conv)

lemma sorted_snoc_iff:
  fixes k :: "'a::linorder"
  assumes "sorted_wrt (<) keys"
  shows "sorted_wrt (<) (keys @ [k]) \<longleftrightarrow> \<not> (k \<in> set keys \<or> keys \<noteq> [] \<and> k \<le> last keys)"
  using sorted_wrt_snoc_last [OF assms, of k] assms by (cases "keys = []") (auto simp: sorted_wrt_append not_le)

lemma sorted_keys_step:
  fixes k :: "'a::linorder"
  assumes "sorted_wrt (<) keys"
  shows "sorted_wrt (<) (keys @ k # ks) \<longleftrightarrow> \<not> (k \<in> set keys \<or> keys \<noteq> [] \<and> k \<le> last keys) \<and> sorted_wrt (<) ((keys @ [k]) @ ks)"
proof -
  have "sorted_wrt (<) (keys @ k # ks) \<Longrightarrow> sorted_wrt (<) (keys @ [k])" by (simp add: sorted_wrt_append)
  then show ?thesis unfolding sorted_snoc_iff [OF assms] by auto
qed

lemma scan_items_iff:
  assumes scan: "scans strict utf8 cap d"
  shows "slice r \<Longrightarrow> (strict \<and> is_map \<longrightarrow> sorted_wrt (<) keys) \<Longrightarrow>
    scan_items strict utf8 cap d is_map i count keys tok r = Inr (r', tok') \<longleftrightarrow>
    (\<exists>ts. length ts = count \<and> (\<forall>t \<in> set ts. wf_tree strict utf8 d t) \<and>
       (strict \<and> is_map \<longrightarrow> sorted_wrt (<) (keys @ keys_from i ts)) \<and> r = concat (map enc ts) @ r' \<and>
       tok' = tok + sum_list (map nodes ts) \<and> (ts \<noteq> [] \<longrightarrow> tok' \<le> cap))"
proof (induction count arbitrary: i keys tok r)
  case 0
  then show ?case by (auto simp: scan_items.simps [of _ _ _ _ _ _ 0])
next
  case (Suc n)
  let ?key = "strict \<and> is_map \<and> even i"
  let ?bad = "\<lambda>k. k \<in> set keys \<or> keys \<noteq> [] \<and> k \<le> last keys"
  let ?rest = "\<lambda>k tok r1. scan_items strict utf8 cap d is_map (i + 1) n (if ?key then keys @ [k] else keys) tok r1"
  let ?items = "\<lambda>t tok r1. \<exists>ts. length ts = n \<and> (\<forall>t \<in> set ts. wf_tree strict utf8 d t) \<and>
       (strict \<and> is_map \<longrightarrow> sorted_wrt (<) (keys @ keys_from i (t # ts))) \<and> r1 = concat (map enc ts) @ r' \<and>
       tok' = tok + sum_list (map nodes ts) \<and> (ts \<noteq> [] \<longrightarrow> tok' \<le> cap)"
  have "scan_items strict utf8 cap d is_map i (Suc n) keys tok r = Inr (r', tok') \<longleftrightarrow>
      (\<exists>r1 tok1. cbor_scan strict utf8 cap d tok r = Inr (r1, tok1) \<and>
        (let k = take (length r - length r1) r in \<not> (?key \<and> ?bad k) \<and> ?rest k tok1 r1 = Inr (r', tok')))"
    by (subst scan_items.simps) (auto simp: rbind_Inr_iff Let_def split: if_split_asm)
  also have "\<dots> \<longleftrightarrow> (\<exists>t r1. wf_tree strict utf8 d t \<and> r = enc t @ r1 \<and> tok + nodes t \<le> cap \<and>
      (\<not> (?key \<and> ?bad (enc t)) \<and> ?rest (enc t) (tok + nodes t) r1 = Inr (r', tok')))" (is "?L \<longleftrightarrow> ?R")
  proof
    assume ?L
    then obtain r1 t where *: "wf_tree strict utf8 d t" "r = enc t @ r1" "tok + nodes t \<le> cap"
      "let k = take (length r - length r1) r in \<not> (?key \<and> ?bad k) \<and> ?rest k (tok + nodes t) r1 = Inr (r', tok')"
      unfolding scansD [OF scan Suc.prems(1)] by blast
    have "take (length r - length r1) r = enc t" using *(2) by simp
    then show ?R using * unfolding Let_def by metis
  next
    assume ?R
    then obtain r1 t where *: "wf_tree strict utf8 d t" "r = enc t @ r1" "tok + nodes t \<le> cap"
      "\<not> (?key \<and> ?bad (enc t)) \<and> ?rest (enc t) (tok + nodes t) r1 = Inr (r', tok')" by blast
    have "take (length r - length r1) r = enc t" using *(2) by simp
    then show ?L using * unfolding scansD [OF scan Suc.prems(1)] Let_def by metis
  qed
  also have "\<dots> \<longleftrightarrow> (\<exists>t r1. wf_tree strict utf8 d t \<and> r = enc t @ r1 \<and> tok + nodes t \<le> cap \<and> ?items t (tok + nodes t) r1)"
  proof (intro ex_cong1 conj_cong refl)
    fix t r1 assume r: "r = enc t @ r1"
    then have r1: "slice r1" using Suc.prems(1) slice_suffix by blast
    show "(\<not> (?key \<and> ?bad (enc t)) \<and> ?rest (enc t) (tok + nodes t) r1 = Inr (r', tok')) = ?items t (tok + nodes t) r1"
    proof (cases "?key \<and> ?bad (enc t)")
      case True
      then show ?thesis using sorted_keys_step [of keys "enc t"] Suc.prems(2) by auto
    next
      case False
      have keys: "strict \<and> is_map \<longrightarrow> sorted_wrt (<) (if ?key then keys @ [enc t] else keys)"
        using False Suc.prems(2) sorted_snoc_iff [of keys "enc t"] by auto
      show ?thesis
        unfolding Suc.IH [OF r1 keys] using False Suc.prems(2) by (cases ?key) auto
    qed
  qed
  also have "\<dots> \<longleftrightarrow> (\<exists>t ts. length ts = n \<and> wf_tree strict utf8 d t \<and> (\<forall>t \<in> set ts. wf_tree strict utf8 d t) \<and>
       (strict \<and> is_map \<longrightarrow> sorted_wrt (<) (keys @ keys_from i (t # ts))) \<and> r = enc t @ concat (map enc ts) @ r' \<and>
       tok' = tok + nodes t + sum_list (map nodes ts) \<and> tok' \<le> cap)" (is "?L \<longleftrightarrow> ?R")
  proof
    assume ?L
    then obtain t r1 ts where "wf_tree strict utf8 d t" "r = enc t @ r1" "tok + nodes t \<le> cap" "length ts = n"
      "\<forall>t \<in> set ts. wf_tree strict utf8 d t" "strict \<and> is_map \<longrightarrow> sorted_wrt (<) (keys @ keys_from i (t # ts))"
      "r1 = concat (map enc ts) @ r'" "tok' = tok + nodes t + sum_list (map nodes ts)" "ts \<noteq> [] \<longrightarrow> tok' \<le> cap" by blast
    then show ?R by (intro exI [of _ t] exI [of _ ts]) (cases ts; simp)
  next
    assume ?R
    then obtain t ts where "wf_tree strict utf8 d t" "length ts = n" "\<forall>t \<in> set ts. wf_tree strict utf8 d t"
      "strict \<and> is_map \<longrightarrow> sorted_wrt (<) (keys @ keys_from i (t # ts))"
      "r = enc t @ concat (map enc ts) @ r'" "tok' = tok + nodes t + sum_list (map nodes ts)" "tok' \<le> cap" by blast
    then show ?L by (intro exI [of _ t] exI [of _ "concat (map enc ts) @ r'"] conjI exI [of _ ts]) simp_all
  qed
  finally show ?case unfolding ex_list_Cons
    by (simp only: list.map concat.simps append_assoc list.set ball_simps sum_list_simps length_Cons nat.inject add.assoc
      conj_assoc simp_thms list.simps)
qed

lemma concat_slice: "slice (concat (map enc ts) @ r) \<Longrightarrow> length ts < 2 ^ 63"
  using enc_length [of ts] by (simp add: slice_def)

lemma one_le_word: "(1 :: u64) \<le> w \<longleftrightarrow> w \<noteq> 0"
  by (auto simp: word_le_nat_alt word_unat_eq_iff Suc_le_eq)

lemma major_kinds: "k < 8 \<Longrightarrow> k = 0 \<or> k = 1 \<or> k = 2 \<or> k = 3 \<or> k = 4 \<or> k = 5 \<or> k = 6 \<or> k = (7 :: u8)"
  unfolding word_less_nat_alt word_unat_eq_iff by simp linarith

lemma cbor_scan_head:
  assumes "k < 8"
  shows "cbor_scan strict utf8 cap d tok (major k v @ r1) = Inr (r', tok') \<longleftrightarrow> tok + 1 \<le> cap \<and>
    (k = 0 \<and> r' = r1 \<and> tok' = tok + 1 \<or>
     (k = 2 \<or> k = 3) \<and> tok' = tok + 1 \<and> (\<exists>data. length data = unat v \<and> r1 = data @ r' \<and> (k = 3 \<and> (strict \<or> utf8) \<longrightarrow> utf8_valid data)) \<or>
     (k = 4 \<or> k = 5 \<or> k = 6) \<and> d < 16 \<and> (k = 5 \<longrightarrow> (strict \<longrightarrow> v \<le> 64) \<and> v \<le> of_nat (length r1)) \<and>
       (let count = (if k = 5 then v * 2 else if k = 6 then 1 else v) in count \<le> of_nat (length r1) \<and>
         scan_items strict utf8 cap (d + 1) (k = 5) 0 (unat count) [] (tok + 1) r1 = Inr (r', tok')) \<or>
     k = 7 \<and> v = 22 \<and> r' = r1 \<and> tok' = tok + 1)"
proof -
  have head: "b1_head (major k v @ r1) = Inr ((k, v), r1)" using assms by (simp only: b1_head_iff)
  obtain b xs where m: "major k v = b # xs" by (simp add: major_split)
  note null = null_head [OF assms m]
  have scan: "cbor_scan strict utf8 cap d tok (major k v @ r1) = (if cap < tok + 1 then Inl Limit
      else if k = 7 \<and> v \<noteq> 22 then Inl Cbor
      else if k = 0 then Inr (r1, tok + 1)
      else if k = 2 \<or> k = 3 then rbind (rd_take (unat v) r1) (\<lambda>(data, r).
        if (strict \<or> utf8) \<and> k = 3 \<and> \<not> utf8_valid data then Inl Utf8 else Inr (r, tok + 1))
      else if k = 4 \<or> k = 5 \<or> k = 6 then
        if 16 \<le> d then Inl Limit else if k = 5 \<and> strict \<and> 64 < v then Inl Limit
        else if k = 5 \<and> of_nat (length r1) < v then Inl Truncated
        else let count = (if k = 5 then v * 2 else if k = 6 then 1 else v) in
          if of_nat (length r1) < count then Inl Truncated
          else scan_items strict utf8 cap (d + 1) (k = 5) 0 (unat count) [] (tok + 1) r1
      else if k = 7 \<and> v = 22 then Inr (r1, tok + 1) else Inl Cbor)"
    unfolding cbor_scan.simps [of _ _ _ _ _ "major k v @ r1"] Let_def head rbind.simps prod.case
    unfolding m append_Cons list.case null ..
  show ?thesis
    unfolding scan using major_kinds [OF assms] by (elim disjE) (auto simp: result_iff rd_take_iff not_less not_le one_le_word Let_def)
qed

lemma unat_length: "n < 2 ^ 63 \<Longrightarrow> unat (of_nat n :: u64) = n"
  by (simp add: unat_of_nat)

lemma word_length_le: "slice r \<Longrightarrow> (v :: u64) \<le> of_nat (length r) \<longleftrightarrow> unat v \<le> length r"
  by (simp add: word_le_nat_alt unat_length slice_def)

lemma count_iff:
  assumes "slice r1" "r1 = concat (map enc ts) @ r'"
  shows "length ts = unat v \<and> (v :: u64) \<le> of_nat (length r1) \<longleftrightarrow> of_nat (length ts) = v"
proof -
  have le: "length ts \<le> length r1" and small: "length ts < 2 ^ 63"
    using assms enc_length [of ts] by (simp_all add: slice_def)
  have "of_nat (length ts) = v \<longleftrightarrow> length ts = unat v" unfolding word_unat_eq_iff unat_length [OF small] ..
  then show ?thesis unfolding word_length_le [OF assms(1)] using le by auto
qed

lemma pair_count_iff:
  assumes "slice r1" "r1 = concat (map enc ts) @ r'"
  shows "length ts = unat (v * 2) \<and> (v :: u64) \<le> of_nat (length r1) \<and> v * 2 \<le> of_nat (length r1) \<longleftrightarrow>
    even (length ts) \<and> of_nat (length ts div 2) = v"
proof -
  have le: "length ts \<le> length r1" and small: "length ts div 2 < 2 ^ 63" and r1: "length r1 < 2 ^ 63"
    using assms enc_length [of ts] by (simp_all add: slice_def)
  have half: "of_nat (length ts div 2) = v \<longleftrightarrow> length ts div 2 = unat v"
    unfolding word_unat_eq_iff unat_length [OF small] ..
  show ?thesis
  proof (cases "unat v \<le> length r1")
    case True
    then have "unat (v * 2) = unat v * 2" using r1 by (simp add: unat_word_ariths)
    then show ?thesis unfolding word_length_le [OF assms(1)] half using le True by auto
  next
    case False
    then show ?thesis unfolding word_length_le [OF assms(1)] half using le by linarith
  qed
qed

lemma pairs_small: "even n \<Longrightarrow> n < 2 ^ 63 \<Longrightarrow> (of_nat (n div 2) :: u64) \<le> 64 \<longleftrightarrow> n \<le> 128"
  by (subst word_le_nat_alt, subst unat_length) auto

lemma scans_container:
  assumes "scans strict utf8 cap (d + 1)" "slice r1"
    and shape: "\<And>ts. r1 = concat (map enc ts) @ r' \<Longrightarrow> length ts = n \<and> fits \<longleftrightarrow> shape ts"
  shows "tok + 1 \<le> cap \<and> fits \<and> scan_items strict utf8 cap (d + 1) m 0 n [] (tok + 1) r1 = Inr (r', tok') \<longleftrightarrow>
    (\<exists>ts. shape ts \<and> (\<forall>t \<in> set ts. wf_tree strict utf8 (d + 1) t) \<and> (strict \<and> m \<longrightarrow> sorted_wrt (<) (keys_from 0 ts)) \<and>
       r1 = concat (map enc ts) @ r' \<and> tok' = tok + 1 + sum_list (map nodes ts) \<and> tok' \<le> cap)" (is "?L \<longleftrightarrow> ?R")
proof -
  have items: "scan_items strict utf8 cap (d + 1) m 0 n [] (tok + 1) r1 = Inr (r', tok') \<longleftrightarrow>
    (\<exists>ts. length ts = n \<and> (\<forall>t \<in> set ts. wf_tree strict utf8 (d + 1) t) \<and>
       (strict \<and> m \<longrightarrow> sorted_wrt (<) (keys_from 0 ts)) \<and> r1 = concat (map enc ts) @ r' \<and>
       tok' = tok + 1 + sum_list (map nodes ts) \<and> (ts \<noteq> [] \<longrightarrow> tok' \<le> cap))"
    using scan_items_iff [OF assms(1,2), of m "[]" 0 n "tok + 1" r' tok'] by simp
  show ?thesis
  proof
    assume ?L
    then obtain ts where *: "length ts = n" "\<forall>t \<in> set ts. wf_tree strict utf8 (d + 1) t"
      "strict \<and> m \<longrightarrow> sorted_wrt (<) (keys_from 0 ts)" "r1 = concat (map enc ts) @ r'"
      "tok' = tok + 1 + sum_list (map nodes ts)" "ts \<noteq> [] \<longrightarrow> tok' \<le> cap" fits "tok + 1 \<le> cap"
      unfolding items by blast
    have "tok' \<le> cap" using *(5,6,8) by (cases ts) auto
    moreover have "shape ts" using shape [OF *(4)] *(1,7) by blast
    ultimately show ?R using * by blast
  next
    assume ?R
    then obtain ts where *: "shape ts" "\<forall>t \<in> set ts. wf_tree strict utf8 (d + 1) t"
      "strict \<and> m \<longrightarrow> sorted_wrt (<) (keys_from 0 ts)" "r1 = concat (map enc ts) @ r'"
      "tok' = tok + 1 + sum_list (map nodes ts)" "tok' \<le> cap" by blast
    have "tok + 1 \<le> cap" using *(5,6) by simp
    moreover have "length ts = n" fits using shape [OF *(4)] *(1) by blast+
    ultimately show ?L unfolding items using * by blast
  qed
qed

lemma scans_step:
  assumes deeper: "d < 16 \<longrightarrow> scans strict utf8 cap (d + 1)" and r1: "slice r1" and k: "k < 8"
  shows "cbor_scan strict utf8 cap d tok (major k v @ r1) = Inr (r', tok') \<longleftrightarrow>
    (\<exists>t. wf_tree strict utf8 d t \<and> major k v @ r1 = enc t @ r' \<and> tok' = tok + nodes t \<and> tok' \<le> cap)"
proof -
  have data: "length bs = unat v \<longleftrightarrow> of_nat (length bs) = v" if "r1 = bs @ r'" for bs
    unfolding word_unat_eq_iff using that r1 by (subst unat_length) (auto simp: slice_def)
  note container = scans_container [of strict utf8 cap d r1 r', OF mp [OF deeper] r1]
  note trees = head_enc_iff [OF k] ex_cbor [of "\<lambda>t. wf_tree strict utf8 d t \<and> (tree_head t = (k, v) \<and> r1 = tree_data t @ r') \<and> tok' = tok + nodes t \<and> tok' \<le> cap"]
  consider "k = 0 \<or> k = 1 \<or> k = 7" | "k = 2 \<or> k = 3" | "(k = 4 \<or> k = 5 \<or> k = 6) \<and> 16 \<le> d" |
      "k = 4" "d < 16" | "k = 5" "d < 16" | "k = 6" "d < 16"
    using major_kinds [OF k] by fastforce
  then show ?thesis
  proof cases
    case 1
    then show ?thesis unfolding cbor_scan_head [OF k] trees by (elim disjE) (simp_all, blast+)
  next
    case 2
    have "(\<exists>bs. length bs = unat v \<and> r1 = bs @ r' \<and> P bs) \<longleftrightarrow> (\<exists>bs. of_nat (length bs) = v \<and> r1 = bs @ r' \<and> P bs)" for P
      using data by blast
    with 2 show ?thesis unfolding cbor_scan_head [OF k] trees by (elim disjE) (simp_all, blast+)
  next
    case 3
    then show ?thesis unfolding cbor_scan_head [OF k] trees by (elim conjE disjE) simp_all
  next
    case 4
    have shape: "length ts = unat v \<and> v \<le> of_nat (length r1) \<longleftrightarrow> of_nat (length ts) = v" if "r1 = concat (map enc ts) @ r'" for ts
      using count_iff [OF r1 that] .
    show ?thesis
      using container [OF 4(2) shape, of tok False tok'] 4 unfolding cbor_scan_head [OF k] trees Let_def
      by (simp add: conj_ac)
  next
    case 5
    have shape: "length ts = unat (v * 2) \<and> ((strict \<longrightarrow> v \<le> 64) \<and> v \<le> of_nat (length r1) \<and> v * 2 \<le> of_nat (length r1)) \<longleftrightarrow>
        even (length ts) \<and> of_nat (length ts div 2) = v \<and> (strict \<longrightarrow> length ts \<le> 128)" if ts: "r1 = concat (map enc ts) @ r'" for ts
      using pair_count_iff [OF r1 ts, of v] pairs_small [of "length ts"] concat_slice [of ts r'] r1 ts by auto
    show ?thesis
      using container [OF 5(2) shape, of tok True tok'] 5 unfolding cbor_scan_head [OF k] trees Let_def
      by (simp add: conj_ac imp_conjR)
  next
    case 6
    have shape: "length ts = 1 \<and> 1 \<le> (of_nat (length r1) :: u64) \<longleftrightarrow> length ts = 1" if ts: "r1 = concat (map enc ts) @ r'" for ts
      using enc_length [of ts] ts r1 unfolding word_length_le [OF r1] by auto
    have one: "(\<exists>ts. length ts = 1 \<and> P ts) \<longleftrightarrow> (\<exists>t. P [t])" for P :: "cbor list \<Rightarrow> bool" by (auto simp: length_Suc_conv)
    show ?thesis
      using container [OF 6(2) shape, of tok False tok'] 6 unfolding cbor_scan_head [OF k] trees Let_def one
      by (simp add: conj_ac)
  qed
qed

lemma scan_exact:
  "slice r \<Longrightarrow> cbor_scan strict utf8 cap d tok r = Inr (r', tok') \<longleftrightarrow>
     (\<exists>t. wf_tree strict utf8 d t \<and> r = enc t @ r' \<and> tok' = tok + nodes t \<and> tok' \<le> cap)"
proof -
  have "scans strict utf8 cap d"
  proof (induction "16 - d" arbitrary: d rule: less_induct)
    case less
    show ?case unfolding scans_def
    proof (intro allI impI)
      fix tok :: nat and r r' :: bytes and tok' :: nat assume r: "slice r"
      show "cbor_scan strict utf8 cap d tok r = Inr (r', tok') \<longleftrightarrow>
         (\<exists>t. wf_tree strict utf8 d t \<and> r = enc t @ r' \<and> tok' = tok + nodes t \<and> tok' \<le> cap)"
      proof (cases "\<exists>k v r1. k < 8 \<and> r = major k v @ r1")
        case True
        then obtain k v r1 where k: "k < 8" and r1: "r = major k v @ r1" by blast
        show ?thesis unfolding r1 using less r slice_suffix unfolding r1 by (intro scans_step k) auto
      next
        case False
        then have "b1_head r \<noteq> Inr ((k, v), r1)" for k v r1 unfolding b1_head_iff by blast
        then have "cbor_scan strict utf8 cap d tok r \<noteq> Inr (r', tok')"
          by (subst cbor_scan.simps) (auto simp: Let_def rbind_Inr_iff split: if_split_asm)
        moreover have "r \<noteq> enc t @ r'" for t using False tree_head_major unfolding enc_split append_assoc by blast
        ultimately show ?thesis by blast
      qed
    qed
  qed
  then show "slice r \<Longrightarrow> ?thesis" by (rule scansD)
qed

lemma scan_needs_head:
  assumes "cbor_scan strict utf8 cap d tok r = Inr (r', tok')"
  obtains k v r1 where "k < 8" "r = major k v @ r1"
proof -
  have "\<exists>k v r1. b1_head r = Inr ((k, v), r1)"
    using assms by (subst (asm) cbor_scan.simps) (auto simp: Let_def rbind_Inr_iff split: if_split_asm)
  then show ?thesis using that unfolding b1_head_iff by blast
qed

lemma items_consume:
  assumes "\<And>tok r r' tok'. cbor_scan strict utf8 cap d tok r = Inr (r', tok') \<Longrightarrow> length r' < length r"
  shows "scan_items strict utf8 cap d m i count keys tok r = Inr (r', tok') \<Longrightarrow> length r' \<le> length r"
proof (induction count arbitrary: i keys tok r)
  case 0
  then show ?case by (simp add: scan_items.simps [of _ _ _ _ _ _ 0])
next
  case (Suc n)
  then obtain r1 tok1 keys1 where "cbor_scan strict utf8 cap d tok r = Inr (r1, tok1)"
      and "scan_items strict utf8 cap d m (i + 1) n keys1 tok1 r1 = Inr (r', tok')"
    by (subst (asm) (2) scan_items.simps) (auto simp: rbind_Inr_iff Let_def split: if_split_asm)
  then show ?case using assms Suc.IH by (meson le_less_trans less_or_eq_imp_le)
qed

lemma scan_consumes: "cbor_scan strict utf8 cap d tok r = Inr (r', tok') \<Longrightarrow> length r' < length r"
proof (induction "16 - d" arbitrary: d tok r r' tok' rule: less_induct)
  case less
  from less.prems obtain k v r1 where k: "k < 8" and r: "r = major k v @ r1" by (rule scan_needs_head)
  have items: "length r' \<le> length r1" if "d < 16" "scan_items strict utf8 cap (d + 1) m i n keys t r1 = Inr (r', tok')" for m i n keys t
    using that(1) less.hyps [of "d + 1"] by (intro items_consume [OF _ that(2)]) simp
  have "length r' \<le> length r1"
    using less.prems unfolding r cbor_scan_head [OF k] Let_def by (elim conjE disjE exE) (erule (1) items | simp)+
  then show ?case unfolding r by (simp add: major_split)
qed

lemma child_next_shorter: "child_next rest = Inr (Some (it, r)) \<Longrightarrow> length r < length rest"
  by (auto simp: child_next_def result_iff dest: scan_consumes split: if_split_asm)

function children_of :: "bytes \<Rightarrow> malformed + item list" where
  "children_of rest =
     rbind (child_next rest) (\<lambda>next.
       case next of None \<Rightarrow> Inr [] | Some (it, r) \<Rightarrow> rbind (children_of r) (\<lambda>its. Inr (it # its)))"
  by pat_completeness auto
termination
  by (relation "measure length") (auto dest: child_next_shorter)

declare children_of.simps [simp del]

definition it_children :: "item \<Rightarrow> malformed + item list" where
  "it_children it = (if it_null it then Inr [] else children_of (it_data it))"

definition it_array :: "nat \<Rightarrow> item \<Rightarrow> malformed + item list" where
  "it_array n it =
     (if it_major it \<noteq> 4 \<or> it_arg it \<noteq> of_nat n then Inl Shape
      else rbind (it_children it) (\<lambda>its. Inr (take n (its @ replicate n it))))"

definition it_tagged :: "nat \<Rightarrow> u64 \<Rightarrow> item \<Rightarrow> malformed + item list" where
  "it_tagged n tag it =
     (if it_major it \<noteq> 6 \<or> it_arg it \<noteq> tag then Inl Shape else
      rbind (cbor_item (it_data it)) (\<lambda>inner.
      rbind (it_array n inner) (\<lambda>a.
      rbind (it_uint (-1) (a ! 0)) (\<lambda>version.
      if version \<noteq> 1 then Inl Version else Inr a))))"

section \<open>Views of a scanned tree\<close>

definition tree_item :: "cbor \<Rightarrow> item" where
  "tree_item t = \<lparr>it_raw = enc t, it_major = fst (tree_head t), it_arg = snd (tree_head t), it_data = tree_data t\<rparr>"

lemma cbor_item_enc [simp]: "cbor_item (enc t) = Inr (tree_item t)"
proof -
  have "b1_head (enc t) = Inr ((fst (tree_head t), snd (tree_head t)), tree_data t)"
    unfolding b1_head_iff using enc_split tree_head_major by blast
  then show ?thesis by (cases "tree_head t") (simp add: cbor_item_def tree_item_def)
qed

lemma wf_tree_loosen: "wf_tree strict utf8 d t \<Longrightarrow> d' \<le> d \<Longrightarrow> wf_tree False False d' t"
  by (induction t arbitrary: d d') auto

lemma nodes_length: "nodes t \<le> length (enc t)"
proof (induction t)
  case (CArray ts)
  then have "sum_list (map nodes ts) \<le> length (concat (map enc ts))"
    unfolding length_concat by (auto simp: comp_def intro: sum_list_mono)
  then show ?case by (simp add: major_split)
next
  case (CMap ts)
  then have "sum_list (map nodes ts) \<le> length (concat (map enc ts))"
    unfolding length_concat by (auto simp: comp_def intro: sum_list_mono)
  then show ?case by (simp add: major_split)
qed (simp_all add: major_split)

lemma child_next_tree:
  assumes "slice (enc t @ r)" "wf_tree strict utf8 d t"
  shows "child_next (enc t @ r) = Inr (Some (tree_item t, r))"
proof -
  have "nodes t \<le> USIZE_MAX" using nodes_length [of t] assms(1) by (simp add: slice_def USIZE_MAX_def)
  then have "cbor_scan False False USIZE_MAX 0 0 (enc t @ r) = Inr (r, nodes t)"
    using wf_tree_loosen [OF assms(2)] by (subst scan_exact [OF assms(1)]) auto
  then show ?thesis by (simp add: child_next_def)
qed

lemma children_of_trees:
  "slice (concat (map enc ts)) \<Longrightarrow> (\<forall>t \<in> set ts. wf_tree strict utf8 d t) \<Longrightarrow> children_of (concat (map enc ts)) = Inr (map tree_item ts)"
proof (induction ts)
  case Nil
  then show ?case by (simp add: children_of.simps [of "[]"] child_next_def)
next
  case (Cons t ts)
  then have "child_next (concat (map enc (t # ts))) = Inr (Some (tree_item t, concat (map enc ts)))"
    using child_next_tree [of t "concat (map enc ts)" strict utf8 d] by simp
  then show ?case using Cons slice_suffix [of "enc t"] by (subst children_of.simps) simp
qed

definition scanned :: "item \<Rightarrow> bool" where
  "scanned it \<longleftrightarrow> (\<exists>t. wf_tree False False 0 t \<and> slice (enc t) \<and> it = tree_item t)"

lemma scan_whole_exact:
  assumes "slice data"
  shows "scan_whole strict utf8 cap tok data = Inr (it, tok') \<longleftrightarrow>
    (\<exists>t. wf_tree strict utf8 0 t \<and> data = enc t \<and> it = tree_item t \<and> tok' = tok + nodes t \<and> tok' \<le> cap)"
  unfolding scan_whole_def by (auto simp: result_iff scan_exact [OF assms])

lemma scan_whole_scanned: "slice data \<Longrightarrow> scan_whole strict utf8 cap tok data = Inr (it, tok') \<Longrightarrow> scanned it"
  unfolding scan_whole_exact scanned_def using wf_tree_loosen by blast

lemma scanned_child:
  assumes "slice (concat (map enc ts))" "\<forall>t \<in> set ts. wf_tree False False 1 t" "it \<in> set (map tree_item ts)"
  shows "scanned it"
proof -
  from assms(3) obtain t where t: "t \<in> set ts" "it = tree_item t" by auto
  have "length (enc t) \<le> length (concat (map enc ts))"
    unfolding length_concat using t(1) by (auto intro: member_le_sum_list)
  then have "slice (enc t)" using assms(1) by (simp add: slice_def)
  then show ?thesis unfolding scanned_def using t assms(2) wf_tree_loosen by blast
qed

definition arity :: "item \<Rightarrow> nat" where
  "arity it = (if it_major it = 4 then unat (it_arg it) else if it_major it = 5 then 2 * unat (it_arg it)
     else if it_major it = 6 then 1 else 0)"

lemma tree_children:
  assumes "wf_tree False False 0 t" "slice (enc t)" "it_major (tree_item t) \<in> {4, 5, 6} \<or> it_null (tree_item t)"
  shows "\<exists>ts. it_children (tree_item t) = Inr (map tree_item ts) \<and> (\<forall>t \<in> set ts. wf_tree False False 1 t) \<and>
    it_data (tree_item t) = concat (map enc ts) \<and> slice (concat (map enc ts)) \<and> length ts = arity (tree_item t)"
proof -
  have parts: ?thesis if "tree_data t = concat (map enc ts)" "\<forall>t \<in> set ts. wf_tree False False 1 t"
      "length ts = arity (tree_item t)" "\<not> it_null (tree_item t)" for ts
  proof -
    have s: "slice (concat (map enc ts))" using assms(2) slice_suffix that(1) unfolding enc_split by metis
    then have "it_children (tree_item t) = Inr (map tree_item ts)"
      using that by (simp add: it_children_def tree_item_def children_of_trees)
    then show ?thesis using that s by (intro exI [of _ ts]) (simp add: tree_item_def)
  qed
  have small: "length ts < 2 ^ 63" if "tree_data t = concat (map enc ts)" for ts
    using assms(2) enc_length [of ts] that unfolding enc_split slice_def by simp
  show ?thesis
  proof (cases t)
    case (CArray ts)
    then show ?thesis using assms(1) small [of ts]
      by (intro parts [of ts]) (simp_all add: tree_item_def arity_def it_null_def unat_length)
  next
    case (CMap ts)
    then show ?thesis using assms(1) small [of ts]
      by (intro parts [of ts]) (simp_all add: tree_item_def arity_def it_null_def unat_length)
  next
    case (CTag n u)
    then show ?thesis using assms(1) by (intro parts [of "[u]"]) (simp_all add: tree_item_def arity_def it_null_def)
  next
    case CNull
    then show ?thesis by (intro exI [of _ "[]"]) (simp add: tree_item_def arity_def it_null_def it_children_def slice_def)
  qed (use assms(3) in \<open>simp_all add: tree_item_def it_null_def\<close>)
qed

lemma scanned_children:
  assumes "scanned it" "it_major it \<in> {4, 5, 6} \<or> it_null it"
  shows "\<exists>its. it_children it = Inr its \<and> (\<forall>c \<in> set its. scanned c) \<and> it_data it = concat (map it_raw its) \<and> length its = arity it"
proof -
  from assms(1) obtain t where t: "wf_tree False False 0 t" "slice (enc t)" "it = tree_item t" unfolding scanned_def by blast
  obtain ts where ts: "it_children it = Inr (map tree_item ts)" "\<forall>t \<in> set ts. wf_tree False False 1 t"
    "it_data it = concat (map enc ts)" "slice (concat (map enc ts))" "length ts = arity it"
    using tree_children [of t] t assms(2) by blast
  have "it_raw \<circ> tree_item = enc" by (simp add: fun_eq_iff tree_item_def)
  then show ?thesis using ts scanned_child [OF ts(4,2)] by (intro exI [of _ "map tree_item ts"]) simp
qed

lemma scanned_array:
  assumes "scanned it"
  shows "it_array n it = Inl e \<Longrightarrow> e = Shape"
    and "it_array n it = Inr its \<Longrightarrow> n < 2 ^ 63 \<Longrightarrow> it_children it = Inr its \<and> length its = n \<and> (\<forall>c \<in> set its. scanned c)"
proof -
  have *: "\<exists>its. it_children it = Inr its \<and> (\<forall>c \<in> set its. scanned c) \<and> length its = unat (it_arg it)" if "it_major it = 4"
    using scanned_children [OF assms] that by (auto simp: arity_def)
  show "it_array n it = Inl e \<Longrightarrow> e = Shape" using * by (auto simp: it_array_def split: if_split_asm)
  show "it_array n it = Inr its \<Longrightarrow> n < 2 ^ 63 \<Longrightarrow> it_children it = Inr its \<and> length its = n \<and> (\<forall>c \<in> set its. scanned c)"
    using * by (auto simp: it_array_def unat_length split: if_split_asm)
qed

lemma scanned_tag:
  assumes "scanned it" "it_major it = 6"
  shows "\<exists>inner. cbor_item (it_data it) = Inr inner \<and> it_children it = Inr [inner] \<and> scanned inner \<and> it_raw inner = it_data it"
proof -
  from assms(1) obtain t where t: "wf_tree False False 0 t" "slice (enc t)" "it = tree_item t" unfolding scanned_def by blast
  then obtain n u where u: "t = CTag n u" using assms(2) by (cases t) (simp_all add: tree_item_def)
  have data: "it_data it = enc u" "\<not> it_null it" using t(3) u by (simp_all add: tree_item_def it_null_def)
  have s: "slice (enc u)" "wf_tree False False 1 u" using t(1,2) u slice_suffix by auto
  have "children_of (concat (map enc [u])) = Inr (map tree_item [u])" using s by (intro children_of_trees) auto
  then have "it_children it = Inr [tree_item u]" using data by (simp add: it_children_def)
  moreover have "scanned (tree_item u)" unfolding scanned_def using s wf_tree_loosen by blast
  ultimately show ?thesis using data by (intro exI [of _ "tree_item u"]) (simp add: tree_item_def [of u])
qed

lemma scanned_tagged:
  assumes "scanned it"
  shows "it_tagged n tag it = Inl e \<Longrightarrow> e = Shape \<or> e = Version"
    and "it_tagged n tag it = Inr its \<Longrightarrow> n < 2 ^ 63 \<Longrightarrow> length its = n \<and> (\<forall>c \<in> set its. scanned c)"
proof -
  show "it_tagged n tag it = Inl e \<Longrightarrow> e = Shape \<or> e = Version"
    using scanned_tag [OF assms] scanned_array(1)
    by (auto simp: it_tagged_def it_uint_def rbind_Inl_iff split: if_split_asm)
  show "it_tagged n tag it = Inr its \<Longrightarrow> n < 2 ^ 63 \<Longrightarrow> length its = n \<and> (\<forall>c \<in> set its. scanned c)"
    using scanned_tag [OF assms] scanned_array(2)
    by (auto simp: it_tagged_def result_iff split: if_split_asm)
qed

section \<open>One tree per byte string\<close>

definition decodes :: "nat \<Rightarrow> cbor \<Rightarrow> bool" where
  "decodes d t \<longleftrightarrow> (\<forall>u r r'. wf_tree False False d t \<longrightarrow> wf_tree False False d u \<longrightarrow> slice (enc t @ r) \<longrightarrow>
     enc t @ r = enc u @ r' \<longrightarrow> t = u \<and> r = r')"

lemma decodesD:
  "decodes d t \<Longrightarrow> wf_tree False False d t \<Longrightarrow> wf_tree False False d u \<Longrightarrow> slice (enc t @ r) \<Longrightarrow> enc t @ r = enc u @ r' \<Longrightarrow>
     t = u \<and> r = r'"
  unfolding decodes_def by blast

lemma encs_unique:
  assumes "length ts = length us" "\<forall>t \<in> set ts. decodes d t"
    and "\<forall>t \<in> set ts. wf_tree False False d t" "\<forall>u \<in> set us. wf_tree False False d u"
    and "slice (concat (map enc ts) @ r)" "concat (map enc ts) @ r = concat (map enc us) @ r'"
  shows "ts = us \<and> r = r'"
  using assms
proof (induction ts us rule: list_induct2)
  case (Cons t ts u us)
  have eq: "enc t @ concat (map enc ts) @ r = enc u @ concat (map enc us) @ r'" and s: "slice (enc t @ concat (map enc ts) @ r)"
    using Cons.prems(4,5) by simp_all
  have "t = u \<and> concat (map enc ts) @ r = concat (map enc us) @ r'"
    using Cons.prems(1-3) by (intro decodesD [of d, OF _ _ _ s eq]) simp_all
  then have tu: "t = u" and rest: "concat (map enc ts) @ r = concat (map enc us) @ r'" by blast+
  have "ts = us \<and> r = r'"
    using Cons.prems(1-3) slice_suffix [OF s] rest by (intro Cons.IH) simp_all
  with tu show ?case by simp
qed simp

lemma enc_heads: "enc t @ r = enc u @ r' \<Longrightarrow> tree_head t = tree_head u \<and> tree_data t @ r = tree_data u @ r'"
  unfolding enc_split append_assoc major_inj [OF tree_head_major tree_head_major] prod_eq_iff by simp

lemma data_lengths:
  assumes "slice (xs @ r)" "xs @ r = ys @ r'" "(of_nat m :: u64) = of_nat n" "m \<le> length xs" "n \<le> length ys"
  shows "m = n"
proof -
  have "m < 2 ^ 63" using assms(1,4) by (simp add: slice_def)
  moreover have "n < 2 ^ 63" using assms(1,5) unfolding assms(2) by (simp add: slice_def)
  ultimately show ?thesis using assms(3) unat_length by metis
qed

lemma enc_unique:
  "wf_tree False False d t \<Longrightarrow> wf_tree False False d u \<Longrightarrow> slice (enc t @ r) \<Longrightarrow> enc t @ r = enc u @ r' \<Longrightarrow> t = u \<and> r = r'"
proof (induction t arbitrary: d u r r')
  case (CUint n)
  then show ?case using enc_heads [OF CUint.prems(4)] by (cases u) auto
next
  case (CBytes bs)
  note h = enc_heads [OF CBytes.prems(4)]
  then obtain cs where u: "u = CBytes cs" by (cases u) auto
  have "length bs = length cs" using CBytes.prems(3) h u slice_suffix by (intro data_lengths [of bs r cs r']) auto
  then show ?case using h u by simp
next
  case (CText bs)
  note h = enc_heads [OF CText.prems(4)]
  then obtain cs where u: "u = CText cs" by (cases u) auto
  have "length bs = length cs" using CText.prems(3) h u slice_suffix by (intro data_lengths [of bs r cs r']) auto
  then show ?case using h u by simp
next
  case (CArray ts)
  note h = enc_heads [OF CArray.prems(4)]
  then obtain us where u: "u = CArray us" by (cases u) auto
  have s: "slice (concat (map enc ts) @ r)" using CArray.prems(3) slice_suffix by simp
  have "length ts = length us"
    using h u s enc_length by (intro data_lengths [of "concat (map enc ts)" r "concat (map enc us)" r']) auto
  moreover have "\<forall>t \<in> set ts. decodes (d + 1) t" unfolding decodes_def using CArray.IH by blast
  ultimately have "ts = us \<and> r = r'" using CArray.prems(1,2) h u s by (intro encs_unique [where d = "d + 1"]) auto
  then show ?case using u by simp
next
  case (CMap ts)
  note h = enc_heads [OF CMap.prems(4)]
  then obtain us where u: "u = CMap us" by (cases u) auto
  have s: "slice (concat (map enc ts) @ r)" using CMap.prems(3) slice_suffix by simp
  have "length ts div 2 = length us div 2"
    using h u s enc_length by (intro data_lengths [of "concat (map enc ts)" r "concat (map enc us)" r'])
      (auto intro: order_trans [OF div_le_dividend])
  then have "length ts = length us" using CMap.prems(1,2) u by (auto elim!: evenE)
  moreover have "\<forall>t \<in> set ts. decodes (d + 1) t" unfolding decodes_def using CMap.IH by blast
  ultimately have "ts = us \<and> r = r'" using CMap.prems(1,2) h u s by (intro encs_unique [where d = "d + 1"]) auto
  then show ?case using u by simp
next
  case (CTag n t)
  note h = enc_heads [OF CTag.prems(4)]
  then obtain v where u: "u = CTag n v" by (cases u) auto
  have "slice (enc t @ r)" using CTag.prems(3) slice_suffix by simp
  then show ?case using CTag.IH [of "d + 1" v r r'] CTag.prems(1,2) h u by simp
next
  case CNull
  then show ?case using enc_heads [OF CNull.prems(4)] by (cases u) auto
qed

section \<open>Properties\<close>

text \<open>
  Claim C31. The strict scan of the certificate kernel accepts exactly the canonical encodings: \<open>one\<close> succeeds on
  a byte string when it is the encoding of one tree, and of no other, with minimal heads, valid text,
  strictly ascending map keys, at most 64 pairs per map and at most 16 levels, whose nodes fit the 32768 items
  left of the budget; the item it returns is the view of that tree and the budget grows by its nodes.
\<close>

theorem cbor_one_exact:
  assumes "slice data"
  shows "cbor_one tokens data = Inr (it, tokens') \<longleftrightarrow>
    (\<exists>!t. wf_tree True True 0 t \<and> data = enc t \<and> it = tree_item t \<and> tokens' = tokens + nodes t \<and> tokens' \<le> 32768)"
proof -
  have unique: "t = u" if "wf_tree True True 0 t" "wf_tree True True 0 u" "data = enc t" "data = enc u" for t u
  proof -
    have "enc t @ [] = enc u @ []" "slice (enc t @ [])" using that(3,4) assms by (simp_all only: append_Nil2)
    then show ?thesis using enc_unique wf_tree_loosen [OF that(1) le_refl] wf_tree_loosen [OF that(2) le_refl] by blast
  qed
  show ?thesis
    unfolding cbor_one_def one_capped_def scan_whole_exact [OF assms] MAX_ITEMS_def
    by (rule iffI, erule ex_ex1I, rule unique, (elim conjE, assumption)+) (rule ex1_implies_ex)
qed

theorem cbor_one_exact_witness:
  "slice ([0xa1, 0x01, 0x81, 0xf6] :: bytes) \<and>
   (\<exists>!t. wf_tree True True 0 t \<and> [0xa1, 0x01, 0x81, 0xf6] = enc t \<and>
      \<lparr>it_raw = [0xa1, 0x01, 0x81, 0xf6], it_major = 5, it_arg = 1, it_data = [0x01, 0x81, 0xf6]\<rparr> = tree_item t \<and>
      7 = 3 + nodes t \<and> (7 :: nat) \<le> 32768)"
proof -
  let ?t = "CMap [CUint 1, CArray [CNull]]" and ?b = "[0xa1, 0x01, 0x81, 0xf6] :: bytes"
  let ?it = "\<lparr>it_raw = ?b, it_major = 5, it_arg = 1, it_data = [0x01, 0x81, 0xf6]\<rparr>"
  have s: "slice ?b" by (simp add: slice_def)
  have "cbor_one 3 ?b = Inr (?it, 7)"
    unfolding cbor_one_def one_capped_def scan_whole_exact [OF s] MAX_ITEMS_def
    by (intro exI [of _ ?t]) (simp add: tree_item_def major_def head_byte_def)
  then show ?thesis using s unfolding cbor_one_exact [OF s] by (rule conjI [rotated])
qed

text \<open>
  Claim C32. Iterating over a scanned item never fails: whatever scan produced it, strict, typed or loose, and
  whatever its budget, the children of an array, a map, a tag or a null are all located, each is itself a scanned item,
  their encodings are the item's content, and there are as many as the head announces; so the two
  \<open>expect\<close> calls of the iterator are unreachable.
\<close>

theorem scanned_children_total:
  assumes "slice data" "scan_whole strict utf8 cap tokens data = Inr (it, tokens')"
    and "it_major it \<in> {4, 5, 6} \<or> it_null it"
  shows "\<exists>its. it_children it = Inr its \<and> (\<forall>c \<in> set its. scanned c) \<and> it_data it = concat (map it_raw its) \<and>
    length its = arity it"
  using assms scan_whole_scanned scanned_children by blast

theorem scanned_children_total_witness:
  "\<exists>its. it_children \<lparr>it_raw = [0x82, 0xa0, 0xc1, 0xf6], it_major = 4, it_arg = 2, it_data = [0xa0, 0xc1, 0xf6]\<rparr> = Inr its \<and>
     (\<forall>c \<in> set its. scanned c) \<and> [0xa0, 0xc1, 0xf6] = concat (map it_raw its) \<and> length its = 2"
proof -
  let ?t = "CArray [CMap [], CTag 1 CNull]" and ?b = "[0x82, 0xa0, 0xc1, 0xf6] :: bytes"
  let ?it = "\<lparr>it_raw = ?b, it_major = 4, it_arg = 2, it_data = [0xa0, 0xc1, 0xf6]\<rparr>"
  have s: "slice ?b" by (simp add: slice_def)
  have scan: "scan_whole False True 10 0 ?b = Inr (?it, 4)"
    unfolding scan_whole_exact [OF s] by (intro exI [of _ ?t]) (simp add: tree_item_def major_def head_byte_def)
  show ?thesis using scanned_children_total [OF s scan] by (simp add: arity_def)
qed

end
