(* ===== verification/Hash_Path.thy ===== *)
theory Hash_Path
  imports Root_Input
begin

text \<open>
  Authenticated paths: a leaf preimage is hashed and each step puts the digest below it into the preimage of
  the next node. Two paths to one root start from one leaf preimage unless two of the preimages hashed along them
  collide. The contract of a step is what the tree formats of the certificate kernel provide: in
  \<open>hash_chain\<close> a node determines the digest below it once the steps are aligned; in \<open>hash_path\<close> the node
  itself aligns the steps and is never mistaken for a leaf, so the paths may have different lengths.
\<close>

definition climb :: "sha256 \<Rightarrow> ('s \<Rightarrow> b256 \<Rightarrow> bytes) \<Rightarrow> bytes \<Rightarrow> 's list \<Rightarrow> bytes" where
  "climb sha256 node leaf steps = foldl (\<lambda>below step. node step (sha256 below)) leaf steps"

fun climbed :: "sha256 \<Rightarrow> ('s \<Rightarrow> b256 \<Rightarrow> bytes) \<Rightarrow> bytes \<Rightarrow> 's list \<Rightarrow> bytes list" where
  "climbed sha256 node leaf [] = [leaf]"
| "climbed sha256 node leaf (step # steps) = leaf # climbed sha256 node (node step (sha256 leaf)) steps"

definition collide :: "sha256 \<Rightarrow> bytes list \<Rightarrow> bytes list \<Rightarrow> bool" where
  "collide sha256 xs ys \<longleftrightarrow> (\<exists>x \<in> set xs. \<exists>y \<in> set ys. x \<noteq> y \<and> sha256 x = sha256 y)"

lemma climb_simps [simp]:
  "climb sha256 node leaf [] = leaf"
  "climb sha256 node leaf (steps @ [step]) = node step (sha256 (climb sha256 node leaf steps))"
  by (simp_all add: climb_def)

lemma climb_Cons: "climb sha256 node leaf (step # steps) = climb sha256 node (node step (sha256 leaf)) steps"
  by (simp add: climb_def)

lemma climbed_snoc [simp]:
  "climbed sha256 node leaf (steps @ [step]) = climbed sha256 node leaf steps @ [node step (sha256 (climb sha256 node leaf steps))]"
  by (induction steps arbitrary: leaf) (simp_all add: climb_Cons)

lemma climb_in_climbed: "climb sha256 node leaf steps \<in> set (climbed sha256 node leaf steps)"
  by (cases steps rule: rev_cases) simp_all

lemma collide_mono: "collide sha256 xs ys \<Longrightarrow> set xs \<subseteq> set xs' \<Longrightarrow> set ys \<subseteq> set ys' \<Longrightarrow> collide sha256 xs' ys'"
  unfolding collide_def by blast

lemma collide_append: "collide sha256 xs ys \<Longrightarrow> collide sha256 (xs @ xs') (ys @ ys')"
  by (auto elim: collide_mono)

lemma collideI: "x \<in> set xs \<Longrightarrow> y \<in> set ys \<Longrightarrow> sha256 x = sha256 y \<Longrightarrow> x = y \<or> collide sha256 xs ys"
  unfolding collide_def by blast

locale hash_chain =
  fixes sha256 :: "bytes \<Rightarrow> b256"
    and node :: "'s \<Rightarrow> b256 \<Rightarrow> bytes"
    and aligned :: "'s \<Rightarrow> 's \<Rightarrow> bool"
  assumes node_inj: "aligned s s' \<Longrightarrow> node s h = node s' h' \<Longrightarrow> h = h'"
begin

lemma chain_binds:
  "list_all2 aligned xs ys \<Longrightarrow> sha256 (climb sha256 node l xs) = sha256 (climb sha256 node m ys) \<Longrightarrow>
    l = m \<or> collide sha256 (climbed sha256 node l xs) (climbed sha256 node m ys)"
proof (induction xs arbitrary: ys rule: rev_induct)
  case Nil
  then show ?case by (simp add: collideI)
next
  case (snoc x xs)
  from snoc.prems(1) obtain y zs where ys: "ys = zs @ [y]" and z: "list_all2 aligned xs zs" "aligned x y"
    by (auto simp: list_all2_append1 list_all2_Cons1)
  have "climb sha256 node l (xs @ [x]) = climb sha256 node m ys \<or>
      collide sha256 (climbed sha256 node l (xs @ [x])) (climbed sha256 node m ys)"
    using snoc.prems(2) climb_in_climbed by (intro collideI)
  then show ?case
  proof
    assume "climb sha256 node l (xs @ [x]) = climb sha256 node m ys"
    then have "sha256 (climb sha256 node l xs) = sha256 (climb sha256 node m zs)" using node_inj [OF z(2)] unfolding ys by simp
    from snoc.IH [OF z(1) this] show ?thesis unfolding ys by (auto intro: collide_append)
  qed simp
qed

end

locale hash_path = hash_chain +
  fixes leaf :: "bytes \<Rightarrow> bool"
  assumes node_aligns: "node s h = node s' h' \<Longrightarrow> aligned s s'"
    and node_not_leaf: "\<not> leaf (node s h)"
begin

lemma path_binds:
  "leaf l \<Longrightarrow> leaf m \<Longrightarrow> sha256 (climb sha256 node l xs) = sha256 (climb sha256 node m ys) \<Longrightarrow>
    l = m \<or> collide sha256 (climbed sha256 node l xs) (climbed sha256 node m ys)"
proof (induction xs arbitrary: ys rule: rev_induct)
  case Nil
  then have "l = climb sha256 node m ys \<or> collide sha256 [l] (climbed sha256 node m ys)"
    using climb_in_climbed by (intro collideI) simp_all
  then show ?case using Nil.prems(1) node_not_leaf by (cases ys rule: rev_cases) auto
next
  case (snoc x xs)
  have "climb sha256 node l (xs @ [x]) = climb sha256 node m ys \<or>
      collide sha256 (climbed sha256 node l (xs @ [x])) (climbed sha256 node m ys)"
    using snoc.prems(3) climb_in_climbed by (intro collideI)
  then show ?case
  proof
    assume top: "climb sha256 node l (xs @ [x]) = climb sha256 node m ys"
    then obtain y zs where ys: "ys = zs @ [y]" using snoc.prems(2) node_not_leaf by (cases ys rule: rev_cases) auto
    have "sha256 (climb sha256 node l xs) = sha256 (climb sha256 node m zs)"
      using top node_inj [OF node_aligns] unfolding ys by simp
    from snoc.IH [OF snoc.prems(1,2) this] show ?thesis unfolding ys by (auto intro: collide_append)
  qed simp
qed

end

end
