(* ===== verification/B1_Membership.thy ===== *)
theory B1_Membership
  imports B1_Cbor Hash_Path
begin

text \<open>
  The stateless membership operation of the certificate kernel, \<open>b1/src/rsmt.rs\<close> with \<open>membership\<close>, \<open>hash\<close> and
  \<open>Output\<close> of \<open>b1/src/lib.rs\<close>: one request proves that a key of a radix sparse Merkle tree holds a value under a
  root. SHA-256 is a parameter. The lemmas show what a request is, what it is charged, and that two accepted
  requests with one root and one key carry one value unless the hash collides among the preimages they hash.
\<close>

section \<open>Output\<close>

record b1_output =
  out_gas :: u64
  out_bytes :: bytes

definition versioned :: "u64 \<Rightarrow> u8 \<Rightarrow> bool \<Rightarrow> b1_output" where
  "versioned gas version valid =
     \<lparr>out_gas = gas, out_bytes = (replicate 64 0)[31 := version, 63 := (if valid then 1 else 0)]\<rparr>"

definition output_new :: "u64 \<Rightarrow> bool \<Rightarrow> b1_output" where
  "output_new gas valid = versioned gas 1 valid"

definition b1_hash :: "sha256 \<Rightarrow> bytes list \<Rightarrow> bytes" where
  "b1_hash sha256 parts = b256_bytes (sha256 (concat parts))"

section \<open>Membership\<close>

definition count_ones :: "bytes \<Rightarrow> nat" where
  "count_ones bitmap = sum_list (map (\<lambda>b. length (filter (bit b) [0..<8])) bitmap)"

definition bit_at :: "bytes \<Rightarrow> nat \<Rightarrow> bool" where
  "bit_at bs d \<longleftrightarrow> bs ! (d div 8) AND drop_bit (d mod 8) 0x80 \<noteq> 0"

definition region :: "bytes \<Rightarrow> nat \<Rightarrow> bytes" where
  "region key d =
     (let cleared = take (d div 8) key @ replicate (32 - d div 8) 0 in
      if d mod 8 \<noteq> 0 then cleared[d div 8 := key ! (d div 8) AND push_bit (8 - d mod 8) 0xff] else cleared)"

fun rsmt_fold :: "sha256 \<Rightarrow> bytes \<Rightarrow> bytes \<Rightarrow> bytes \<Rightarrow> nat list \<Rightarrow> nat \<Rightarrow> bytes \<Rightarrow> bytes" where
  "rsmt_fold sha256 key bitmap siblings [] idx h = h"
| "rsmt_fold sha256 key bitmap siblings (d # ds) idx h =
     (if \<not> bit_at bitmap d then rsmt_fold sha256 key bitmap siblings ds idx h
      else
        let idx = idx - 1;
            sibling = take 32 (drop (idx * 32) siblings);
            h = (if \<not> bit_at key d then b1_hash sha256 [[1, of_nat d], region key d, h, sibling]
                 else b1_hash sha256 [[1, of_nat d], region key d, sibling, h])
        in rsmt_fold sha256 key bitmap siblings ds idx h)"

definition rsmt_run :: "sha256 \<Rightarrow> bytes \<Rightarrow> u64 \<Rightarrow> 'h b1_error + b1_output" where
  "rsmt_run sha256 input gas =
     rbind (map_err Malformed (rd_header input)) (\<lambda>(n, r).
     if n \<noteq> 1 then Inl (Malformed Count) else
     rbind (map_err Malformed (rd_take 32 r)) (\<lambda>(root, r).
     rbind (map_err Malformed (rd_take 32 r)) (\<lambda>(key, r).
     rbind (map_err Malformed (rd_uint 4 r)) (\<lambda>(len, r).
     if 4096 < unat len then Inl (Malformed Limit) else
     rbind (map_err Malformed (rd_take (unat len) r)) (\<lambda>(val, r).
     rbind (map_err Malformed (rd_take 32 r)) (\<lambda>(bitmap, r).
     let count = count_ones bitmap in
     if length r \<noteq> 32 * count then Inl (Malformed Shape) else
     let charge = 2000 + 16 * of_nat (length input) + 250 * (1 + of_nat count) in
     if gas < charge then Inl OutOfGas else
     let h = b1_hash sha256 [[0], key, val];
         h = rsmt_fold sha256 key bitmap r (rev [0..<256]) count h
     in Inr (output_new charge (root \<noteq> replicate 32 0 \<and> h = root))))))))"

definition membership :: "sha256 \<Rightarrow> bytes \<Rightarrow> u64 \<Rightarrow> 'h b1_error + b1_output" where
  "membership sha256 input gas =
     (if 12392 < length input then Inl (Malformed Limit)
      else if gas < 2000 + 16 * of_nat (length input) then Inl OutOfGas
      else rsmt_run sha256 input gas)"

section \<open>Requests\<close>

definition member_charge :: "bytes \<Rightarrow> bytes \<Rightarrow> nat" where
  "member_charge input bitmap = 2000 + 16 * length input + 250 * (1 + count_ones bitmap)"

lemma member_charge_word:
  "2000 + 16 * of_nat (length input) + 250 * (1 + of_nat (count_ones bitmap)) = (of_nat (member_charge input bitmap) :: u64)"
  by (simp add: member_charge_def)

lemma rd_uint_eq:
  assumes "n \<le> 8"
  shows "rd_uint n r = Inr (v, r') \<longleftrightarrow> unat v < 256 ^ n \<and> r = nat_be n (unat v) @ r'"
proof
  assume "rd_uint n r = Inr (v, r')"
  then obtain bs where bs: "length bs = n" "v = from_be bs" "r = bs @ r'" by (auto simp: rd_uint_iff)
  have "unat v = be_nat bs" using bs(1,2) assms by (simp add: unat_from_be)
  then show "unat v < 256 ^ n \<and> r = nat_be n (unat v) @ r'"
    using bs(1,3) be_nat_bound [of bs] nat_be_be_nat [of bs] by auto
next
  assume "unat v < 256 ^ n \<and> r = nat_be n (unat v) @ r'"
  then show "rd_uint n r = Inr (v, r')"
    by (auto simp: rd_uint_iff from_be_def be_nat_nat_be intro!: exI [of _ "nat_be n (unat v)"])
qed

lemma nat_be_byte: "nat_be 1 n = [of_nat n]"
  by (simp add: word_unat_eq_iff unat_of_nat)

lemma rd_header_one: "rd_header r = Inr (1, r') \<longleftrightarrow> r = [1, 0, 0, 1] @ r'"
proof -
  have one: "unat v = 1 \<longleftrightarrow> v = 1" for v :: u64 by (simp add: word_unat_eq_iff)
  have two: "nat_be 2 1 = [0, 1 :: u8]" by (simp add: numeral_2_eq_2)
  have "rd_header r = Inr (1, r') \<longleftrightarrow> r = nat_be 1 1 @ nat_be 1 0 @ nat_be 2 1 @ r'"
    unfolding rd_header_def by (auto simp: result_iff rd_uint_eq one intro!: exI [of _ 1])
  then show ?thesis unfolding nat_be_byte two by simp
qed

definition member_request :: "bytes \<Rightarrow> bytes \<Rightarrow> bytes \<Rightarrow> bytes \<Rightarrow> bytes \<Rightarrow> bytes" where
  "member_request rt key val bitmap siblings =
     [1, 0, 0, 1] @ rt @ key @ nat_be 4 (length val) @ val @ bitmap @ siblings"

definition member_valid :: "sha256 \<Rightarrow> bytes \<Rightarrow> bytes \<Rightarrow> bytes \<Rightarrow> bytes \<Rightarrow> bytes \<Rightarrow> bool" where
  "member_valid sha256 rt key val bitmap siblings \<longleftrightarrow> rt \<noteq> replicate 32 0 \<and>
     rsmt_fold sha256 key bitmap siblings (rev [0..<256]) (count_ones bitmap) (b1_hash sha256 [[0], key, val]) = rt"

definition member_fields :: "bytes \<Rightarrow> bytes \<Rightarrow> bytes \<Rightarrow> bytes \<Rightarrow> bytes \<Rightarrow> bool" where
  "member_fields rt key val bitmap siblings \<longleftrightarrow> length rt = 32 \<and> length key = 32 \<and> length val \<le> 4096 \<and>
     length bitmap = 32 \<and> length siblings = 32 * count_ones bitmap"

lemma rsmt_run_iff:
  "rsmt_run sha256 input gas = Inr out \<longleftrightarrow> (\<exists>rt key val bitmap siblings.
     member_fields rt key val bitmap siblings \<and> input = member_request rt key val bitmap siblings \<and>
     of_nat (member_charge input bitmap) \<le> gas \<and>
     out = output_new (of_nat (member_charge input bitmap)) (member_valid sha256 rt key val bitmap siblings))" (is "?L \<longleftrightarrow> ?R")
proof
  assume ?L
  then obtain r1 rt r2 key r3 len r4 val r5 bitmap r6 where *:
    "rd_header input = Inr (1, r1)" "rd_take 32 r1 = Inr (rt, r2)" "rd_take 32 r2 = Inr (key, r3)"
    "rd_uint 4 r3 = Inr (len, r4)" "\<not> 4096 < unat len" "rd_take (unat len) r4 = Inr (val, r5)" "rd_take 32 r5 = Inr (bitmap, r6)"
    "length r6 = 32 * count_ones bitmap"
    "\<not> gas < of_nat (member_charge input bitmap)"
    "out = output_new (of_nat (member_charge input bitmap)) (member_valid sha256 rt key val bitmap r6)"
    unfolding rsmt_run_def member_valid_def Let_def member_charge_word
    by (simp only: result_iff split_paired_Ex prod.case if_Inl_Inr_iff not_not sum.inject) blast
  have "member_fields rt key val bitmap r6" "input = member_request rt key val bitmap r6"
    using *(1-8) unfolding rd_header_one by (auto simp: rd_take_iff rd_uint_eq member_fields_def member_request_def)
  then show ?R using *(9,10) unfolding not_less by blast
next
  assume ?R
  then obtain rt key val bitmap siblings where f: "member_fields rt key val bitmap siblings" "input = member_request rt key val bitmap siblings"
    and c: "of_nat (member_charge input bitmap) \<le> gas"
    and out: "out = output_new (of_nat (member_charge input bitmap)) (member_valid sha256 rt key val bitmap siblings)"
    by blast
  have len: "unat (of_nat (length val) :: u64) = length val" using f(1) by (intro unat_length) (simp add: member_fields_def)
  have "rd_header input = Inr (1, rt @ key @ nat_be 4 (length val) @ val @ bitmap @ siblings)"
    unfolding rd_header_one f(2) member_request_def ..
  moreover have "rd_uint 4 (nat_be 4 (length val) @ val @ bitmap @ siblings) = Inr (of_nat (length val), val @ bitmap @ siblings)"
    using f(1) by (subst rd_uint_eq) (simp_all add: len member_fields_def)
  ultimately show ?L
    using f(1) c out unfolding rsmt_run_def Let_def member_charge_word by (simp add: rd_take_def len member_fields_def member_valid_def Let_def)
qed

lemma b1_hash_length [simp]: "length (b1_hash sha256 parts) = 32"
  by (simp add: b1_hash_def)

lemma versioned_fields:
  "out_gas (versioned gas v valid) = gas" "out_bytes (versioned gas v valid) ! 31 = v"
  "out_bytes (versioned gas v valid) ! 63 = (if valid then 1 else 0)" "length (out_bytes (versioned gas v valid)) = 64"
  unfolding versioned_def b1_output.simps by (simp_all only: nth_list_update length_list_update length_replicate) simp_all

lemma versioned_inj: "versioned gas v valid = versioned gas' v' valid' \<longleftrightarrow> gas = gas' \<and> v = v' \<and> valid = valid'"
  using versioned_fields [of gas v valid] versioned_fields [of gas' v' valid'] by (auto split: if_split_asm)

lemma member_request_length:
  "member_fields rt key val bitmap siblings \<Longrightarrow>
     length (member_request rt key val bitmap siblings) = 104 + length val + 32 * count_ones bitmap"
  by (simp add: member_fields_def member_request_def)

lemma count_ones_bound: "count_ones bitmap \<le> 8 * length bitmap"
proof (induction bitmap)
  case (Cons b bs)
  have "length (filter (bit b) [0..<8]) \<le> 8" using length_filter_le [of "bit b" "[0..<8]"] by simp
  with Cons show ?case by (simp add: count_ones_def)
qed (simp add: count_ones_def)

section \<open>Paths\<close>

text \<open>The set bits of the bitmap with their siblings, from the leaf to the root, and the preimages hashed along them.\<close>

fun rsmt_steps :: "bytes \<Rightarrow> bytes \<Rightarrow> nat list \<Rightarrow> nat \<Rightarrow> (u8 \<times> bytes) list" where
  "rsmt_steps bitmap siblings [] idx = []"
| "rsmt_steps bitmap siblings (d # ds) idx =
     (if bit_at bitmap d then (of_nat d, take 32 (drop ((idx - 1) * 32) siblings)) # rsmt_steps bitmap siblings ds (idx - 1)
      else rsmt_steps bitmap siblings ds idx)"

definition rsmt_node :: "bytes \<Rightarrow> u8 \<times> bytes \<Rightarrow> b256 \<Rightarrow> bytes" where
  "rsmt_node key step below =
     [1, fst step] @ region key (unat (fst step)) @
     (if bit_at key (unat (fst step)) then snd step @ b256_bytes below else b256_bytes below @ snd step)"

lemma rsmt_fold_climb:
  "\<forall>d \<in> set ds. d < 256 \<Longrightarrow> rsmt_fold sha256 key bitmap siblings ds idx (b256_bytes (sha256 below)) =
     b256_bytes (sha256 (climb sha256 (rsmt_node key) below (rsmt_steps bitmap siblings ds idx)))"
  by (induction ds arbitrary: idx below) (simp_all add: climb_Cons rsmt_node_def b1_hash_def unat_of_nat Let_def)

lemma digest_bytes_inj: "b256_bytes h = b256_bytes h' \<longleftrightarrow> h = h'"
  by (simp add: to_be_inj)

interpretation rsmt: hash_path sha256 "rsmt_node key" "\<lambda>s s'. fst s = fst s'" "\<lambda>b. hd b = 0" for sha256 key
proof
  show "h = h'" if "fst s = fst s'" "rsmt_node key s h = rsmt_node key s' h'" for s s' :: "u8 \<times> bytes" and h h'
    using that by (cases "bit_at key (unat (fst s'))") (simp_all add: rsmt_node_def digest_bytes_inj)
qed (simp_all add: rsmt_node_def)

lemma member_request_inj:
  assumes "member_fields rt key val bitmap siblings" "member_fields rt' key' val' bitmap' siblings'"
    and "member_request rt key val bitmap siblings = member_request rt' key' val' bitmap' siblings'"
  shows "rt = rt' \<and> key = key' \<and> val = val' \<and> bitmap = bitmap' \<and> siblings = siblings'"
proof -
  have eq: "rt = rt' \<and> key = key' \<and> nat_be 4 (length val) = nat_be 4 (length val') \<and> val @ bitmap @ siblings = val' @ bitmap' @ siblings'"
    using assms unfolding member_fields_def member_request_def by simp
  then have "be_nat (nat_be 4 (length val)) = be_nat (nat_be 4 (length val'))" by simp
  then have "length val = length val'" using assms(1,2) unfolding be_nat_nat_be member_fields_def by simp
  then show ?thesis using eq assms(1,2) unfolding member_fields_def by simp
qed

lemma member_small:
  assumes "member_fields rt key val bitmap siblings" "input = member_request rt key val bitmap siblings"
  shows "length input \<le> 12392" "unat (of_nat (member_charge input bitmap) :: u64) = member_charge input bitmap"
proof -
  have "count_ones bitmap \<le> 256" using assms(1) count_ones_bound [of bitmap] by (simp add: member_fields_def)
  then show small: "length input \<le> 12392"
    using assms member_request_length [OF assms(1)] by (auto simp: member_fields_def)
  then show "unat (of_nat (member_charge input bitmap) :: u64) = member_charge input bitmap"
    using \<open>count_ones bitmap \<le> 256\<close> unfolding member_charge_def by (intro unat_length) simp
qed

lemma membership_iff:
  "(membership sha256 input gas :: 'h b1_error + b1_output) = Inr out \<longleftrightarrow> (\<exists>rt key val bitmap siblings.
     member_fields rt key val bitmap siblings \<and> input = member_request rt key val bitmap siblings \<and>
     member_charge input bitmap \<le> unat gas \<and>
     out = output_new (of_nat (member_charge input bitmap)) (member_valid sha256 rt key val bitmap siblings))" (is "?L \<longleftrightarrow> ?R")
proof -
  have run: "(rsmt_run sha256 input gas :: 'h b1_error + b1_output) = Inr out \<longleftrightarrow> ?R"
    unfolding rsmt_run_iff by (intro ex_cong1 conj_cong refl) (simp only: word_le_nat_alt member_small)
  have "(membership sha256 input gas :: 'h b1_error + b1_output) = rsmt_run sha256 input gas" if ?R
  proof -
    from that obtain rt key val bitmap siblings where f: "member_fields rt key val bitmap siblings"
      "input = member_request rt key val bitmap siblings" "member_charge input bitmap \<le> unat gas" by blast
    have "unat (of_nat (2000 + 16 * length input) :: u64) = 2000 + 16 * length input"
      using member_small(1) [OF f(1,2)] by (intro unat_length) simp
    then have "\<not> gas < 2000 + 16 * of_nat (length input)" using f(3) by (simp add: word_less_nat_alt member_charge_def)
    then show ?thesis using member_small(1) [OF f(1,2)] by (simp add: membership_def)
  qed
  moreover have "(rsmt_run sha256 input gas :: 'h b1_error + b1_output) = Inr out" if ?L
    using that by (simp add: membership_def split: if_split_asm)
  ultimately show ?thesis using run by argo
qed

lemma membership_request:
  assumes "member_fields rt key val bitmap siblings"
    and "membership sha256 (member_request rt key val bitmap siblings) gas = Inr (output_new charge valid)"
  shows "valid \<longleftrightarrow> member_valid sha256 rt key val bitmap siblings"
proof -
  obtain rt' key' val' bitmap' siblings' where f: "member_fields rt' key' val' bitmap' siblings'"
      "member_request rt key val bitmap siblings = member_request rt' key' val' bitmap' siblings'"
      "valid \<longleftrightarrow> member_valid sha256 rt' key' val' bitmap' siblings'"
    using assms(2) unfolding membership_iff output_new_def versioned_inj by blast
  show ?thesis using member_request_inj [OF assms(1) f(1,2)] f(3) by simp
qed

section \<open>Properties\<close>

definition hashed :: "sha256 \<Rightarrow> bytes \<Rightarrow> bytes \<Rightarrow> bytes \<Rightarrow> bytes \<Rightarrow> bytes list" where
  "hashed sha256 key val bitmap siblings =
     climbed sha256 (rsmt_node key) (0 # key @ val) (rsmt_steps bitmap siblings (rev [0..<256]) (count_ones bitmap))"

text \<open>
  Claim C33. Membership binds: two requests under one root and one key that the kernel both answers true
  carry the same value, or two different preimages among the ones the two requests hash have one SHA-256 image.
\<close>

theorem membership_binds:
  assumes "member_fields rt key v1 b1 s1" "member_fields rt key v2 b2 s2"
    and "membership sha256 (member_request rt key v1 b1 s1) g1 = Inr (output_new c1 True)"
    and "membership sha256 (member_request rt key v2 b2 s2) g2 = Inr (output_new c2 True)"
  shows "v1 = v2 \<or> collide sha256 (hashed sha256 key v1 b1 s1) (hashed sha256 key v2 b2 s2)"
proof -
  let ?top = "\<lambda>v b s. sha256 (climb sha256 (rsmt_node key) (0 # key @ v) (rsmt_steps b s (rev [0..<256]) (count_ones b)))"
  have top: "b256_bytes (?top v b s) = rt" if "member_valid sha256 rt key v b s" for v b s
    using that rsmt_fold_climb [of "rev [0..<256]" sha256 key b s "count_ones b" "0 # key @ v"]
    unfolding member_valid_def b1_hash_def by simp
  have "b256_bytes (?top v1 b1 s1) = b256_bytes (?top v2 b2 s2)"
    using membership_request [OF assms(1,3)] membership_request [OF assms(2,4)] by (simp only: top)
  then have "?top v1 b1 s1 = ?top v2 b2 s2" by (simp only: digest_bytes_inj)
  then have "0 # key @ v1 = 0 # key @ v2 \<or> collide sha256 (hashed sha256 key v1 b1 s1) (hashed sha256 key v2 b2 s2)"
    unfolding hashed_def by (intro rsmt.path_binds) simp_all
  then show ?thesis by simp
qed

lemma no_steps: "\<forall>d \<in> set ds. \<not> bit_at bitmap d \<Longrightarrow> rsmt_steps bitmap siblings ds idx = []"
  by (induction ds arbitrary: idx) auto

lemma constant_hash_member:
  assumes "length key = 32" "length val \<le> 4096"
  shows "membership (\<lambda>_. 7) (member_request (b256_bytes 7) key val (replicate 32 0) []) 100000 =
    (Inr (output_new (of_nat (member_charge (member_request (b256_bytes 7) key val (replicate 32 0) []) (replicate 32 0))) True) :: unit b1_error + b1_output)"
proof -
  let ?b = "replicate 32 0 :: bytes"
  have zero: "count_ones ?b = 0" by code_simp
  have f: "member_fields (b256_bytes 7) key val ?b []" using assms zero by (simp add: member_fields_def)
  have "rsmt_steps ?b [] (rev [0..<256]) 0 = []" by (rule no_steps) (simp add: bit_at_def)
  moreover have "b256_bytes 7 \<noteq> ?b" by code_simp
  ultimately have "member_valid (\<lambda>_. 7) (b256_bytes 7) key val ?b []"
    unfolding member_valid_def zero b1_hash_def
    using rsmt_fold_climb [of "rev [0..<256]" "\<lambda>_. 7" key ?b "[]" 0 "concat [[0], key, val]"] by simp
  moreover have "member_charge (member_request (b256_bytes 7) key val ?b []) ?b \<le> unat (100000 :: u64)"
    using member_request_length [OF f] assms(2) unfolding member_charge_def zero by simp
  ultimately show ?thesis unfolding membership_iff using f
    by (intro exI [of _ "b256_bytes 7"] exI [of _ key] exI [of _ val] exI [of _ ?b] exI [of _ "[]"]) (simp only: simp_thms)
qed

theorem membership_binds_witness:
  "[5] \<noteq> ([6] :: bytes) \<and>
   collide (\<lambda>_. 7) (hashed (\<lambda>_. 7) (replicate 32 1) [5] (replicate 32 0) []) (hashed (\<lambda>_. 7) (replicate 32 1) [6] (replicate 32 0) [])"
proof -
  let ?b = "replicate 32 0 :: bytes" and ?k = "replicate 32 1 :: bytes"
  have zero: "count_ones ?b = 0" by code_simp
  have f: "member_fields (b256_bytes 7) ?k [v] ?b []" for v using zero by (simp add: member_fields_def)
  have "[5] \<noteq> ([6] :: bytes)" by simp
  then show ?thesis
    using membership_binds [OF f f constant_hash_member constant_hash_member, of 5 6] by simp
qed

end
