(* ===== verification/B1_Certificate.thy ===== *)
theory B1_Certificate
  imports B1_Membership
begin

text \<open>
  The certificate half of the kernel, \<open>b1/src/certificate.rs\<close>: reading one packed claim with its certificate
  (\<open>parse_claim\<close>), the hash relations of a claim (\<open>folds\<close>), the standalone scan of an embedded certificate
  (\<open>scan_certificate\<close>) and the shape a typed decode requires (\<open>certificate_shape\<close>, \<open>certificate_shard\<close>). A loop over
  children reads them all before its body; on a scanned item that is the same, since no child fails.
\<close>

section \<open>Claims\<close>

record claim =
  cl_partition :: u32
  cl_shard :: bytes
  cl_config :: bytes
  cl_state :: bytes
  cl_ir_hash :: bytes
  cl_ir :: item
  cl_tr :: item
  cl_conf :: item
  cl_shard_cert :: "item list"
  cl_tree_cert :: "item list"
  cl_seal :: item
  cl_seal_fields :: "item list"

record parsed =
  pa_claim :: claim
  pa_paths :: u64
  pa_sigs :: u64

definition trailing_zeros :: "u8 \<Rightarrow> nat" where
  "trailing_zeros b = length (takeWhile (\<lambda>i. \<not> bit b i) [0..<8])"

definition shard_depth :: "bytes \<Rightarrow> malformed + nat" where
  "shard_depth b =
     (if b = [] then Inl Shard
      else if last b = 0 then Inl Shard
      else let depth = length b * 8 - trailing_zeros (last b) - 1 in
        if 33 < length b \<or> 256 < depth then Inl Shard else Inr depth)"

definition nullable_hash :: "item \<Rightarrow> malformed + unit" where
  "nullable_hash v = (if \<not> it_null v then rbind (it_bytes 32 v) (\<lambda>_. Inr ()) else Inr ())"

fun for_each :: "('a \<Rightarrow> 'e + 'b) \<Rightarrow> 'a list \<Rightarrow> 'e + unit" where
  "for_each f [] = Inr ()"
| "for_each f (x # xs) = rbind (f x) (\<lambda>_. for_each f xs)"

definition read_ir :: "item \<Rightarrow> malformed + item list" where
  "read_ir it =
     rbind (it_tagged 10 39002 it) (\<lambda>ir.
     rbind (for_each (\<lambda>i. it_uint (-1) (ir ! i)) [1, 2, 6, 8]) (\<lambda>_.
     rbind (for_each (\<lambda>i. nullable_hash (ir ! i)) [3, 7, 9]) (\<lambda>_.
     rbind (it_bytes 32 (ir ! 4)) (\<lambda>_.
     rbind (if \<not> it_null (ir ! 5) then rbind (it_blob 2 0 256 (ir ! 5)) (\<lambda>_. Inr ()) else Inr ()) (\<lambda>_.
     Inr ir)))))"

definition read_shard_cert :: "item \<Rightarrow> malformed + item list \<times> u64" where
  "read_shard_cert it =
     rbind (it_tagged 3 39003 it) (\<lambda>sc.
     rbind (it_blob 2 1 33 (sc ! 1)) (\<lambda>shard.
     rbind (shard_depth shard) (\<lambda>_.
     rbind (it_collection 4 256 (sc ! 2)) (\<lambda>paths.
     rbind (it_children (sc ! 2)) (\<lambda>sibs.
     rbind (for_each (it_bytes 32) sibs) (\<lambda>_.
     Inr (sc, paths)))))))"

definition read_step :: "item \<Rightarrow> malformed + unit" where
  "read_step step =
     rbind (it_array 2 step) (\<lambda>pair.
     rbind (it_uint 0xffffffff (pair ! 0)) (\<lambda>_.
     rbind (it_bytes 32 (pair ! 1)) (\<lambda>_. Inr ())))"

definition read_tree_cert :: "item \<Rightarrow> malformed + item list \<times> u64" where
  "read_tree_cert it =
     rbind (it_tagged 3 39004 it) (\<lambda>tc.
     rbind (it_uint 0xffffffff (tc ! 1)) (\<lambda>_.
     rbind (it_collection 4 32 (tc ! 2)) (\<lambda>paths.
     rbind (it_children (tc ! 2)) (\<lambda>steps.
     rbind (for_each read_step steps) (\<lambda>_.
     Inr (tc, paths))))))"

fun read_signatures :: "item list \<Rightarrow> malformed + unit" where
  "read_signatures [] = Inr ()"
| "read_signatures [sid] = rbind (it_blob 3 0 128 sid) (\<lambda>_. Inl Shape)"
| "read_signatures (sid # sig # sigs) =
     rbind (it_blob 3 0 128 sid) (\<lambda>_. rbind (it_blob 2 0 USIZE_MAX sig) (\<lambda>_. read_signatures sigs))"

definition read_seal :: "item \<Rightarrow> malformed + item list \<times> u64" where
  "read_seal it =
     rbind (it_tagged 8 39005 it) (\<lambda>sf.
     rbind (it_uint 0xffff (sf ! 1)) (\<lambda>_.
     rbind (for_each (it_uint (-1)) (take 3 (drop 2 sf))) (\<lambda>_.
     rbind (it_bytes 32 (sf ! 5)) (\<lambda>_.
     rbind (it_bytes 32 (sf ! 6)) (\<lambda>_.
     rbind (it_collection 5 64 (sf ! 7)) (\<lambda>sigs.
     rbind (it_children (sf ! 7)) (\<lambda>pairs.
     rbind (read_signatures pairs) (\<lambda>_.
     Inr (sf, sigs)))))))))"

text \<open>The field structure and sublimits both \<open>parse_claim\<close> and \<open>scan_body\<close> apply to the seven items of a certificate.\<close>

definition read_body :: "item list \<Rightarrow> malformed + item list \<times> item list \<times> item list \<times> u64 \<times> u64" where
  "read_body uc =
     rbind (read_ir (uc ! 1)) (\<lambda>_.
     rbind (it_bytes 32 (uc ! 2)) (\<lambda>_.
     rbind (it_bytes 32 (uc ! 3)) (\<lambda>_.
     rbind (read_shard_cert (uc ! 4)) (\<lambda>(sc, siblings).
     rbind (read_tree_cert (uc ! 5)) (\<lambda>(tc, steps).
     rbind (read_seal (uc ! 6)) (\<lambda>(sf, sigs).
     Inr (sc, tc, sf, siblings + steps, max 0 sigs)))))))"

definition parse_claim :: "bytes \<Rightarrow> nat \<Rightarrow> malformed + parsed \<times> bytes \<times> nat" where
  "parse_claim r tokens =
     rbind (rd_uint 4 r) (\<lambda>(partition, r).
     rbind (rd_uint 2 r) (\<lambda>(sl, r).
     if 33 < unat sl then Inl Shard else
     rbind (rd_take (unat sl) r) (\<lambda>(shard, r).
     rbind (shard_depth shard) (\<lambda>_.
     rbind (rd_take 32 r) (\<lambda>(config, r).
     rbind (rd_take 32 r) (\<lambda>(state, r).
     rbind (rd_take 32 r) (\<lambda>(ir_hash, r).
     rbind (rd_uint 4 r) (\<lambda>(uc_len, r).
     if 24576 < unat uc_len then Inl Limit else
     rbind (rd_take (unat uc_len) r) (\<lambda>(raw, r).
     rbind (cbor_one tokens raw) (\<lambda>(it, tokens).
     rbind (it_tagged 7 39001 it) (\<lambda>uc.
     rbind (read_body uc) (\<lambda>(sc, tc, sf, paths, sigs).
     Inr (\<lparr>pa_claim = \<lparr>cl_partition = ucast partition, cl_shard = shard, cl_config = config, cl_state = state,
             cl_ir_hash = ir_hash, cl_ir = uc ! 1, cl_tr = uc ! 2, cl_conf = uc ! 3, cl_shard_cert = sc,
             cl_tree_cert = tc, cl_seal = uc ! 6, cl_seal_fields = sf\<rparr>,
           pa_paths = paths, pa_sigs = sigs\<rparr>, r, tokens)))))))))))))"

section \<open>Hash relations\<close>

definition expect :: "malformed + 'a \<Rightarrow> malformed + 'a" where
  "expect = map_err (\<lambda>_. Expect)"

definition digest_item :: "bytes \<Rightarrow> bytes list" where
  "digest_item h = [[0x58, 0x20], h]"

fun shard_fold :: "sha256 \<Rightarrow> bytes \<Rightarrow> nat \<Rightarrow> nat \<Rightarrow> item list \<Rightarrow> bytes \<Rightarrow> bytes" where
  "shard_fold sha256 shard depth i [] h = h"
| "shard_fold sha256 shard depth i (sib # sibs) h =
     (let d = depth - 1 - i;
          h = (if \<not> bit_at shard d then b1_hash sha256 (digest_item h @ digest_item (it_data sib))
               else b1_hash sha256 (digest_item (it_data sib) @ digest_item h))
      in shard_fold sha256 shard depth (i + 1) sibs h)"

fun tree_fold :: "sha256 \<Rightarrow> u32 \<Rightarrow> item list \<Rightarrow> bytes \<Rightarrow> malformed + bytes" where
  "tree_fold sha256 part [] h = Inr h"
| "tree_fold sha256 part (step # steps) h =
     rbind (expect (it_array 2 step)) (\<lambda>pair.
     let p = ucast (it_arg (pair ! 0)) :: u32; k = to_be 4 p;
         h = (if p < part then b1_hash sha256 ([[0x41, 0, 0x44], k] @ digest_item (it_data (pair ! 1)) @ digest_item h)
              else b1_hash sha256 ([[0x41, 0, 0x44], k] @ digest_item h @ digest_item (it_data (pair ! 1))))
     in tree_fold sha256 part steps h)"

definition folds :: "sha256 \<Rightarrow> claim \<Rightarrow> malformed + bool" where
  "folds sha256 c =
     rbind (expect (it_tagged 10 39002 (cl_ir c))) (\<lambda>ir.
     let sf = cl_seal_fields c in
     if (it_arg (ir ! 1) \<noteq> 0 \<and> (it_null (ir ! 5) \<or> it_arg (ir ! 6) = 0)) \<or>
        (it_data (ir ! 3) = it_data (ir ! 4)) = (\<not> it_null (ir ! 7)) \<or>
        it_arg (sf ! 2) = 0 \<or> it_arg (sf ! 4) < 1681971084 \<or> it_null (sf ! 7) \<or> it_arg (sf ! 7) = 0
     then Inr False
     else if it_arg (cl_tree_cert c ! 1) \<noteq> ucast (cl_partition c) \<or> it_data (cl_shard_cert c ! 1) \<noteq> cl_shard c \<or>
        it_data (cl_conf c) \<noteq> cl_config c \<or> it_data (ir ! 4) \<noteq> cl_state c \<or>
        b1_hash sha256 [it_raw (cl_ir c)] \<noteq> cl_ir_hash c
     then Inr False
     else
       let shard = it_data (cl_shard_cert c ! 1) in
       rbind (expect (shard_depth shard)) (\<lambda>depth.
       rbind (it_children (cl_shard_cert c ! 2)) (\<lambda>sibs.
       if length sibs \<noteq> depth then Inr False
       else
         let h = b1_hash sha256 [it_raw (cl_ir c), it_raw (cl_tr c), it_raw (cl_conf c)];
             h = shard_fold sha256 shard depth 0 sibs h;
             data = b1_hash sha256 (digest_item h);
             part = ucast (it_arg (cl_tree_cert c ! 1)) :: u32;
             h = b1_hash sha256 ([[0x41, 1, 0x44], to_be 4 part] @ digest_item data)
         in
         rbind (it_children (cl_tree_cert c ! 2)) (\<lambda>steps.
         rbind (tree_fold sha256 part steps h) (\<lambda>h.
         Inr (h = it_data (sf ! 6)))))))"

section \<open>Standalone certificates\<close>

definition scan_body :: "item list \<Rightarrow> malformed + unit" where
  "scan_body uc = rbind (read_body uc) (\<lambda>_. Inr ())"

definition required_major :: "item list \<Rightarrow> nat \<times> u64 \<times> u64 \<times> nat \<times> u8 \<Rightarrow> malformed + unit" where
  "required_major uc = (\<lambda>(i, tag, arity, req, major).
     let body = uc ! i in
     if it_major body \<noteq> 6 \<or> it_arg body \<noteq> tag then Inl Shape else
     rbind (cbor_one 0 (it_data body)) (\<lambda>(inner, _).
     if it_major inner \<noteq> 4 \<or> it_arg inner \<noteq> arity then Inl Shape else
     rbind (it_children inner) (\<lambda>its.
     if length its \<le> req \<or> it_major (its ! req) \<noteq> major then Inl Shape else Inr ())))"

definition scan_certificate :: "bytes \<Rightarrow> malformed + unit" where
  "scan_certificate raw =
     (if 24576 < length raw then Inl Limit else
      rbind (cbor_one 0 raw) (\<lambda>(it, _).
      rbind (it_tagged 7 39001 it) (\<lambda>uc.
      rbind (for_each (required_major uc)
        [(1, 39002, 10, 5, 2), (4, 39003, 3, 2, 4), (5, 39004, 3, 2, 4), (6, 39005, 8, 7, 5)]) (\<lambda>_.
      rbind (cbor_one 0 (it_data (uc ! 6))) (\<lambda>(it, _).
      rbind (it_array 8 it) (\<lambda>seal.
      if it_major (seal ! 1) \<noteq> 0 \<or> it_arg (seal ! 1) = 0 \<or> 65535 < it_arg (seal ! 1) then Inl Shape else
      rbind (it_children (seal ! 7)) (\<lambda>its.
      rbind (for_each (\<lambda>(i, v). if i mod 2 = 1 \<and> it_major v \<noteq> 2 then Inl Shape else Inr ()) (enumerate 0 its)) (\<lambda>_.
      scan_body uc))))))))"

definition uint_or_null :: "u64 \<Rightarrow> item \<Rightarrow> malformed + unit" where
  "uint_or_null mx it = (if it_null it then Inr () else rbind (it_uint mx it) (\<lambda>_. Inr ()))"

definition bytes_like :: "item \<Rightarrow> malformed + unit" where
  "bytes_like it =
     (if it_null it \<or> it_major it = 2 then Inr ()
      else if it_major it \<noteq> 4 then Inl Shape
      else rbind (it_children it) (for_each (it_uint 255)))"

definition list_of_bytes :: "item \<Rightarrow> malformed + unit" where
  "list_of_bytes it =
     (if it_null it then Inr () else if it_major it \<noteq> 4 then Inl Shape
      else rbind (it_children it) (for_each bytes_like))"

definition typed :: "u64 \<Rightarrow> nat \<Rightarrow> item \<Rightarrow> malformed + item list" where
  "typed tag n it =
     (if it_major it \<noteq> 6 \<or> it_arg it \<noteq> tag then Inl Shape else
      rbind (one_loose USIZE_MAX 0 (it_data it)) (\<lambda>(inner, _).
      if it_major inner \<noteq> 4 \<or> it_arg inner \<noteq> of_nat n then Inl Shape else
      rbind (it_children inner) (\<lambda>kids.
      if kids = [] then Inl Expect else
      rbind (if \<not> it_null (kids ! 0) then rbind (it_uint 1 (kids ! 0)) (\<lambda>_. Inr ()) else Inr ()) (\<lambda>_.
      Inr kids))))"

definition typed_step :: "item \<Rightarrow> malformed + unit" where
  "typed_step step =
     rbind (it_array 2 step) (\<lambda>pair.
     rbind (uint_or_null 0xffffffff (pair ! 0)) (\<lambda>_. bytes_like (pair ! 1)))"

fun typed_signatures :: "item list \<Rightarrow> malformed + unit" where
  "typed_signatures [] = Inr ()"
| "typed_signatures [k] = rbind (it_blob 3 0 USIZE_MAX k) (\<lambda>_. Inl Shape)"
| "typed_signatures (k # v # kv) =
     rbind (it_blob 3 0 USIZE_MAX k) (\<lambda>_. rbind (bytes_like v) (\<lambda>_. typed_signatures kv))"

definition typed_ir :: "item \<Rightarrow> malformed + unit" where
  "typed_ir it =
     rbind (typed 39002 10 it) (\<lambda>ir.
     rbind (for_each (\<lambda>i. uint_or_null (-1) (ir ! i)) [1, 2, 6, 8]) (\<lambda>_.
     for_each (\<lambda>i. bytes_like (ir ! i)) [3, 4, 5, 7, 9]))"

definition typed_shard_cert :: "item \<Rightarrow> malformed + unit" where
  "typed_shard_cert it =
     rbind (typed 39003 3 it) (\<lambda>sc.
     rbind (bytes_like (sc ! 1)) (\<lambda>_.
     list_of_bytes (sc ! 2)))"

definition typed_tree_cert :: "item \<Rightarrow> malformed + unit" where
  "typed_tree_cert it =
     rbind (typed 39004 3 it) (\<lambda>tc.
     rbind (uint_or_null 0xffffffff (tc ! 1)) (\<lambda>_.
     if it_null (tc ! 2) then Inr () else if it_major (tc ! 2) \<noteq> 4 then Inl Shape
     else rbind (it_children (tc ! 2)) (for_each typed_step)))"

definition typed_seal :: "item \<Rightarrow> malformed + unit" where
  "typed_seal it =
     rbind (typed 39005 8 it) (\<lambda>sf.
     rbind (it_uint 1 (sf ! 0)) (\<lambda>version.
     if version \<noteq> 1 then Inl Version else
     rbind (it_uint 0xffff (sf ! 1)) (\<lambda>_.
     rbind (for_each (it_uint (-1)) (take 3 (drop 2 sf))) (\<lambda>_.
     rbind (bytes_like (sf ! 5)) (\<lambda>_.
     rbind (bytes_like (sf ! 6)) (\<lambda>_.
     if it_null (sf ! 7) then Inr () else if it_major (sf ! 7) \<noteq> 5 then Inl Shape
     else rbind (it_children (sf ! 7)) typed_signatures))))))"

definition certificate_shape :: "bytes \<Rightarrow> malformed + unit" where
  "certificate_shape raw =
     rbind (one_typed MAX_ITEMS 0 raw) (\<lambda>(rt, _).
     rbind (typed 39001 7 rt) (\<lambda>uc.
     rbind (typed_ir (uc ! 1)) (\<lambda>_.
     rbind (bytes_like (uc ! 2)) (\<lambda>_.
     rbind (bytes_like (uc ! 3)) (\<lambda>_.
     rbind (typed_shard_cert (uc ! 4)) (\<lambda>_.
     rbind (typed_tree_cert (uc ! 5)) (\<lambda>_.
     typed_seal (uc ! 6))))))))"

fun byte_values :: "item list \<Rightarrow> malformed + bytes" where
  "byte_values [] = Inr []"
| "byte_values (e # es) = rbind (it_uint 255 e) (\<lambda>v. rbind (byte_values es) (\<lambda>bs. Inr (ucast v # bs)))"

definition certificate_shard :: "bytes \<Rightarrow> malformed + bytes" where
  "certificate_shard raw =
     rbind (one_loose USIZE_MAX 0 raw) (\<lambda>(uc, _).
     rbind (one_loose USIZE_MAX 0 (it_data uc)) (\<lambda>(inner, _).
     rbind (it_children inner) (\<lambda>its.
     if length its \<le> 4 then Inl Shape else
     rbind (one_loose USIZE_MAX 0 (it_data (its ! 4))) (\<lambda>(sc, _).
     rbind (it_children sc) (\<lambda>its.
     if length its \<le> 1 then Inl Shape else
     let shard = its ! 1 in
     if it_null shard then Inr []
     else if it_major shard = 2 then Inr (it_data shard)
     else rbind (it_children shard) byte_values)))))"

section \<open>Computations that never panic\<close>

text \<open>\<open>yields m P\<close>: the computation does not run into a failed \<open>expect\<close>, and what it returns satisfies \<open>P\<close>.\<close>

definition yields :: "malformed + 'a \<Rightarrow> ('a \<Rightarrow> bool) \<Rightarrow> bool" where
  "yields m P \<longleftrightarrow> (case m of Inl e \<Rightarrow> e \<noteq> Expect | Inr x \<Rightarrow> P x)"

lemma yields_simps [simp]: "yields (Inr x) P \<longleftrightarrow> P x" "yields (Inl e) P \<longleftrightarrow> e \<noteq> Expect"
  by (simp_all add: yields_def)

lemma yields_bind: "yields m P \<Longrightarrow> (\<And>x. m = Inr x \<Longrightarrow> P x \<Longrightarrow> yields (f x) Q) \<Longrightarrow> yields (rbind m f) Q"
  by (cases m) simp_all

lemma yields_bind2:
  "yields m (\<lambda>(a, b). P a b) \<Longrightarrow> (\<And>a b. m = Inr (a, b) \<Longrightarrow> P a b \<Longrightarrow> yields (f a b) Q) \<Longrightarrow> yields (rbind m (\<lambda>(a, b). f a b)) Q"
  by (cases m) auto

lemma yields_then: "yields m (\<lambda>_. True) \<Longrightarrow> yields n Q \<Longrightarrow> yields (rbind m (\<lambda>_. n)) Q"
  by (rule yields_bind)

lemma yields_mono: "yields m P \<Longrightarrow> (\<And>x. m = Inr x \<Longrightarrow> P x \<Longrightarrow> Q x) \<Longrightarrow> yields m Q"
  by (cases m) simp_all

lemma yields_if: "(b \<Longrightarrow> yields m P) \<Longrightarrow> (\<not> b \<Longrightarrow> yields n P) \<Longrightarrow> yields (if b then m else n) P"
  by simp

lemma yieldsD: "yields m P \<Longrightarrow> m = Inr x \<Longrightarrow> P x" "yields m P \<Longrightarrow> m \<noteq> Inl Expect"
  by auto

lemma yields_for_each: "(\<And>x. x \<in> set xs \<Longrightarrow> yields (f x) (P x)) \<Longrightarrow> yields (for_each f xs) (\<lambda>_. \<forall>x \<in> set xs. \<exists>y. f x = Inr y \<and> P x y)"
proof (induction xs)
  case (Cons x xs)
  show ?case unfolding for_each.simps
  proof (rule yields_bind)
    show "yields (f x) (P x)" using Cons.prems by simp
    fix y assume "f x = Inr y" "P x y"
    then show "yields (for_each f xs) (\<lambda>_. \<forall>x \<in> set (x # xs). \<exists>y. f x = Inr y \<and> P x y)"
      using Cons by (auto elim!: yields_mono)
  qed
qed simp

lemma yields_readers:
  "yields (rd_take n r) (\<lambda>(bs, r'). r = bs @ r' \<and> length bs = n)"
  "yields (rd_uint n r) (\<lambda>(v, r'). \<exists>bs. r = bs @ r' \<and> length bs = n)"
  "yields (it_uint mx it) (\<lambda>v. it_major it = 0 \<and> it_arg it = v \<and> v \<le> mx)"
  "yields (it_blob m mn bound it) (\<lambda>bs. it_major it = m \<and> bs = it_data it)"
  "yields (it_bytes n it) (\<lambda>bs. it_major it = 2 \<and> it_arg it = of_nat n \<and> bs = it_data it)"
  "yields (it_collection m mx it) (\<lambda>n. it_null it \<or> it_major it = m)"
  "yields (shard_depth b) (\<lambda>d. True)"
  by (auto simp: rd_take_def rd_uint_def it_uint_def it_blob_def it_bytes_def it_collection_def shard_depth_def Let_def
      intro!: yields_bind exI [of _ "take n r"])

lemma yields_children:
  "scanned it \<Longrightarrow> it_major it \<in> {4, 5, 6} \<or> it_null it \<Longrightarrow> yields (it_children it) (\<lambda>its. (\<forall>c \<in> set its. scanned c) \<and> length its = arity it)"
  using scanned_children by fastforce

lemma yields_array: "scanned it \<Longrightarrow> n < 2 ^ 63 \<Longrightarrow> yields (it_array n it) (\<lambda>its. length its = n \<and> (\<forall>c \<in> set its. scanned c))"
  using scanned_array [of it n] by (cases "it_array n it") auto

lemma yields_tagged: "scanned it \<Longrightarrow> n < 2 ^ 63 \<Longrightarrow> yields (it_tagged n tag it) (\<lambda>its. length its = n \<and> (\<forall>c \<in> set its. scanned c))"
  using scanned_tagged [of it n tag] by (cases "it_tagged n tag it") auto

lemma yields_head: "yields (b1_head r) (\<lambda>_. True)"
  unfolding b1_head_def Let_def
  by (rule yields_bind [OF yields_readers(2)]) (auto intro!: yields_bind yields_if yields_mono [OF yields_readers(2)])

lemma items_yield:
  assumes "\<And>strict tok r. yields (cbor_scan strict utf8 cap d tok r) (\<lambda>_. True)"
  shows "yields (scan_items strict utf8 cap d m i n keys tok r) (\<lambda>_. True)"
proof (induction n arbitrary: strict m i keys tok r)
  case 0
  then show ?case by (subst scan_items.simps) simp
next
  case (Suc n)
  show ?case by (subst scan_items.simps) (auto simp: Let_def intro!: yields_bind [OF assms] yields_if Suc.IH)
qed

lemma scan_yields: "yields (cbor_scan strict utf8 cap d tok r) (\<lambda>_. True)"
proof (induction "16 - d" arbitrary: strict d tok r rule: less_induct)
  case less
  have items: "yields (scan_items strict utf8 cap (Suc d) m i n keys tok r) (\<lambda>_. True)" if "d < 16" for strict m i n keys tok r
    using less.hyps that by (intro items_yield) simp
  show ?case
    by (subst cbor_scan.simps)
      (auto simp: Let_def intro!: yields_if yields_bind [OF yields_head] yields_bind [OF yields_readers(1)] items)
qed

lemma yields_scan:
  assumes "slice data"
  shows "yields (scan_whole strict utf8 cap tok data) (\<lambda>(it, tok'). scanned it \<and> it_raw it = data)"
proof -
  have "scan_whole strict utf8 cap tok data \<noteq> Inl Expect"
    unfolding scan_whole_def cbor_item_def using scan_yields yields_head
    by (intro yieldsD(2) [of _ "\<lambda>_. True"]) (auto intro!: yields_bind [OF scan_yields] yields_bind [OF yields_head] yields_bind)
  moreover have "scanned it \<and> it_raw it = data" if "scan_whole strict utf8 cap tok data = Inr (it, tok')" for it tok'
    using that scan_whole_scanned [OF assms] unfolding scan_whole_exact [OF assms] by (auto simp: tree_item_def)
  ultimately show ?thesis by (cases "scan_whole strict utf8 cap tok data") auto
qed

lemma scanned_nth: "\<forall>c \<in> set its. scanned c \<Longrightarrow> i < length its \<Longrightarrow> scanned (its ! i)"
  by simp

lemma yields_nullable_hash: "yields (nullable_hash it) (\<lambda>_. True)"
  unfolding nullable_hash_def by (auto intro: yields_bind [OF yields_readers(5)])

lemma yields_read_ir: "scanned it \<Longrightarrow> yields (read_ir it) (\<lambda>ir. it_tagged 10 39002 it = Inr ir)"
  unfolding read_ir_def
  by (rule yields_bind [OF yields_tagged], assumption, simp)
    (intro yields_bind [OF yields_for_each [OF yields_readers(3)]] yields_bind [OF yields_for_each [OF yields_nullable_hash]]
      yields_bind [OF yields_readers(5)] yields_bind [where P = "\<lambda>_. True"] yields_if,
      auto intro: yields_mono [OF yields_readers(4)])

lemma yields_read_shard_cert:
  assumes "scanned it"
  shows "yields (read_shard_cert it) (\<lambda>(sc, paths). it_tagged 3 39003 it = Inr sc \<and> (\<exists>d. shard_depth (it_data (sc ! 1)) = Inr d) \<and>
    (\<exists>sibs. it_children (sc ! 2) = Inr sibs))"
  unfolding read_shard_cert_def
proof (rule yields_bind [OF yields_tagged [OF assms]], simp)
  fix sc assume sc: "it_tagged 3 39003 it = Inr sc" "length sc = 3 \<and> (\<forall>c \<in> set sc. scanned c)"
  have kids: "yields (it_children (sc ! 2)) (\<lambda>_. True)" if "it_null (sc ! 2) \<or> it_major (sc ! 2) = 4"
    using sc(2) that by (intro yields_mono [OF yields_children]) auto
  show "yields (rbind (it_blob 2 1 33 (sc ! 1)) (\<lambda>shard. rbind (shard_depth shard) (\<lambda>_.
      rbind (it_collection 4 256 (sc ! 2)) (\<lambda>paths. rbind (it_children (sc ! 2)) (\<lambda>sibs.
      rbind (for_each (it_bytes 32) sibs) (\<lambda>_. Inr (sc, paths)))))))
    (\<lambda>(sc, paths). it_tagged 3 39003 it = Inr sc \<and> (\<exists>d. shard_depth (it_data (sc ! 1)) = Inr d) \<and> (\<exists>sibs. it_children (sc ! 2) = Inr sibs))"
    by (intro yields_bind [OF yields_readers(4)] yields_bind [OF yields_readers(7)] yields_bind [OF yields_readers(6)]
        yields_bind [OF kids] yields_bind [OF yields_for_each [OF yields_readers(5)]]) (use sc(1) in auto)
qed

lemma yields_read_step: "scanned step \<Longrightarrow> yields (read_step step) (\<lambda>_. \<exists>pair. it_array 2 step = Inr pair)"
  unfolding read_step_def
  by (rule yields_bind [OF yields_array], assumption, simp)
    (intro yields_bind [OF yields_readers(3)] yields_bind [OF yields_readers(5)], simp)

lemma yields_read_tree_cert:
  assumes "scanned it"
  shows "yields (read_tree_cert it) (\<lambda>(tc, paths). it_tagged 3 39004 it = Inr tc \<and>
    (\<exists>steps. it_children (tc ! 2) = Inr steps \<and> (\<forall>s \<in> set steps. \<exists>pair. it_array 2 s = Inr pair)))"
  unfolding read_tree_cert_def
proof (rule yields_bind [OF yields_tagged [OF assms]], simp)
  fix tc assume tc: "it_tagged 3 39004 it = Inr tc" "length tc = 3 \<and> (\<forall>c \<in> set tc. scanned c)"
  have kids: "yields (it_children (tc ! 2)) (\<lambda>its. \<forall>c \<in> set its. scanned c)" if "it_null (tc ! 2) \<or> it_major (tc ! 2) = 4"
    using tc(2) that by (intro yields_mono [OF yields_children]) auto
  have steps: "yields (for_each read_step its) (\<lambda>_. \<forall>s \<in> set its. \<exists>pair. it_array 2 s = Inr pair)" if "\<forall>c \<in> set its. scanned c" for its
    using that by (intro yields_mono [OF yields_for_each [OF yields_read_step]]) auto
  show "yields (rbind (it_uint 0xffffffff (tc ! 1)) (\<lambda>_. rbind (it_collection 4 32 (tc ! 2)) (\<lambda>paths.
      rbind (it_children (tc ! 2)) (\<lambda>steps. rbind (for_each read_step steps) (\<lambda>_. Inr (tc, paths))))))
    (\<lambda>(tc, paths). it_tagged 3 39004 it = Inr tc \<and>
      (\<exists>steps. it_children (tc ! 2) = Inr steps \<and> (\<forall>s \<in> set steps. \<exists>pair. it_array 2 s = Inr pair)))"
    by (intro yields_bind [OF yields_readers(3)] yields_bind [OF yields_readers(6)] yields_bind [OF kids] yields_bind [OF steps])
      (use tc(1) in auto)
qed

lemma yields_read_signatures: "yields (read_signatures its) (\<lambda>_. even (length its))"
  by (induction its rule: read_signatures.induct) (auto intro!: yields_bind [OF yields_readers(4)])

lemma yields_read_seal:
  assumes "scanned it"
  shows "yields (read_seal it) (\<lambda>(sf, sigs). it_tagged 8 39005 it = Inr sf)"
  unfolding read_seal_def
proof (rule yields_bind [OF yields_tagged [OF assms]], simp)
  fix sf assume sf: "it_tagged 8 39005 it = Inr sf" "length sf = 8 \<and> (\<forall>c \<in> set sf. scanned c)"
  have kids: "yields (it_children (sf ! 7)) (\<lambda>_. True)" if "it_null (sf ! 7) \<or> it_major (sf ! 7) = 5"
    using sf(2) that by (intro yields_mono [OF yields_children]) auto
  show "yields (rbind (it_uint 0xffff (sf ! 1)) (\<lambda>_. rbind (for_each (it_uint (-1)) (take 3 (drop 2 sf))) (\<lambda>_.
      rbind (it_bytes 32 (sf ! 5)) (\<lambda>_. rbind (it_bytes 32 (sf ! 6)) (\<lambda>_. rbind (it_collection 5 64 (sf ! 7)) (\<lambda>sigs.
      rbind (it_children (sf ! 7)) (\<lambda>pairs. rbind (read_signatures pairs) (\<lambda>_. Inr (sf, sigs)))))))))
    (\<lambda>(sf, sigs). it_tagged 8 39005 it = Inr sf)"
    by (intro yields_bind [OF yields_readers(3)] yields_bind [OF yields_readers(5)] yields_bind [OF yields_readers(6)]
        yields_bind [OF kids] yields_bind [OF yields_for_each [OF yields_readers(3)]] yields_bind [OF yields_read_signatures])
      (use sf(1) in auto)
qed

definition digest_shape :: "item \<Rightarrow> bool" where
  "digest_shape it \<longleftrightarrow> scanned it \<and> it_major it = 2 \<and> it_arg it = 32"

definition body_shape :: "item list \<Rightarrow> item list \<times> item list \<times> item list \<times> u64 \<times> u64 \<Rightarrow> bool" where
  "body_shape uc = (\<lambda>(sc, tc, sf, paths, sigs).
     (\<exists>ir. it_tagged 10 39002 (uc ! 1) = Inr ir) \<and> digest_shape (uc ! 2) \<and> digest_shape (uc ! 3) \<and>
     (\<exists>d. shard_depth (it_data (sc ! 1)) = Inr d) \<and> (\<exists>sibs. it_children (sc ! 2) = Inr sibs) \<and>
     (\<exists>steps. it_children (tc ! 2) = Inr steps \<and> (\<forall>s \<in> set steps. \<exists>pair. it_array 2 s = Inr pair)) \<and>
     scanned (uc ! 6) \<and> it_tagged 8 39005 (uc ! 6) = Inr sf)"

lemma yields_read_body:
  assumes "length uc = 7" "\<forall>c \<in> set uc. scanned c"
  shows "yields (read_body uc) (body_shape uc)"
proof -
  have sc: "scanned (uc ! 1)" "scanned (uc ! 2)" "scanned (uc ! 3)" "scanned (uc ! 4)" "scanned (uc ! 5)" "scanned (uc ! 6)"
    using assms by simp_all
  show ?thesis unfolding read_body_def
    by (intro yields_bind [OF yields_read_ir [OF sc(1)]] yields_bind [OF yields_readers(5)]
        yields_bind2 [OF yields_read_shard_cert [OF sc(4)]] yields_bind2 [OF yields_read_tree_cert [OF sc(5)]]
        yields_bind2 [OF yields_read_seal [OF sc(6)]])
      (use sc in \<open>auto simp: body_shape_def digest_shape_def\<close>)
qed

definition claim_shape :: "claim \<Rightarrow> bool" where
  "claim_shape c \<longleftrightarrow> (\<exists>uc. length uc = 7 \<and> (\<forall>it \<in> set uc. scanned it) \<and> cl_ir c = uc ! 1 \<and> cl_tr c = uc ! 2 \<and> cl_conf c = uc ! 3 \<and>
     cl_seal c = uc ! 6 \<and> body_shape uc (cl_shard_cert c, cl_tree_cert c, cl_seal_fields c, 0, 0))"

lemma yields_one: "slice data \<Longrightarrow> yields (cbor_one tok data) (\<lambda>(it, tok'). scanned it \<and> it_raw it = data)"
  unfolding cbor_one_def one_capped_def by (rule yields_scan)

lemma slice_parts: "slice (xs @ ys) \<longleftrightarrow> length xs + length ys < 2 ^ 63"
  by (simp add: slice_def)

lemma yields_parse_claim:
  assumes "slice r"
  shows "yields (parse_claim r tok) (\<lambda>(p, r', tok'). claim_shape (pa_claim p) \<and> (\<exists>bs. r = bs @ r'))"
proof -
  have body: "yields (rbind (read_body uc) (\<lambda>(sc, tc, sf, paths, sigs). Inr (p sc tc sf paths sigs, r', tok'))) (\<lambda>(p, r', tok'). claim_shape (pa_claim p) \<and> (\<exists>bs. r = bs @ r'))"
    if "length uc = 7" "\<forall>c \<in> set uc. scanned c" "\<exists>bs. r = bs @ r'"
      "\<And>sc tc sf paths sigs. body_shape uc (sc, tc, sf, paths, sigs) \<Longrightarrow> claim_shape (pa_claim (p sc tc sf paths sigs))"
    for uc and p :: "item list \<Rightarrow> item list \<Rightarrow> item list \<Rightarrow> u64 \<Rightarrow> u64 \<Rightarrow> parsed" and r' tok'
    using that by (intro yields_bind [OF yields_read_body]) auto
  show ?thesis unfolding parse_claim_def
    apply (intro yields_bind2 [OF yields_readers(2)] yields_bind2 [OF yields_readers(1)] yields_if yields_bind [OF yields_readers(7)]
        yields_bind2 [OF yields_one] yields_bind [OF yields_tagged] body)
    using assms by (simp_all add: slice_parts) (auto simp: slice_def claim_shape_def body_shape_def)
qed

lemma tree_fold_total:
  "\<forall>s \<in> set steps. \<exists>pair. it_array 2 s = Inr pair \<Longrightarrow> \<exists>h'. tree_fold sha256 part steps h = Inr h'"
  by (induction steps arbitrary: h) (auto simp: expect_def Let_def)

lemma folds_total:
  assumes "claim_shape c"
  shows "\<exists>b. folds sha256 c = Inr b"
proof -
  obtain ir d sibs steps where *: "it_tagged 10 39002 (cl_ir c) = Inr ir" "shard_depth (it_data (cl_shard_cert c ! 1)) = Inr d"
    "it_children (cl_shard_cert c ! 2) = Inr sibs" "it_children (cl_tree_cert c ! 2) = Inr steps"
    "\<forall>s \<in> set steps. \<exists>pair. it_array 2 s = Inr pair"
    using assms unfolding claim_shape_def body_shape_def by auto
  show ?thesis
    unfolding folds_def expect_def * map_err.simps rbind.simps Let_def
    using tree_fold_total [OF *(5)] by (auto simp: rbind_Inr_iff)
qed

section \<open>Binding\<close>

lemma scanned_item:
  assumes "scanned it"
  shows "cbor_item (it_raw it) = Inr it"
proof -
  obtain t where t: "it = tree_item t" using assms unfolding scanned_def by blast
  have raw: "it_raw (tree_item t) = enc t" by (simp add: tree_item_def)
  show ?thesis unfolding t raw by (rule cbor_item_enc)
qed

lemma scanned_raw_inj: "scanned a \<Longrightarrow> scanned b \<Longrightarrow> it_raw a = it_raw b \<Longrightarrow> a = b"
  by (metis scanned_item sum.inject(2))

lemma digest_shape_raw:
  assumes "digest_shape it"
  shows "it_raw it = [0x58, 0x20] @ it_data it \<and> length (it_data it) = 32"
proof -
  obtain t where t: "slice (enc t)" "it = tree_item t" "tree_head t = (2, 32)"
    using assms unfolding digest_shape_def scanned_def by (auto simp: tree_item_def prod_eq_iff)
  then obtain bs where bs: "t = CBytes bs" "(of_nat (length bs) :: u64) = 32" by (cases t) auto
  have "length bs < 2 ^ 63" using t(1) unfolding bs(1) slice_def by simp
  then have "length bs = 32" using unat_length [of "length bs"] bs(2) by simp
  moreover have "major 2 32 = [0x58, 0x20]" by (simp add: major_def head_byte_def)
  ultimately show ?thesis using t(2) bs by (simp add: tree_item_def)
qed

definition shard_node :: "bool \<times> bytes \<Rightarrow> b256 \<Rightarrow> bytes" where
  "shard_node step h =
     (if fst step then [0x58, 0x20] @ snd step @ [0x58, 0x20] @ b256_bytes h
      else [0x58, 0x20] @ b256_bytes h @ [0x58, 0x20] @ snd step)"

fun shard_steps :: "bytes \<Rightarrow> nat \<Rightarrow> nat \<Rightarrow> item list \<Rightarrow> (bool \<times> bytes) list" where
  "shard_steps shard depth i [] = []"
| "shard_steps shard depth i (sib # sibs) = (bit_at shard (depth - 1 - i), it_data sib) # shard_steps shard depth (i + 1) sibs"

definition tree_node :: "u32 \<Rightarrow> u32 \<times> bytes \<Rightarrow> b256 \<Rightarrow> bytes" where
  "tree_node part step h =
     [0x41, 0, 0x44] @ to_be 4 (fst step) @
     (if fst step < part then [0x58, 0x20] @ snd step @ [0x58, 0x20] @ b256_bytes h
      else [0x58, 0x20] @ b256_bytes h @ [0x58, 0x20] @ snd step)"

definition tree_step :: "item \<Rightarrow> u32 \<times> bytes" where
  "tree_step step = (case it_array 2 step of Inr pair \<Rightarrow> (ucast (it_arg (pair ! 0)), it_data (pair ! 1)) | Inl _ \<Rightarrow> (0, []))"

lemma shard_fold_climb:
  "shard_fold sha256 shard depth i sibs (b256_bytes (sha256 below)) =
     b256_bytes (sha256 (climb sha256 shard_node below (shard_steps shard depth i sibs)))"
  by (induction sibs arbitrary: i below) (simp_all add: climb_Cons shard_node_def b1_hash_def digest_item_def Let_def)

lemma tree_fold_climb:
  "\<forall>s \<in> set steps. \<exists>pair. it_array 2 s = Inr pair \<Longrightarrow> tree_fold sha256 part steps (b256_bytes (sha256 below)) =
     Inr (b256_bytes (sha256 (climb sha256 (tree_node part) below (map tree_step steps))))"
proof (induction steps arbitrary: below)
  case (Cons s steps)
  then obtain pair where "it_array 2 s = Inr pair" by auto
  then show ?case using Cons.IH Cons.prems
    by (simp add: climb_Cons tree_node_def tree_step_def b1_hash_def digest_item_def expect_def Let_def)
qed simp

interpretation shard_chain: hash_chain sha256 shard_node "\<lambda>s s'. fst s = fst s'" for sha256
  by unfold_locales (auto simp: shard_node_def digest_bytes_inj split: if_split_asm)

interpretation tree_path: hash_path sha256 "tree_node part" "\<lambda>s s'. fst s = fst s'" "\<lambda>b. b ! 1 = 1" for sha256 part
proof
  show "h = h'" if "fst s = fst s'" "tree_node part s h = tree_node part s' h'" for s s' :: "u32 \<times> bytes" and h h'
    using that by (cases "fst s' < part") (simp_all add: tree_node_def digest_bytes_inj)
  show "fst s = fst s'" if "tree_node part s h = tree_node part s' h'" for s s' :: "u32 \<times> bytes" and h h'
    using that by (auto simp: tree_node_def to_be_inj split: if_split_asm)
qed (simp add: tree_node_def)

definition kids :: "item \<Rightarrow> item list" where
  "kids it = (case it_children it of Inr its \<Rightarrow> its | Inl _ \<Rightarrow> [])"

definition claim_leaf :: "claim \<Rightarrow> bytes" where
  "claim_leaf c = it_raw (cl_ir c) @ it_raw (cl_tr c) @ it_raw (cl_conf c)"

definition claim_siblings :: "claim \<Rightarrow> (bool \<times> bytes) list" where
  "claim_siblings c = (let sibs = kids (cl_shard_cert c ! 2) in shard_steps (cl_shard c) (length sibs) 0 sibs)"

definition claim_data :: "sha256 \<Rightarrow> claim \<Rightarrow> bytes" where
  "claim_data sha256 c = [0x58, 0x20] @ b256_bytes (sha256 (climb sha256 shard_node (claim_leaf c) (claim_siblings c)))"

definition claim_tree_leaf :: "sha256 \<Rightarrow> claim \<Rightarrow> bytes" where
  "claim_tree_leaf sha256 c = [0x41, 1, 0x44] @ to_be 4 (cl_partition c) @ [0x58, 0x20] @ b256_bytes (sha256 (claim_data sha256 c))"

definition claim_hashed :: "sha256 \<Rightarrow> claim \<Rightarrow> bytes list" where
  "claim_hashed sha256 c =
     climbed sha256 shard_node (claim_leaf c) (claim_siblings c) @ [claim_data sha256 c] @
     climbed sha256 (tree_node (cl_partition c)) (claim_tree_leaf sha256 c) (map tree_step (kids (cl_tree_cert c ! 2)))"

lemma folds_True:
  assumes "claim_shape c" "folds sha256 c = Inr True"
  obtains ir where "it_tagged 10 39002 (cl_ir c) = Inr ir" "it_data (ir ! 4) = cl_state c" "it_data (cl_conf c) = cl_config c"
    "b1_hash sha256 [it_raw (cl_ir c)] = cl_ir_hash c"
    "shard_depth (cl_shard c) = Inr (length (kids (cl_shard_cert c ! 2)))"
    "b256_bytes (sha256 (climb sha256 (tree_node (cl_partition c)) (claim_tree_leaf sha256 c) (map tree_step (kids (cl_tree_cert c ! 2))))) =
       it_data (cl_seal_fields c ! 6)"
proof -
  obtain ir d sibs steps where *: "it_tagged 10 39002 (cl_ir c) = Inr ir" "shard_depth (it_data (cl_shard_cert c ! 1)) = Inr d"
    "it_children (cl_shard_cert c ! 2) = Inr sibs" "it_children (cl_tree_cert c ! 2) = Inr steps"
    "\<forall>s \<in> set steps. \<exists>pair. it_array 2 s = Inr pair"
    using assms(1) unfolding claim_shape_def body_shape_def by auto
  have part: "ucast (ucast (cl_partition c) :: u64) = cl_partition c" by (rule ucast_widened) simp
  have checks: "it_arg (cl_tree_cert c ! 1) = ucast (cl_partition c)" "it_data (cl_shard_cert c ! 1) = cl_shard c"
      "it_data (cl_conf c) = cl_config c" "it_data (ir ! 4) = cl_state c" "b1_hash sha256 [it_raw (cl_ir c)] = cl_ir_hash c"
      "length sibs = d"
    using assms(2) unfolding folds_def expect_def * map_err.simps rbind.simps Let_def by (auto split: if_split_asm)
  have depth: "shard_depth (cl_shard c) = Inr d" using *(2) unfolding checks(2) .
  have kids: "kids (cl_shard_cert c ! 2) = sibs" "kids (cl_tree_cert c ! 2) = steps" using *(3,4) by (simp_all add: kids_def)
  have leaf: "b1_hash sha256 [it_raw (cl_ir c), it_raw (cl_tr c), it_raw (cl_conf c)] = b256_bytes (sha256 (claim_leaf c))"
    by (simp add: b1_hash_def claim_leaf_def)
  have data: "b1_hash sha256 (digest_item (b256_bytes (sha256 (climb sha256 shard_node (claim_leaf c) (shard_steps (cl_shard c) d 0 sibs))))) =
      b256_bytes (sha256 (claim_data sha256 c))"
    using checks(6) by (simp add: b1_hash_def digest_item_def claim_data_def claim_siblings_def kids Let_def)
  have top: "b1_hash sha256 ([[0x41, 1, 0x44], to_be 4 (cl_partition c)] @ digest_item (b256_bytes (sha256 (claim_data sha256 c)))) =
      b256_bytes (sha256 (claim_tree_leaf sha256 c))"
    by (simp add: b1_hash_def digest_item_def claim_tree_leaf_def)
  have "b256_bytes (sha256 (climb sha256 (tree_node (cl_partition c)) (claim_tree_leaf sha256 c) (map tree_step steps))) = it_data (cl_seal_fields c ! 6)"
    using assms(2) unfolding folds_def expect_def *(1,3,4) map_err.simps rbind.simps Let_def checks part leaf shard_fold_climb depth
      map_err.simps rbind.simps data top tree_fold_climb [OF *(5)] by (simp split: if_split_asm)
  then show ?thesis using that [OF *(1) checks(4,3,5)] depth unfolding kids checks(6) by blast
qed

lemma shard_steps_aligned:
  "length xs = length ys \<Longrightarrow> list_all2 (\<lambda>s s'. fst s = fst s') (shard_steps shard depth i xs) (shard_steps shard depth i ys)"
  by (induction xs ys arbitrary: i rule: list_induct2) simp_all

lemma claim_leaf_inj:
  assumes "claim_shape c" "claim_shape c'" "claim_leaf c = claim_leaf c'"
  shows "cl_ir c = cl_ir c' \<and> cl_tr c = cl_tr c' \<and> cl_conf c = cl_conf c'"
proof -
  have d: "digest_shape (cl_tr c)" "digest_shape (cl_conf c)" "scanned (cl_ir c)" if "claim_shape c" for c
    using that unfolding claim_shape_def body_shape_def by auto
  have len: "length (it_raw it) = 34" if "digest_shape it" for it using digest_shape_raw [OF that] by simp
  have "it_raw (cl_ir c) = it_raw (cl_ir c') \<and> it_raw (cl_tr c) = it_raw (cl_tr c') \<and> it_raw (cl_conf c) = it_raw (cl_conf c')"
    using assms(3) len [OF d(1) [OF assms(1)]] len [OF d(2) [OF assms(1)]] len [OF d(1) [OF assms(2)]] len [OF d(2) [OF assms(2)]]
    unfolding claim_leaf_def by (simp add: append_eq_append_conv)
  then show ?thesis using scanned_raw_inj d assms(1,2) unfolding digest_shape_def by blast
qed

lemma claims_bind:
  assumes "claim_shape c" "claim_shape c'" "folds sha256 c = Inr True" "folds sha256 c' = Inr True"
    and "it_raw (cl_seal c) = it_raw (cl_seal c')" "cl_partition c = cl_partition c'" "cl_shard c = cl_shard c'"
  shows "claim_leaf c = claim_leaf c' \<or> collide sha256 (claim_hashed sha256 c) (claim_hashed sha256 c')"
proof -
  have seal: "scanned (cl_seal c)" "it_tagged 8 39005 (cl_seal c) = Inr (cl_seal_fields c)" if "claim_shape c" for c
    using that unfolding claim_shape_def body_shape_def by auto
  have fields: "cl_seal_fields c = cl_seal_fields c'"
    using scanned_raw_inj [OF seal(1) [OF assms(1)] seal(1) [OF assms(2)] assms(5)] seal(2) [OF assms(1)] seal(2) [OF assms(2)] by simp
  let ?tree = "\<lambda>c. map tree_step (kids (cl_tree_cert c ! 2))"
  have hashed: "set (climbed sha256 shard_node (claim_leaf c) (claim_siblings c)) \<subseteq> set (claim_hashed sha256 c)"
      "set (climbed sha256 (tree_node (cl_partition c)) (claim_tree_leaf sha256 c) (?tree c)) \<subseteq> set (claim_hashed sha256 c)"
      "claim_data sha256 c \<in> set (claim_hashed sha256 c)" for c
    by (auto simp: claim_hashed_def)
  have depth: "length (kids (cl_shard_cert c ! 2)) = length (kids (cl_shard_cert c' ! 2))"
    using folds_True [OF assms(1,3)] folds_True [OF assms(2,4)] assms(7) by (metis sum.inject(2))
  have "sha256 (climb sha256 (tree_node (cl_partition c)) (claim_tree_leaf sha256 c) (?tree c)) =
      sha256 (climb sha256 (tree_node (cl_partition c)) (claim_tree_leaf sha256 c') (?tree c'))"
    using folds_True [OF assms(1,3)] folds_True [OF assms(2,4)] fields assms(6) by (metis digest_bytes_inj)
  then have "claim_tree_leaf sha256 c = claim_tree_leaf sha256 c' \<or>
      collide sha256 (climbed sha256 (tree_node (cl_partition c)) (claim_tree_leaf sha256 c) (?tree c))
        (climbed sha256 (tree_node (cl_partition c)) (claim_tree_leaf sha256 c') (?tree c'))"
    by (intro tree_path.path_binds) (simp_all add: claim_tree_leaf_def)
  then consider "claim_tree_leaf sha256 c = claim_tree_leaf sha256 c'" |
      "collide sha256 (claim_hashed sha256 c) (claim_hashed sha256 c')"
    using hashed(2) [of c] hashed(2) [of c'] unfolding assms(6) by (blast intro: collide_mono)
  then show ?thesis
  proof cases
    case 1
    then have "sha256 (claim_data sha256 c) = sha256 (claim_data sha256 c')" by (simp add: claim_tree_leaf_def digest_bytes_inj assms(6))
    then consider "claim_data sha256 c = claim_data sha256 c'" | "collide sha256 (claim_hashed sha256 c) (claim_hashed sha256 c')"
      using collideI [OF hashed(3) hashed(3)] by blast
    then show ?thesis
    proof cases
      case 1
      then have "sha256 (climb sha256 shard_node (claim_leaf c) (claim_siblings c)) = sha256 (climb sha256 shard_node (claim_leaf c') (claim_siblings c'))"
        by (simp add: claim_data_def digest_bytes_inj)
      moreover have "list_all2 (\<lambda>s s'. fst s = fst s') (claim_siblings c) (claim_siblings c')"
        unfolding claim_siblings_def Let_def depth assms(7) by (rule shard_steps_aligned) (rule depth)
      ultimately show ?thesis using shard_chain.chain_binds hashed(1) [of c] hashed(1) [of c'] by (blast intro: collide_mono)
    qed simp
  qed simp
qed

section \<open>Standalone certificates never panic\<close>

lemma scanned_slices: "scanned it \<Longrightarrow> slice (it_raw it) \<and> slice (it_data it)"
  unfolding scanned_def tree_item_def enc_split using slice_suffix by (auto simp: enc_split)

lemma yields_loose: "slice data \<Longrightarrow> yields (one_loose cap tok data) (\<lambda>(it, tok'). scanned it \<and> it_raw it = data)"
  unfolding one_loose_def by (rule yields_scan)

lemma yields_required_major:
  assumes "scanned (uc ! i)"
  shows "yields (required_major uc (i, tag, ar, req, m)) (\<lambda>_. \<exists>inner tok its. cbor_one 0 (it_data (uc ! i)) = Inr (inner, tok) \<and>
    it_children inner = Inr its \<and> req < length its \<and> it_major (its ! req) = m)"
proof -
  have "slice (it_data (uc ! i))" using scanned_slices [OF assms] ..
  then show ?thesis unfolding required_major_def prod.case Let_def
    by (intro yields_if yields_bind2 [OF yields_one] yields_bind [OF yields_children]) auto
qed

lemma yields_scan_certificate: "yields (scan_certificate raw) (\<lambda>_. True)"
proof (cases "24576 < length raw")
  case False
  then have raw: "slice raw" by (simp add: slice_def)
  show ?thesis unfolding scan_certificate_def
  proof (intro yields_if yields_bind2 [OF yields_one [OF raw]] yields_bind [OF yields_tagged])
    fix it tok uc assume uc: "length uc = 7 \<and> (\<forall>c \<in> set uc. scanned c)"
    then have sc: "scanned (uc ! 1)" "scanned (uc ! 4)" "scanned (uc ! 5)" "scanned (uc ! 6)" by simp_all
    have req: "yields (for_each (required_major uc) [(1, 39002, 10, 5, 2), (4, 39003, 3, 2, 4), (5, 39004, 3, 2, 4), (6, 39005, 8, 7, 5)])
        (\<lambda>_. \<exists>inner tok its. cbor_one 0 (it_data (uc ! 6)) = Inr (inner, tok) \<and> it_children inner = Inr its \<and> 7 < length its \<and> it_major (its ! 7) = 5)"
      unfolding for_each.simps
      by (intro yields_bind [OF yields_required_major] sc) (use sc in \<open>auto intro: yields_mono [OF yields_required_major]\<close>)
    have data: "slice (it_data (uc ! 6))" using scanned_slices [OF sc(4)] ..
    show "yields (rbind (for_each (required_major uc) [(1, 39002, 10, 5, 2), (4, 39003, 3, 2, 4), (5, 39004, 3, 2, 4), (6, 39005, 8, 7, 5)]) (\<lambda>_.
      rbind (cbor_one 0 (it_data (uc ! 6))) (\<lambda>(it, _).
      rbind (it_array 8 it) (\<lambda>seal.
      if it_major (seal ! 1) \<noteq> 0 \<or> it_arg (seal ! 1) = 0 \<or> 65535 < it_arg (seal ! 1) then Inl Shape else
      rbind (it_children (seal ! 7)) (\<lambda>its.
      rbind (for_each (\<lambda>(i, v). if i mod 2 = 1 \<and> it_major v \<noteq> 2 then Inl Shape else Inr ()) (enumerate 0 its)) (\<lambda>_.
      scan_body uc)))))) (\<lambda>_. True)"
    proof (intro yields_bind [OF req] yields_bind2 [OF yields_one [OF data]] yields_bind [OF yields_array] yields_if)
      fix inner tok seal
      assume ex: "\<exists>inner tok its. cbor_one 0 (it_data (uc ! 6)) = Inr (inner, tok) \<and> it_children inner = Inr its \<and> 7 < length its \<and> it_major (its ! 7) = 5"
        and one: "cbor_one 0 (it_data (uc ! 6)) = Inr (inner, tok)" "scanned inner \<and> it_raw inner = it_data (uc ! 6)"
        and seal: "it_array 8 inner = Inr seal" "length seal = 8 \<and> (\<forall>c \<in> set seal. scanned c)"
      have "it_children inner = Inr seal" using scanned_array(2) [of inner 8 seal] one(2) seal(1) by simp
      then have "it_major (seal ! 7) = 5" using ex one(1) by auto
      then have kids: "yields (it_children (seal ! 7)) (\<lambda>_. True)" using seal(2) by (intro yields_mono [OF yields_children]) auto
      have each: "yields (for_each (\<lambda>(i, v). if i mod 2 = 1 \<and> it_major v \<noteq> 2 then Inl Shape else Inr ()) xs) (\<lambda>_. True)"
        for xs :: "(nat \<times> item) list"
        by (rule yields_mono [OF yields_for_each [where P = "\<lambda>_ _. True"]]) (auto split: prod.split)
      show "yields (rbind (it_children (seal ! 7)) (\<lambda>its.
        rbind (for_each (\<lambda>(i, v). if i mod 2 = 1 \<and> it_major v \<noteq> 2 then Inl Shape else Inr ()) (enumerate 0 its)) (\<lambda>_. scan_body uc))) (\<lambda>_. True)"
        unfolding scan_body_def by (intro yields_bind [OF kids] yields_bind [OF each] yields_bind [OF yields_read_body]) (use uc in auto)
    qed auto
  qed auto
qed (simp add: scan_certificate_def)

lemma yields_uint_or_null: "yields (uint_or_null mx it) (\<lambda>_. True)"
  unfolding uint_or_null_def by (auto intro: yields_bind [OF yields_readers(3)])

lemma yields_each_uint: "yields (for_each (it_uint mx) its) (\<lambda>_. \<forall>it \<in> set its. \<exists>v. it_uint mx it = Inr v)"
  by (rule yields_mono [OF yields_for_each [OF yields_readers(3)]]) auto

lemma yields_bytes_like:
  "scanned it \<Longrightarrow> yields (bytes_like it) (\<lambda>_. it_null it \<or> it_major it = 2 \<or>
     (\<exists>its. it_children it = Inr its \<and> (\<forall>c \<in> set its. \<exists>v. it_uint 255 c = Inr v)))"
  unfolding bytes_like_def
  by (intro yields_if yields_bind [OF yields_children] yields_mono [OF yields_each_uint]) auto

lemma yields_list_of_bytes: "scanned it \<Longrightarrow> yields (list_of_bytes it) (\<lambda>_. True)"
  unfolding list_of_bytes_def
  by (intro yields_if yields_bind [OF yields_children] yields_mono [OF yields_for_each [OF yields_bytes_like]]) auto

lemma yields_typed:
  assumes "scanned it" "0 < n" "n < 2 ^ 63"
  shows "yields (typed tag n it) (\<lambda>its. length its = n \<and> (\<forall>c \<in> set its. scanned c) \<and>
    (\<exists>inner tok. one_loose USIZE_MAX 0 (it_data it) = Inr (inner, tok) \<and> it_children inner = Inr its))"
proof -
  have "slice (it_data it)" using scanned_slices [OF assms(1)] ..
  then show ?thesis using assms(2,3) unfolding typed_def
    by (intro yields_if yields_bind2 [OF yields_loose] yields_bind [OF yields_children] yields_bind [where P = "\<lambda>_. True"])
      (auto simp: arity_def unat_length intro: yields_mono [OF yields_readers(3)])
qed

lemma yields_typed_step: "scanned step \<Longrightarrow> yields (typed_step step) (\<lambda>_. True)"
  unfolding typed_step_def
  by (rule yields_bind [OF yields_array], assumption, simp)
    (intro yields_bind [OF yields_uint_or_null] yields_mono [OF yields_bytes_like], auto)

lemma yields_typed_signatures: "\<forall>c \<in> set its. scanned c \<Longrightarrow> yields (typed_signatures its) (\<lambda>_. True)"
  by (induction its rule: typed_signatures.induct) (auto intro!: yields_bind [OF yields_readers(4)] yields_bind [OF yields_bytes_like])

lemma yields_like: "scanned it \<Longrightarrow> yields (bytes_like it) (\<lambda>_. True)"
  by (rule yields_mono [OF yields_bytes_like]) simp_all

lemma yields_each: "(\<And>x. x \<in> set xs \<Longrightarrow> yields (f x) (\<lambda>_. True)) \<Longrightarrow> yields (for_each f xs) (\<lambda>_. True)"
  by (rule yields_mono [OF yields_for_each]) simp_all

lemma yields_typed_items: "scanned it \<Longrightarrow> 0 < n \<Longrightarrow> n < 2 ^ 63 \<Longrightarrow> yields (typed tag n it) (\<lambda>its. \<forall>i < n. scanned (its ! i))"
  by (rule yields_mono [OF yields_typed]) auto

lemma yields_typed_ir: "scanned it \<Longrightarrow> yields (typed_ir it) (\<lambda>_. True)"
  unfolding typed_ir_def
  by (intro yields_bind [OF yields_typed_items] yields_then yields_each yields_uint_or_null yields_like) auto

lemma yields_typed_shard_cert:
  "scanned it \<Longrightarrow> yields (typed_shard_cert it) (\<lambda>_. \<exists>sc. typed 39003 3 it = Inr sc \<and> bytes_like (sc ! 1) = Inr ())"
  unfolding typed_shard_cert_def
  by (rule yields_bind [OF yields_typed_items], simp_all)
    (intro yields_bind [OF yields_like] yields_mono [OF yields_list_of_bytes], auto)

lemma yields_typed_tree_cert: "scanned it \<Longrightarrow> yields (typed_tree_cert it) (\<lambda>_. True)"
  unfolding typed_tree_cert_def
  by (intro yields_bind [OF yields_typed_items] yields_then yields_uint_or_null yields_if yields_bind [OF yields_children]
      yields_each yields_typed_step) auto

lemma yields_typed_seal: "scanned it \<Longrightarrow> yields (typed_seal it) (\<lambda>_. True)"
  unfolding typed_seal_def
  by (intro yields_bind [OF yields_typed_items] yields_bind [OF yields_readers(3)] yields_then yields_each
      yields_mono [OF yields_readers(3)] yields_like yields_if yields_bind [OF yields_children] yields_typed_signatures) auto

lemma yields_certificate_shape:
  assumes "slice raw"
  shows "yields (certificate_shape raw) (\<lambda>_. \<exists>rt tok uc sc. one_typed MAX_ITEMS 0 raw = Inr (rt, tok) \<and> scanned rt \<and>
    typed 39001 7 rt = Inr uc \<and> typed 39003 3 (uc ! 4) = Inr sc \<and> bytes_like (sc ! 1) = Inr ())"
  unfolding certificate_shape_def one_typed_def
  by (intro yields_bind2 [OF yields_scan [OF assms]] yields_bind [OF yields_typed_items] yields_then [OF yields_typed_ir]
      yields_then [OF yields_like] yields_bind [OF yields_typed_shard_cert] yields_then [OF yields_typed_tree_cert]
      yields_mono [OF yields_typed_seal]) auto

lemma loosen_scan:
  assumes "slice data" "scan_whole strict utf8 cap 0 data = Inr (it, tok)"
  shows "one_loose USIZE_MAX 0 data = Inr (it, tok)"
proof -
  obtain t where t: "wf_tree strict utf8 0 t" "data = enc t" "it = tree_item t" "tok = nodes t"
    using assms(2) unfolding scan_whole_exact [OF assms(1)] by auto
  have "nodes t \<le> USIZE_MAX" using nodes_length [of t] assms(1) t(2) by (simp add: slice_def USIZE_MAX_def)
  then show ?thesis
    unfolding one_loose_def scan_whole_exact [OF assms(1)] using t wf_tree_loosen [OF t(1) le_refl] by auto
qed

lemma byte_values_total: "\<forall>c \<in> set its. \<exists>v. it_uint 255 c = Inr v \<Longrightarrow> \<exists>bs. byte_values its = Inr bs"
  by (induction its) auto

lemma certificate_shard_total:
  assumes "slice raw" "certificate_shape raw = Inr ()"
  shows "\<exists>shard. certificate_shard raw = Inr shard"
proof -
  obtain rt tok uc sc where *: "one_typed MAX_ITEMS 0 raw = Inr (rt, tok)" "scanned rt" "typed 39001 7 rt = Inr uc"
      "typed 39003 3 (uc ! 4) = Inr sc" "bytes_like (sc ! 1) = Inr ()"
    using yieldsD(1) [OF yields_certificate_shape [OF assms(1)] assms(2)] by blast
  have rt: "one_loose USIZE_MAX 0 raw = Inr (rt, tok)" using *(1) loosen_scan [OF assms(1)] unfolding one_typed_def by blast
  obtain inner tok1 where uc: "length uc = 7" "\<forall>c \<in> set uc. scanned c"
      "one_loose USIZE_MAX 0 (it_data rt) = Inr (inner, tok1)" "it_children inner = Inr uc"
    using yieldsD(1) [OF yields_typed [OF *(2)] *(3)] by auto
  then have "scanned (uc ! 4)" by simp
  from yieldsD(1) [OF yields_typed [OF this] *(4)] obtain inner' tok2 where sc: "length sc = 3" "\<forall>c \<in> set sc. scanned c"
      "one_loose USIZE_MAX 0 (it_data (uc ! 4)) = Inr (inner', tok2)" "it_children inner' = Inr sc" by auto
  have "scanned (sc ! 1)" using sc by simp
  note like = yieldsD(1) [OF yields_bytes_like [OF this] *(5)]
  show ?thesis unfolding certificate_shard_def rt uc sc rbind.simps prod.case Let_def using like byte_values_total uc(1) sc(1) by auto
qed

section \<open>A strict certificate is a typed one\<close>

text \<open>
  The strict scan of \<open>parse_claim\<close> and \<open>scan_certificate\<close> admits nothing that the typed decode refuses: on one tree the
  reads of \<open>tagged\<close> are those of \<open>typed\<close>, and every field a strict read accepts is within the typed field.
\<close>

lemma scanned_loose:
  assumes "scanned it"
  shows "\<exists>tok. one_loose USIZE_MAX 0 (it_raw it) = Inr (it, tok)"
proof -
  obtain t where t: "wf_tree False False 0 t" "slice (enc t)" "it = tree_item t" using assms unfolding scanned_def by blast
  have raw: "it_raw it = enc t" unfolding t(3) by (simp add: tree_item_def)
  have "nodes t \<le> USIZE_MAX" using nodes_length [of t] t(2) by (simp add: slice_def USIZE_MAX_def)
  then show ?thesis unfolding raw one_loose_def scan_whole_exact [OF t(2)] using t(1,3) by auto
qed

lemma typed_of_tagged:
  assumes "scanned it" "it_tagged n tag it = Inr its" "0 < n" "n < 2 ^ 63"
  shows "typed tag n it = Inr its \<and> it_uint 1 (its ! 0) = Inr 1"
proof -
  have it: "it_major it = 6" "it_arg it = tag" using assms(2) unfolding it_tagged_def by (auto split: if_split_asm)
  obtain inner where inner: "cbor_item (it_data it) = Inr inner" "it_children it = Inr [inner]" "scanned inner" "it_raw inner = it_data it"
    using scanned_tag [OF assms(1) it(1)] by blast
  then obtain version where array: "it_array n inner = Inr its" "it_uint (-1) (its ! 0) = Inr version" "version = 1"
    using assms(2) unfolding it_tagged_def by (auto simp: result_iff split: if_split_asm)
  have kids: "it_children inner = Inr its" "length its = n" using scanned_array(2) [OF inner(3) array(1) assms(4)] by blast+
  have "it_major inner = 4" "it_arg inner = of_nat n" using array(1) unfolding it_array_def by (auto split: if_split_asm)
  moreover have "\<exists>tok. one_loose USIZE_MAX 0 (it_data it) = Inr (inner, tok)"
    using scanned_loose [OF inner(3)] unfolding inner(4) .
  moreover have one: "it_uint 1 (its ! 0) = Inr 1" using array(2,3) unfolding it_uint_def by (auto split: if_split_asm)
  ultimately show ?thesis using it kids assms(3) unfolding typed_def by (auto simp: one)
qed

lemma for_each_Inr: "for_each f xs = Inr u \<longleftrightarrow> (\<forall>x \<in> set xs. \<exists>y. f x = Inr y)"
  by (induction xs) (auto simp: rbind_Inr_iff)

lemma field_reads:
  "it_uint mx it = Inr v \<Longrightarrow> uint_or_null mx it = Inr ()"
  "it_bytes n it = Inr bs \<Longrightarrow> bytes_like it = Inr ()"
  "nullable_hash it = Inr () \<Longrightarrow> bytes_like it = Inr ()"
  "it_blob 2 mn bound it = Inr bs \<Longrightarrow> bytes_like it = Inr ()"
  "it_null it \<Longrightarrow> bytes_like it = Inr ()"
  by (auto simp: uint_or_null_def bytes_like_def nullable_hash_def it_bytes_def it_blob_def rbind_Inr_iff split: if_split_asm)

lemma typed_ir_of_read:
  assumes "scanned it" "read_ir it = Inr ir"
  shows "typed_ir it = Inr ()"
proof -
  have *: "it_tagged 10 39002 it = Inr ir" "\<forall>i \<in> {1, 2, 6, 8}. \<exists>v. it_uint (-1) (ir ! i) = Inr v"
      "\<forall>i \<in> {3, 7, 9}. nullable_hash (ir ! i) = Inr ()" "\<exists>bs. it_bytes 32 (ir ! 4) = Inr bs"
      "it_null (ir ! 5) \<or> (\<exists>bs. it_blob 2 0 256 (ir ! 5) = Inr bs)"
    using assms(2) unfolding read_ir_def by (auto simp: result_iff for_each_Inr split: if_split_asm)
  have "typed 39002 10 it = Inr ir" using typed_of_tagged [OF assms(1) *(1)] by simp
  then show ?thesis using *(2-5) unfolding typed_ir_def by (auto simp: rbind_Inr_iff for_each_Inr field_reads)
qed

lemma typed_shard_cert_of_read:
  assumes "scanned it" "read_shard_cert it = Inr (sc, paths)"
  shows "typed_shard_cert it = Inr ()"
proof -
  obtain shard sibs where *: "it_tagged 3 39003 it = Inr sc" "it_blob 2 1 33 (sc ! 1) = Inr shard" "it_collection 4 256 (sc ! 2) = Inr paths"
      "it_children (sc ! 2) = Inr sibs" "\<forall>c \<in> set sibs. \<exists>bs. it_bytes 32 c = Inr bs"
    using assms(2) unfolding read_shard_cert_def by (auto simp: result_iff for_each_Inr)
  have "typed 39003 3 it = Inr sc" using typed_of_tagged [OF assms(1) *(1)] by simp
  moreover have "list_of_bytes (sc ! 2) = Inr ()"
    using *(3-5) unfolding list_of_bytes_def it_collection_def by (auto simp: for_each_Inr field_reads split: if_split_asm)
  ultimately show ?thesis using *(2) unfolding typed_shard_cert_def by (auto simp: rbind_Inr_iff field_reads)
qed

lemma typed_tree_cert_of_read:
  assumes "scanned it" "read_tree_cert it = Inr (tc, paths)"
  shows "typed_tree_cert it = Inr ()"
proof -
  obtain p steps where *: "it_tagged 3 39004 it = Inr tc" "it_uint 0xffffffff (tc ! 1) = Inr p" "it_collection 4 32 (tc ! 2) = Inr paths"
      "it_children (tc ! 2) = Inr steps" "\<forall>c \<in> set steps. read_step c = Inr ()"
    using assms(2) unfolding read_tree_cert_def by (auto simp: result_iff for_each_Inr)
  have "typed 39004 3 it = Inr tc" using typed_of_tagged [OF assms(1) *(1)] by simp
  moreover have "typed_step c = Inr ()" if "read_step c = Inr ()" for c
    using that unfolding read_step_def typed_step_def by (auto simp: result_iff field_reads)
  ultimately show ?thesis using *(2-5) unfolding typed_tree_cert_def it_collection_def
    by (auto simp: rbind_Inr_iff field_reads for_each_Inr split: if_split_asm)
qed

lemma typed_signatures_of_read: "read_signatures its = Inr () \<Longrightarrow> \<forall>c \<in> set its. length (it_data c) \<le> USIZE_MAX \<Longrightarrow> typed_signatures its = Inr ()"
  by (induction its rule: read_signatures.induct) (auto simp: rbind_Inr_iff field_reads it_blob_def bytes_like_def split: if_split_asm)

lemma typed_seal_of_read:
  assumes "scanned it" "read_seal it = Inr (sf, sigs)"
  shows "typed_seal it = Inr ()"
proof -
  obtain pairs where *: "it_tagged 8 39005 it = Inr sf" "\<exists>v. it_uint 0xffff (sf ! 1) = Inr v"
      "\<forall>c \<in> set (take 3 (drop 2 sf)). \<exists>v. it_uint (-1) c = Inr v" "\<exists>bs. it_bytes 32 (sf ! 5) = Inr bs" "\<exists>bs. it_bytes 32 (sf ! 6) = Inr bs"
      "it_collection 5 64 (sf ! 7) = Inr sigs" "it_children (sf ! 7) = Inr pairs" "read_signatures pairs = Inr ()"
    using assms(2) unfolding read_seal_def by (auto simp: result_iff for_each_Inr)
  have typed: "typed 39005 8 it = Inr sf" "it_uint 1 (sf ! 0) = Inr 1" using typed_of_tagged [OF assms(1) *(1)] by simp_all
  have kind: "it_null (sf ! 7) \<or> it_major (sf ! 7) = 5" using *(6) unfolding it_collection_def by (auto split: if_split_asm)
  have "scanned (sf ! 7)" using yieldsD(1) [OF yields_tagged [OF assms(1)] *(1)] by simp
  then have "\<forall>c \<in> set pairs. scanned c" using yieldsD(1) [OF yields_children *(7)] kind by blast
  then have "\<forall>c \<in> set pairs. length (it_data c) \<le> USIZE_MAX" using scanned_slices by (fastforce simp: slice_def USIZE_MAX_def)
  then have "typed_signatures pairs = Inr ()" using typed_signatures_of_read *(8) by blast
  then show ?thesis using *(2-5,7) typed kind unfolding typed_seal_def by (auto simp: rbind_Inr_iff field_reads for_each_Inr)
qed

lemma wf_tree_typed: "wf_tree True True d t \<Longrightarrow> wf_tree False True d t"
  by (induction t arbitrary: d) auto

lemma typed_scan:
  assumes "slice raw" "cbor_one 0 raw = Inr (it, tok)"
  shows "one_typed MAX_ITEMS 0 raw = Inr (it, tok)"
  using assms(2) wf_tree_typed unfolding cbor_one_def one_capped_def one_typed_def scan_whole_exact [OF assms(1)] by blast

lemma read_body_typed:
  assumes "slice raw" "cbor_one 0 raw = Inr (it, tok)" "it_tagged 7 39001 it = Inr uc" "read_body uc = Inr parts"
  shows "certificate_shape raw = Inr ()"
proof -
  have it: "scanned it" using yieldsD(1) [OF yields_one [OF assms(1)] assms(2)] by simp
  have uc: "length uc = 7" "\<forall>c \<in> set uc. scanned c" using yieldsD(1) [OF yields_tagged [OF it] assms(3)] by simp_all
  obtain ir sc siblings tc steps sf sigs bs bs' where *: "read_ir (uc ! 1) = Inr ir" "it_bytes 32 (uc ! 2) = Inr bs" "it_bytes 32 (uc ! 3) = Inr bs'"
      "read_shard_cert (uc ! 4) = Inr (sc, siblings)" "read_tree_cert (uc ! 5) = Inr (tc, steps)" "read_seal (uc ! 6) = Inr (sf, sigs)"
    using assms(4) unfolding read_body_def by (auto simp: result_iff)
  have "scanned (uc ! 1)" "scanned (uc ! 4)" "scanned (uc ! 5)" "scanned (uc ! 6)" using uc by simp_all
  then have "typed_ir (uc ! 1) = Inr ()" "typed_shard_cert (uc ! 4) = Inr ()" "typed_tree_cert (uc ! 5) = Inr ()" "typed_seal (uc ! 6) = Inr ()"
    using * typed_ir_of_read typed_shard_cert_of_read typed_tree_cert_of_read typed_seal_of_read by blast+
  then show ?thesis
    unfolding certificate_shape_def typed_scan [OF assms(1,2)] using typed_of_tagged [OF it assms(3)] *(2,3) by (simp add: field_reads)
qed

end
