(* ===== verification/B1_Claims.thy ===== *)
theory B1_Claims
  imports B1_Certificate
begin

text \<open>
  The claims the certificate kernel accepts, from the side that writes them: a certificate as a record of its
  fields, its tree and the packed claim around its encoding. The parser reads back what was packed, field by
  field; the properties of the certificate component follow, with a packed claim as their witness.
\<close>

section \<open>Reading trees\<close>

definition tree_ok :: "cbor \<Rightarrow> bool" where
  "tree_ok t \<longleftrightarrow> wf_tree False False 0 t \<and> slice (enc t)"

lemma tree_ok_scanned: "tree_ok t \<Longrightarrow> scanned (tree_item t)"
  by (auto simp: tree_ok_def scanned_def)

lemma tree_ok_member:
  assumes "slice (concat (map enc ts))" "\<forall>t \<in> set ts. wf_tree False False 1 t" "t \<in> set ts"
  shows "tree_ok t"
proof -
  have "length (enc t) \<le> length (concat (map enc ts))"
    unfolding length_concat using assms(3) by (auto intro: member_le_sum_list)
  then show ?thesis using assms wf_tree_loosen [of False False 1 t 0] by (auto simp: tree_ok_def slice_def)
qed

lemma tree_ok_parts:
  "tree_ok (CArray ts) \<Longrightarrow> t \<in> set ts \<Longrightarrow> tree_ok t"
  "tree_ok (CMap ts) \<Longrightarrow> t \<in> set ts \<Longrightarrow> tree_ok t"
  "tree_ok (CTag n t) \<Longrightarrow> tree_ok t"
proof -
  show "tree_ok (CArray ts) \<Longrightarrow> t \<in> set ts \<Longrightarrow> tree_ok t" "tree_ok (CMap ts) \<Longrightarrow> t \<in> set ts \<Longrightarrow> tree_ok t"
    using tree_ok_member [of ts t] slice_suffix by (auto simp: tree_ok_def)
  show "tree_ok (CTag n t) \<Longrightarrow> tree_ok t"
    using wf_tree_loosen [of False False 1 t 0] slice_suffix by (auto simp: tree_ok_def)
qed

lemma tree_item_fields [simp]:
  "it_raw (tree_item t) = enc t" "it_major (tree_item t) = fst (tree_head t)" "it_arg (tree_item t) = snd (tree_head t)"
  "it_data (tree_item t) = tree_data t"
  by (simp_all add: tree_item_def)

lemma children_tree:
  "tree_ok (CArray ts) \<Longrightarrow> it_children (tree_item (CArray ts)) = Inr (map tree_item ts)"
  "tree_ok (CMap ts) \<Longrightarrow> it_children (tree_item (CMap ts)) = Inr (map tree_item ts)"
  "it_children (tree_item CNull) = Inr []"
  using children_of_trees [of ts False False 1] slice_suffix
  by (auto simp: it_children_def it_null_def tree_ok_def)

lemma array_tree:
  "tree_ok (CArray ts) \<Longrightarrow> it_array (length ts) (tree_item (CArray ts)) = Inr (map tree_item ts)"
  by (simp add: it_array_def children_tree)

lemma tagged_tree:
  assumes "tree_ok (CTag tag (CArray (CUint 1 # ts)))" "n = Suc (length ts)"
  shows "it_tagged n tag (tree_item (CTag tag (CArray (CUint 1 # ts)))) = Inr (map tree_item (CUint 1 # ts))"
proof -
  have "tree_ok (CArray (CUint 1 # ts))" using tree_ok_parts(3) [OF assms(1)] .
  then have "it_array (Suc (length ts)) (tree_item (CArray (CUint 1 # ts))) = Inr (map tree_item (CUint 1 # ts))"
    using array_tree [of "CUint 1 # ts"] by simp
  moreover have "cbor_item (tree_data (CTag tag (CArray (CUint 1 # ts)))) = Inr (tree_item (CArray (CUint 1 # ts)))"
    by (simp only: tree_data.simps cbor_item_enc)
  ultimately show ?thesis unfolding assms(2) by (simp add: it_tagged_def it_uint_def del: tree_data.simps)
qed

section \<open>Certificates\<close>

record certificate =
  ct_round :: u64
  ct_epoch :: u64
  ct_previous :: "bytes option"
  ct_state :: bytes
  ct_summary :: "bytes option"
  ct_timestamp :: u64
  ct_block :: "bytes option"
  ct_fees :: u64
  ct_executed :: "bytes option"
  ct_tr :: bytes
  ct_config :: bytes
  ct_shard :: bytes
  ct_siblings :: "bytes list"
  ct_partition :: u32
  ct_steps :: "(u32 \<times> bytes) list"
  ct_network :: u16
  ct_root_round :: u64
  ct_root_epoch :: u64
  ct_root_time :: u64
  ct_root_previous :: bytes
  ct_root_hash :: bytes
  ct_signatures :: "(bytes \<times> bytes) list"

definition opt_tree :: "bytes option \<Rightarrow> cbor" where
  "opt_tree b = (case b of None \<Rightarrow> CNull | Some bs \<Rightarrow> CBytes bs)"

definition ir_tree :: "certificate \<Rightarrow> cbor" where
  "ir_tree c = CTag 39002 (CArray [CUint 1, CUint (ct_round c), CUint (ct_epoch c), opt_tree (ct_previous c), CBytes (ct_state c),
     opt_tree (ct_summary c), CUint (ct_timestamp c), opt_tree (ct_block c), CUint (ct_fees c), opt_tree (ct_executed c)])"

definition shard_tree :: "certificate \<Rightarrow> cbor" where
  "shard_tree c = CTag 39003 (CArray [CUint 1, CBytes (ct_shard c), CArray (map CBytes (ct_siblings c))])"

definition path_tree :: "certificate \<Rightarrow> cbor" where
  "path_tree c = CTag 39004 (CArray [CUint 1, CUint (ucast (ct_partition c)),
     CArray (map (\<lambda>(k, s). CArray [CUint (ucast k), CBytes s]) (ct_steps c))])"

definition seal_tree :: "certificate \<Rightarrow> cbor" where
  "seal_tree c = CTag 39005 (CArray [CUint 1, CUint (ucast (ct_network c)), CUint (ct_root_round c), CUint (ct_root_epoch c),
     CUint (ct_root_time c), CBytes (ct_root_previous c), CBytes (ct_root_hash c),
     CMap (concat (map (\<lambda>(k, s). [CText k, CBytes s]) (ct_signatures c)))])"

definition uc_tree :: "certificate \<Rightarrow> cbor" where
  "uc_tree c = CTag 39001 (CArray [CUint 1, ir_tree c, CBytes (ct_tr c), CBytes (ct_config c), shard_tree c, path_tree c, seal_tree c])"

definition hash_ok :: "bytes option \<Rightarrow> bool" where
  "hash_ok b \<longleftrightarrow> (case b of None \<Rightarrow> True | Some bs \<Rightarrow> length bs = 32)"

definition certificate_ok :: "certificate \<Rightarrow> bool" where
  "certificate_ok c \<longleftrightarrow> hash_ok (ct_previous c) \<and> length (ct_state c) = 32 \<and>
     (case ct_summary c of None \<Rightarrow> True | Some bs \<Rightarrow> length bs \<le> 256) \<and> hash_ok (ct_block c) \<and> hash_ok (ct_executed c) \<and>
     length (ct_tr c) = 32 \<and> length (ct_config c) = 32 \<and> (\<exists>d. shard_depth (ct_shard c) = Inr d) \<and>
     length (ct_siblings c) \<le> 256 \<and> (\<forall>s \<in> set (ct_siblings c). length s = 32) \<and>
     length (ct_steps c) \<le> 32 \<and> (\<forall>(k, s) \<in> set (ct_steps c). length s = 32) \<and>
     length (ct_root_previous c) = 32 \<and> length (ct_root_hash c) = 32 \<and> length (ct_signatures c) \<le> 64 \<and>
     sorted_wrt (\<lambda>k l. enc (CText k) < enc (CText l)) (map fst (ct_signatures c)) \<and>
     (\<forall>(k, s) \<in> set (ct_signatures c). utf8_valid k \<and> length k \<le> 128 \<and> length s \<le> USIZE_MAX)"

lemma shard_depth_length: "shard_depth b = Inr d \<Longrightarrow> 1 \<le> length b \<and> length b \<le> 33"
  by (auto simp: shard_depth_def Let_def Suc_le_eq split: if_split_asm)

lemma signature_keys: "keys_from 0 (concat (map (\<lambda>(k, s). [CText k, CBytes s]) sigs)) = map (\<lambda>k. enc (CText k)) (map fst sigs)"
proof -
  have "even i \<Longrightarrow> keys_from i (concat (map (\<lambda>(k, s). [CText k, CBytes s]) sigs)) = map (\<lambda>k. enc (CText k)) (map fst sigs)" for i
    by (induction sigs arbitrary: i) auto
  then show ?thesis by simp
qed

lemma ir_tree_wf: "certificate_ok c \<Longrightarrow> d \<le> 14 \<Longrightarrow> wf_tree True True d (ir_tree c)"
  by (auto simp: ir_tree_def opt_tree_def split: option.split)

lemma shard_tree_wf: "d \<le> 13 \<Longrightarrow> wf_tree True True d (shard_tree c)"
  by (auto simp: shard_tree_def)

lemma path_tree_wf: "d \<le> 12 \<Longrightarrow> wf_tree True True d (path_tree c)"
  by (auto simp: path_tree_def)

lemma seal_tree_wf:
  assumes "certificate_ok c" "d \<le> 13"
  shows "wf_tree True True d (seal_tree c)"
proof -
  define m where "m = concat (map (\<lambda>(k, s). [CText k, CBytes s]) (ct_signatures c))"
  have len: "length m = 2 * length (ct_signatures c)"
    unfolding m_def by (simp add: length_concat comp_def case_prod_beta sum_list_triv)
  have "sorted_wrt (<) (keys_from 0 m)"
    unfolding m_def signature_keys sorted_wrt_map using assms(1) by (simp add: certificate_ok_def sorted_wrt_map)
  moreover have "\<forall>t \<in> set m. wf_tree True True (Suc (Suc (Suc d))) t" using assms(1) unfolding m_def by (auto simp: certificate_ok_def)
  moreover have "length m \<le> 128" using assms(1) len by (simp add: certificate_ok_def)
  ultimately show ?thesis using assms(2) len unfolding seal_tree_def m_def [symmetric] by simp
qed

lemma uc_tree_wf: "certificate_ok c \<Longrightarrow> wf_tree True True 0 (uc_tree c)"
  unfolding uc_tree_def using ir_tree_wf [of c 2] shard_tree_wf [of 2 c] path_tree_wf [of 2 c] seal_tree_wf [of c 2]
  by (simp add: numeral_2_eq_2)

lemma read_hash_tree: "hash_ok b \<Longrightarrow> nullable_hash (tree_item (opt_tree b)) = Inr ()"
  by (auto simp: nullable_hash_def hash_ok_def opt_tree_def it_null_def it_bytes_def split: option.split)

lemma read_ir_tree:
  assumes "tree_ok (ir_tree c)" "certificate_ok c"
  shows "read_ir (tree_item (ir_tree c)) = Inr (map tree_item [CUint 1, CUint (ct_round c), CUint (ct_epoch c), opt_tree (ct_previous c),
    CBytes (ct_state c), opt_tree (ct_summary c), CUint (ct_timestamp c), opt_tree (ct_block c), CUint (ct_fees c), opt_tree (ct_executed c)])"
    (is "_ = Inr (map tree_item (CUint 1 # ?ts))")
proof -
  have "it_tagged 10 39002 (tree_item (ir_tree c)) = Inr (map tree_item (CUint 1 # ?ts))"
    using assms(1) unfolding ir_tree_def by (rule tagged_tree) simp
  moreover have "it_null (tree_item (opt_tree (ct_summary c))) \<or> (\<exists>bs. it_blob 2 0 256 (tree_item (opt_tree (ct_summary c))) = Inr bs)"
    using assms(2) by (auto simp: certificate_ok_def opt_tree_def it_null_def it_blob_def split: option.splits)
  ultimately show ?thesis using assms(2) unfolding read_ir_def
    by (auto simp: certificate_ok_def it_uint_def it_bytes_def read_hash_tree)
qed

lemma read_shard_tree:
  assumes "tree_ok (shard_tree c)" "certificate_ok c"
  shows "read_shard_cert (tree_item (shard_tree c)) =
    Inr (map tree_item [CUint 1, CBytes (ct_shard c), CArray (map CBytes (ct_siblings c))], of_nat (length (ct_siblings c)))"
proof -
  let ?ts = "[CBytes (ct_shard c), CArray (map CBytes (ct_siblings c))]"
  have tagged: "it_tagged 3 39003 (tree_item (shard_tree c)) = Inr (map tree_item (CUint 1 # ?ts))"
    using assms(1) unfolding shard_tree_def by (rule tagged_tree) simp
  have "tree_ok (CArray (CUint 1 # ?ts))" using tree_ok_parts(3) assms(1) unfolding shard_tree_def by blast
  then have "tree_ok (CArray (map CBytes (ct_siblings c)))" using tree_ok_parts(1) [of "CUint 1 # ?ts"] by simp
  from children_tree(1) [OF this]
  have kids: "it_children (tree_item (CArray (map CBytes (ct_siblings c)))) = Inr (map (\<lambda>s. tree_item (CBytes s)) (ct_siblings c))"
    by (simp add: comp_def)
  obtain d where d: "shard_depth (ct_shard c) = Inr d" using assms(2) unfolding certificate_ok_def by blast
  have "it_collection 4 256 (tree_item (CArray (map CBytes (ct_siblings c)))) = Inr (of_nat (length (ct_siblings c)))"
    using assms(2) by (simp add: it_collection_def it_null_def certificate_ok_def word_less_nat_alt unat_length)
  moreover have "for_each (it_bytes 32) (map (\<lambda>s. tree_item (CBytes s)) (ct_siblings c)) = Inr ()"
    using assms(2) by (auto simp: for_each_Inr it_bytes_def certificate_ok_def)
  moreover have "ct_shard c \<noteq> []" "length (ct_shard c) \<le> 33" using shard_depth_length [OF d] by auto
  ultimately show ?thesis using d tagged kids unfolding read_shard_cert_def by (simp add: it_blob_def)
qed

definition step_tree :: "u32 \<times> bytes \<Rightarrow> cbor" where
  "step_tree = (\<lambda>(k, s). CArray [CUint (ucast k), CBytes s])"

lemma ucast_u32_bound: "(ucast (w :: u32) :: u64) \<le> 0xffffffff"
proof -
  have "unat w < 2 ^ 32" using unat_less_pow [of w] by simp
  then show ?thesis by (simp add: word_le_nat_alt unat_ucast_up)
qed

lemma read_path_tree:
  assumes "tree_ok (path_tree c)" "certificate_ok c"
  shows "read_tree_cert (tree_item (path_tree c)) =
    Inr (map tree_item [CUint 1, CUint (ucast (ct_partition c)), CArray (map step_tree (ct_steps c))], of_nat (length (ct_steps c)))"
proof -
  let ?ts = "[CUint (ucast (ct_partition c)), CArray (map step_tree (ct_steps c))]"
  have tree: "path_tree c = CTag 39004 (CArray (CUint 1 # ?ts))" by (simp add: path_tree_def step_tree_def)
  have tagged: "it_tagged 3 39004 (tree_item (path_tree c)) = Inr (map tree_item (CUint 1 # ?ts))"
    using assms(1) unfolding tree by (rule tagged_tree) simp
  have "tree_ok (CArray (CUint 1 # ?ts))" using tree_ok_parts(3) assms(1) unfolding tree by blast
  then have ok: "tree_ok (CArray (map step_tree (ct_steps c)))" using tree_ok_parts(1) [of "CUint 1 # ?ts"] by simp
  from children_tree(1) [OF this]
  have kids: "it_children (tree_item (CArray (map step_tree (ct_steps c)))) = Inr (map (\<lambda>s. tree_item (step_tree s)) (ct_steps c))"
    by (simp add: comp_def)
  have "it_collection 4 32 (tree_item (CArray (map step_tree (ct_steps c)))) = Inr (of_nat (length (ct_steps c)))"
    using assms(2) by (simp add: it_collection_def it_null_def certificate_ok_def word_less_nat_alt unat_length)
  moreover have "read_step (tree_item (step_tree s)) = Inr ()" if "s \<in> set (ct_steps c)" for s
  proof -
    obtain k h where s: "s = (k, h)" by (cases s)
    have "step_tree s \<in> set (map step_tree (ct_steps c))" using that by simp
    from tree_ok_parts(1) [OF ok this] have "tree_ok (CArray [CUint (ucast k), CBytes h])" by (simp add: s step_tree_def)
    then have "it_array 2 (tree_item (CArray [CUint (ucast k), CBytes h])) = Inr (map tree_item [CUint (ucast k), CBytes h])"
      using array_tree [of "[CUint (ucast k), CBytes h]"] by (simp add: numeral_2_eq_2)
    moreover have "length h = 32" using assms(2) that unfolding s certificate_ok_def by auto
    ultimately show ?thesis using ucast_u32_bound [of k] unfolding s step_tree_def read_step_def by (simp add: it_uint_def it_bytes_def not_less)
  qed
  then have "for_each read_step (map (\<lambda>s. tree_item (step_tree s)) (ct_steps c)) = Inr ()" by (auto simp: for_each_Inr)
  ultimately show ?thesis using tagged kids ucast_u32_bound [of "ct_partition c"] unfolding read_tree_cert_def
    by (simp add: it_uint_def not_less)
qed

definition signature_trees :: "(bytes \<times> bytes) list \<Rightarrow> cbor list" where
  "signature_trees sigs = concat (map (\<lambda>(k, s). [CText k, CBytes s]) sigs)"

lemma length_signature_trees: "length (signature_trees sigs) = 2 * length sigs"
  unfolding signature_trees_def by (simp add: length_concat comp_def case_prod_beta sum_list_triv)

lemma read_signature_trees:
  "\<forall>(k, s) \<in> set sigs. length k \<le> 128 \<and> length s \<le> USIZE_MAX \<Longrightarrow> read_signatures (map tree_item (signature_trees sigs)) = Inr ()"
  by (induction sigs) (auto simp: signature_trees_def it_blob_def)

lemma read_seal_tree:
  assumes "tree_ok (seal_tree c)" "certificate_ok c"
  shows "read_seal (tree_item (seal_tree c)) =
    Inr (map tree_item [CUint 1, CUint (ucast (ct_network c)), CUint (ct_root_round c), CUint (ct_root_epoch c),
      CUint (ct_root_time c), CBytes (ct_root_previous c), CBytes (ct_root_hash c), CMap (signature_trees (ct_signatures c))],
      of_nat (length (ct_signatures c)))" (is "_ = Inr (map tree_item (CUint 1 # ?ts), _)")
proof -
  let ?m = "CMap (signature_trees (ct_signatures c))"
  have tree: "seal_tree c = CTag 39005 (CArray (CUint 1 # ?ts))" by (simp add: seal_tree_def signature_trees_def)
  have tagged: "it_tagged 8 39005 (tree_item (seal_tree c)) = Inr (map tree_item (CUint 1 # ?ts))"
    using assms(1) unfolding tree by (rule tagged_tree) simp
  have "tree_ok (CArray (CUint 1 # ?ts))" using tree_ok_parts(3) assms(1) unfolding tree by blast
  then have ok: "tree_ok ?m" using tree_ok_parts(1) [of "CUint 1 # ?ts"] by simp
  note kids = children_tree(2) [OF ok]
  have n: "length (ct_signatures c) \<le> 64" using assms(2) by (simp add: certificate_ok_def)
  have "it_collection 5 64 (tree_item ?m) = Inr (of_nat (length (ct_signatures c)))"
    using n by (simp add: it_collection_def it_null_def length_signature_trees word_less_nat_alt unat_length)
  moreover have "read_signatures (map tree_item (signature_trees (ct_signatures c))) = Inr ()"
    using assms(2) by (intro read_signature_trees) (auto simp: certificate_ok_def)
  moreover have "(ucast (ct_network c) :: u64) \<le> 0xffff"
    using unat_less_pow [of "ct_network c"] by (simp add: word_le_nat_alt unat_ucast_up)
  ultimately show ?thesis using tagged kids assms(2) unfolding read_seal_def
    by (simp add: it_uint_def it_bytes_def not_less certificate_ok_def numeral_eq_Suc)
qed

section \<open>Packed claims\<close>

definition claim_of :: "u32 \<Rightarrow> bytes \<Rightarrow> bytes \<Rightarrow> bytes \<Rightarrow> bytes \<Rightarrow> certificate \<Rightarrow> claim" where
  "claim_of part shard config state ir_hash c =
     \<lparr>cl_partition = part, cl_shard = shard, cl_config = config, cl_state = state, cl_ir_hash = ir_hash,
      cl_ir = tree_item (ir_tree c), cl_tr = tree_item (CBytes (ct_tr c)), cl_conf = tree_item (CBytes (ct_config c)),
      cl_shard_cert = map tree_item [CUint 1, CBytes (ct_shard c), CArray (map CBytes (ct_siblings c))],
      cl_tree_cert = map tree_item [CUint 1, CUint (ucast (ct_partition c)), CArray (map step_tree (ct_steps c))],
      cl_seal = tree_item (seal_tree c),
      cl_seal_fields = map tree_item [CUint 1, CUint (ucast (ct_network c)), CUint (ct_root_round c), CUint (ct_root_epoch c),
        CUint (ct_root_time c), CBytes (ct_root_previous c), CBytes (ct_root_hash c), CMap (signature_trees (ct_signatures c))]\<rparr>"

definition pack_claim :: "u32 \<Rightarrow> bytes \<Rightarrow> bytes \<Rightarrow> bytes \<Rightarrow> bytes \<Rightarrow> certificate \<Rightarrow> bytes" where
  "pack_claim part shard config state ir_hash c =
     nat_be 4 (unat part) @ nat_be 2 (length shard) @ shard @ config @ state @ ir_hash @
     nat_be 4 (length (enc (uc_tree c))) @ enc (uc_tree c)"

definition uc_parts :: "certificate \<Rightarrow> cbor list" where
  "uc_parts c = [ir_tree c, CBytes (ct_tr c), CBytes (ct_config c), shard_tree c, path_tree c, seal_tree c]"

lemma tagged_uc_tree:
  "tree_ok (uc_tree c) \<Longrightarrow> it_tagged 7 39001 (tree_item (uc_tree c)) = Inr (map tree_item (CUint 1 # uc_parts c))"
  unfolding uc_tree_def uc_parts_def by (erule tagged_tree) simp

lemma read_body_tree:
  assumes "tree_ok (uc_tree c)" "certificate_ok c"
  shows "read_body (map tree_item (CUint 1 # uc_parts c)) =
      Inr (map tree_item [CUint 1, CBytes (ct_shard c), CArray (map CBytes (ct_siblings c))],
        map tree_item [CUint 1, CUint (ucast (ct_partition c)), CArray (map step_tree (ct_steps c))],
        map tree_item [CUint 1, CUint (ucast (ct_network c)), CUint (ct_root_round c), CUint (ct_root_epoch c),
          CUint (ct_root_time c), CBytes (ct_root_previous c), CBytes (ct_root_hash c), CMap (signature_trees (ct_signatures c))],
        of_nat (length (ct_siblings c) + length (ct_steps c)), of_nat (length (ct_signatures c)))"
proof -
  have "tree_ok (CArray (CUint 1 # uc_parts c))" using tree_ok_parts(3) assms(1) unfolding uc_tree_def uc_parts_def by blast
  then have ok: "tree_ok (ir_tree c)" "tree_ok (shard_tree c)" "tree_ok (path_tree c)" "tree_ok (seal_tree c)"
    using tree_ok_parts(1) [of "CUint 1 # uc_parts c"] unfolding uc_parts_def by simp_all
  have "it_bytes 32 (tree_item (CBytes (ct_tr c))) = Inr (ct_tr c)" "it_bytes 32 (tree_item (CBytes (ct_config c))) = Inr (ct_config c)"
    using assms(2) by (simp_all add: it_bytes_def certificate_ok_def)
  then show ?thesis
    using read_ir_tree [OF ok(1) assms(2)] read_shard_tree [OF ok(2) assms(2)] read_path_tree [OF ok(3) assms(2)] read_seal_tree [OF ok(4) assms(2)]
    unfolding read_body_def uc_parts_def by (simp add: max_def)
qed

lemma parse_packed:
  assumes "certificate_ok c" "shard_depth shard = Inr d" "length config = 32" "length state = 32" "length ir_hash = 32"
    and "length (enc (uc_tree c)) \<le> 24576" "tokens + nodes (uc_tree c) \<le> 32768"
  shows "parse_claim (pack_claim part shard config state ir_hash c @ r) tokens =
    Inr (\<lparr>pa_claim = claim_of part shard config state ir_hash c, pa_paths = of_nat (length (ct_siblings c) + length (ct_steps c)),
      pa_sigs = of_nat (length (ct_signatures c))\<rparr>, r, tokens + nodes (uc_tree c))"
proof -
  have slice: "slice (enc (uc_tree c))" using assms(6) by (simp add: slice_def)
  then have ok: "tree_ok (uc_tree c)" using uc_tree_wf [OF assms(1)] wf_tree_loosen by (auto simp: tree_ok_def)
  have one: "cbor_one tokens (enc (uc_tree c)) = Inr (tree_item (uc_tree c), tokens + nodes (uc_tree c))"
    unfolding cbor_one_def one_capped_def scan_whole_exact [OF slice] MAX_ITEMS_def using uc_tree_wf [OF assms(1)] assms(7) by auto
  have sl: "length shard \<le> 33" "unat (of_nat (length shard) :: u64) = length shard" using shard_depth_length [OF assms(2)] by (auto intro: unat_length)
  have ul: "unat (of_nat (length (enc (uc_tree c))) :: u64) = length (enc (uc_tree c))" using assms(6) by (intro unat_length) simp
  have part: "rd_uint 4 (nat_be 4 (unat part) @ xs) = Inr (ucast part, xs)" for xs
    using unat_less_pow [of part] by (subst rd_uint_eq) (simp_all add: unat_ucast_up)
  have shl: "rd_uint 2 (nat_be 2 (length shard) @ xs) = Inr (of_nat (length shard), xs)" for xs
    using sl by (subst rd_uint_eq) simp_all
  have ucl: "rd_uint 4 (nat_be 4 (length (enc (uc_tree c))) @ xs) = Inr (of_nat (length (enc (uc_tree c))), xs)" for xs
    using ul assms(6) by (subst rd_uint_eq) simp_all
  have take: "length xs = n \<Longrightarrow> rd_take n (xs @ ys) = Inr (xs, ys)" for n and xs ys :: bytes by (simp add: rd_take_def)
  have narrow: "ucast (ucast part :: u64) = part" by (rule ucast_widened) simp
  show ?thesis
    unfolding parse_claim_def pack_claim_def append_assoc part shl ucl rbind.simps prod.case sl(2) ul take [OF refl] take [OF assms(3)]
      take [OF assms(4)] take [OF assms(5)] assms(2) one tagged_uc_tree [OF ok] read_body_tree [OF ok assms(1)] narrow
    using sl(1) assms(6) by (simp add: claim_of_def uc_parts_def)
qed

section \<open>A certificate\<close>

definition sample_certificate :: certificate where
  "sample_certificate = \<lparr>ct_round = 0, ct_epoch = 0, ct_previous = Some (replicate 32 0), ct_state = replicate 32 0, ct_summary = Some [],
     ct_timestamp = 0, ct_block = None, ct_fees = 0, ct_executed = None, ct_tr = replicate 32 0, ct_config = replicate 32 0,
     ct_shard = [0x80], ct_siblings = [], ct_partition = 1, ct_steps = [], ct_network = 3, ct_root_round = 5, ct_root_epoch = 2,
     ct_root_time = 1700000000, ct_root_previous = replicate 32 0, ct_root_hash = b256_bytes 7,
     ct_signatures = [([0x61], replicate 65 1)]\<rparr>"

lemma sample_trees:
  "certificate_ok sample_certificate" "length (enc (uc_tree sample_certificate)) \<le> 24576" "nodes (uc_tree sample_certificate) \<le> 64"
  "shard_depth [0x80] = Inr 0"
proof -
  show depth: "shard_depth [0x80] = Inr 0" by code_simp
  have "utf8_valid [0x61]" by (simp add: ascii_def)
  then show "certificate_ok sample_certificate"
    using depth by (simp add: certificate_ok_def sample_certificate_def hash_ok_def USIZE_MAX_def)
  show "nodes (uc_tree sample_certificate) \<le> 64"
    by (simp add: uc_tree_def ir_tree_def shard_tree_def path_tree_def seal_tree_def opt_tree_def sample_certificate_def)
  show "length (enc (uc_tree sample_certificate)) \<le> 24576"
    by (simp add: uc_tree_def ir_tree_def shard_tree_def path_tree_def seal_tree_def opt_tree_def sample_certificate_def major_def)
qed

abbreviation sample_claim :: claim where
  "sample_claim \<equiv> claim_of 1 [0x80] (replicate 32 0) (replicate 32 0) (b256_bytes 7) sample_certificate"

abbreviation sample_packed :: bytes where
  "sample_packed \<equiv> pack_claim 1 [0x80] (replicate 32 0) (replicate 32 0) (b256_bytes 7) sample_certificate"

lemma sample_parsed:
  "parse_claim (sample_packed @ r) 0 =
    Inr (\<lparr>pa_claim = sample_claim, pa_paths = 0, pa_sigs = 1\<rparr>, r, nodes (uc_tree sample_certificate))"
  using parse_packed [of sample_certificate "[0x80]" 0 "replicate 32 0" "replicate 32 0" "b256_bytes 7" 0 1 r] sample_trees
  by (simp add: sample_certificate_def [THEN arg_cong, of ct_siblings] sample_certificate_def [THEN arg_cong, of ct_steps]
      sample_certificate_def [THEN arg_cong, of ct_signatures])

lemma sample_slice: "slice (enc (uc_tree sample_certificate))" "slice sample_packed"
  using sample_trees(2) by (simp_all add: slice_def pack_claim_def)

lemma sample_parts:
  "tree_ok (uc_tree sample_certificate)" "tree_ok (ir_tree sample_certificate)"
  "tree_ok (CArray (map CBytes (ct_siblings sample_certificate)))" "tree_ok (CArray (map step_tree (ct_steps sample_certificate)))"
proof -
  show uc: "tree_ok (uc_tree sample_certificate)"
    using uc_tree_wf [OF sample_trees(1)] wf_tree_loosen sample_slice by (auto simp: tree_ok_def)
  then have "tree_ok (CArray (CUint 1 # uc_parts sample_certificate))" using tree_ok_parts(3) unfolding uc_tree_def uc_parts_def by blast
  then show "tree_ok (ir_tree sample_certificate)" using tree_ok_parts(1) [of "CUint 1 # uc_parts sample_certificate"] unfolding uc_parts_def by simp
  show "tree_ok (CArray (map CBytes (ct_siblings sample_certificate)))" "tree_ok (CArray (map step_tree (ct_steps sample_certificate)))"
    by (simp_all add: sample_certificate_def tree_ok_def slice_def major_def)
qed

lemma sample_folds: "folds (\<lambda>_. 7) sample_claim = Inr True"
proof -
  have ir: "it_tagged 10 39002 (tree_item (ir_tree sample_certificate)) = Inr (map tree_item [CUint 1, CUint 0, CUint 0, CBytes (replicate 32 0),
      CBytes (replicate 32 0), CBytes [], CUint 0, CNull, CUint 0, CNull])"
    using read_ir_tree [OF sample_parts(2) sample_trees(1)] unfolding read_ir_def by (auto simp: result_iff sample_certificate_def opt_tree_def)
  show ?thesis
    using children_tree(1) [OF sample_parts(3)] children_tree(1) [OF sample_parts(4)] sample_trees(4)
    unfolding folds_def claim_of_def claim.simps ir expect_def map_err.simps rbind.simps Let_def
    by (simp add: sample_certificate_def it_null_def b1_hash_def signature_trees_def)
qed

lemma wf_tree_up: "wf_tree strict utf8 d t \<Longrightarrow> d' \<le> d \<Longrightarrow> wf_tree strict utf8 d' t"
  by (induction t arbitrary: d d') auto

lemma one_tree: "tree_ok t \<Longrightarrow> wf_tree True True d t \<Longrightarrow> nodes t \<le> 32768 \<Longrightarrow> cbor_one 0 (enc t) = Inr (tree_item t, nodes t)"
  unfolding cbor_one_def one_capped_def MAX_ITEMS_def tree_ok_def using wf_tree_up [of True True d t 0]
  by (auto simp: scan_whole_exact intro!: exI [of _ t])

lemma required_tree:
  assumes "uc ! i = tree_item (CTag tag (CArray ts))" "tree_ok (CTag tag (CArray ts))" "wf_tree True True d (CTag tag (CArray ts))"
    and "nodes (CTag tag (CArray ts)) \<le> 32768" "of_nat (length ts) = ar" "req < length ts" "fst (tree_head (ts ! req)) = m"
  shows "required_major uc (i, tag, ar, req, m) = Inr ()"
proof -
  have ok: "tree_ok (CArray ts)" using tree_ok_parts(3) [OF assms(2)] .
  have "cbor_one 0 (tree_data (CTag tag (CArray ts))) = Inr (tree_item (CArray ts), nodes (CArray ts))"
    using one_tree [OF ok, of "d + 1"] assms(3,4) by (simp del: enc.simps)
  then show ?thesis using assms(5-7) children_tree(1) [OF ok] unfolding required_major_def prod.case Let_def assms(1) by (simp del: tree_data.simps)
qed

lemma sample_scanned: "scan_certificate (enc (uc_tree sample_certificate)) = Inr ()"
proof -
  let ?c = sample_certificate
  let ?uc = "map tree_item (CUint 1 # uc_parts ?c)"
  have len: "\<not> 24576 < length (enc (uc_tree ?c))" using sample_trees(2) by simp
  have one: "cbor_one 0 (enc (uc_tree ?c)) = Inr (tree_item (uc_tree ?c), nodes (uc_tree ?c))"
    using one_tree [OF sample_parts(1) uc_tree_wf [OF sample_trees(1)]] sample_trees(3) by simp
  have parts: "tree_ok (CArray (CUint 1 # uc_parts ?c))" using sample_parts(1) tree_ok_parts(3) unfolding uc_tree_def uc_parts_def by blast
  have ok: "tree_ok (ir_tree ?c)" "tree_ok (shard_tree ?c)" "tree_ok (path_tree ?c)" "tree_ok (seal_tree ?c)"
    using tree_ok_parts(1) [OF parts] unfolding uc_parts_def by simp_all
  have wf: "wf_tree True True 0 (ir_tree ?c)" "wf_tree True True 0 (shard_tree ?c)" "wf_tree True True 0 (path_tree ?c)" "wf_tree True True 0 (seal_tree ?c)"
    using ir_tree_wf [OF sample_trees(1)] shard_tree_wf path_tree_wf seal_tree_wf [OF sample_trees(1)] by simp_all
  note defs = ir_tree_def shard_tree_def path_tree_def seal_tree_def opt_tree_def sample_certificate_def
  have req: "required_major ?uc (1, 39002, 10, 5, 2) = Inr ()" "required_major ?uc (4, 39003, 3, 2, 4) = Inr ()"
      "required_major ?uc (5, 39004, 3, 2, 4) = Inr ()" "required_major ?uc (6, 39005, 8, 7, 5) = Inr ()"
    using ok wf by (auto intro!: required_tree [where d = 0] simp: uc_parts_def defs)
  have seal: "?uc ! 6 = tree_item (seal_tree ?c)" by (simp add: uc_parts_def)
  obtain ts where ts: "seal_tree ?c = CTag 39005 (CArray ts)" "length ts = 8" "ts ! 1 = CUint 3" "ts ! 7 = CMap [CText [0x61], CBytes (replicate 65 1)]"
      "nodes (CArray ts) \<le> 32768"
    by (simp add: seal_tree_def sample_certificate_def)
  have array: "tree_ok (CArray ts)" using ok(4) tree_ok_parts(3) unfolding ts(1) by blast
  then have map: "tree_ok (CMap [CText [0x61], CBytes (replicate 65 1)])" using tree_ok_parts(1) [OF _ nth_mem, of ts 7] ts(2,4) by simp
  have inner: "cbor_one 0 (it_data (?uc ! 6)) = Inr (tree_item (CArray ts), nodes (CArray ts))"
    unfolding seal using one_tree [OF array, of 1] wf(4) ts(5) unfolding ts(1) by simp
  show ?thesis
    using len one inner req array_tree [OF array] children_tree(2) [OF map] ts(2-4) read_body_tree [OF sample_parts(1) sample_trees(1)]
    unfolding scan_certificate_def scan_body_def by (simp add: tagged_uc_tree [OF sample_parts(1)])
qed

section \<open>Properties\<close>

text \<open>
  Claim C34. Two claims for one shard under one seal cannot both hold unless they certify the same thing: if the kernel
  parses both, both satisfy their hash relations, and they name the same seal, partition and shard, then they agree on the
  input record, the technical record, the configuration, the state and the record hash, or two different preimages
  among those the two claims hash have one SHA-256 image.
\<close>

theorem claims_bind_one_shard:
  assumes "slice r1" "slice r2" "parse_claim r1 t1 = Inr (p1, r1', t1')" "parse_claim r2 t2 = Inr (p2, r2', t2')"
    and "folds sha256 (pa_claim p1) = Inr True" "folds sha256 (pa_claim p2) = Inr True"
    and "it_raw (cl_seal (pa_claim p1)) = it_raw (cl_seal (pa_claim p2))"
    and "cl_partition (pa_claim p1) = cl_partition (pa_claim p2)" "cl_shard (pa_claim p1) = cl_shard (pa_claim p2)"
  shows "(cl_ir (pa_claim p1) = cl_ir (pa_claim p2) \<and> cl_tr (pa_claim p1) = cl_tr (pa_claim p2) \<and>
      cl_conf (pa_claim p1) = cl_conf (pa_claim p2) \<and> cl_config (pa_claim p1) = cl_config (pa_claim p2) \<and>
      cl_state (pa_claim p1) = cl_state (pa_claim p2) \<and> cl_ir_hash (pa_claim p1) = cl_ir_hash (pa_claim p2)) \<or>
    collide sha256 (claim_hashed sha256 (pa_claim p1)) (claim_hashed sha256 (pa_claim p2))"
proof -
  have shape: "claim_shape (pa_claim p1)" "claim_shape (pa_claim p2)"
    using yieldsD(1) [OF yields_parse_claim [OF assms(1)] assms(3)] yieldsD(1) [OF yields_parse_claim [OF assms(2)] assms(4)] by simp_all
  obtain ir1 where one: "it_tagged 10 39002 (cl_ir (pa_claim p1)) = Inr ir1" "it_data (ir1 ! 4) = cl_state (pa_claim p1)"
      "it_data (cl_conf (pa_claim p1)) = cl_config (pa_claim p1)" "b1_hash sha256 [it_raw (cl_ir (pa_claim p1))] = cl_ir_hash (pa_claim p1)"
    using folds_True [OF shape(1) assms(5)] by blast
  obtain ir2 where two: "it_tagged 10 39002 (cl_ir (pa_claim p2)) = Inr ir2" "it_data (ir2 ! 4) = cl_state (pa_claim p2)"
      "it_data (cl_conf (pa_claim p2)) = cl_config (pa_claim p2)" "b1_hash sha256 [it_raw (cl_ir (pa_claim p2))] = cl_ir_hash (pa_claim p2)"
    using folds_True [OF shape(2) assms(6)] by blast
  from claims_bind [OF shape assms(5-9)] show ?thesis
  proof
    assume "claim_leaf (pa_claim p1) = claim_leaf (pa_claim p2)"
    from claim_leaf_inj [OF shape this] show ?thesis using one two by auto
  qed simp
qed

theorem claims_bind_one_shard_witness:
  "folds (\<lambda>_. 7) sample_claim = Inr True \<and>
   ((cl_ir sample_claim = cl_ir sample_claim \<and> cl_tr sample_claim = cl_tr sample_claim \<and> cl_conf sample_claim = cl_conf sample_claim \<and>
     cl_config sample_claim = cl_config sample_claim \<and> cl_state sample_claim = cl_state sample_claim \<and>
     cl_ir_hash sample_claim = cl_ir_hash sample_claim) \<or>
    collide (\<lambda>_. 7) (claim_hashed (\<lambda>_. 7) sample_claim) (claim_hashed (\<lambda>_. 7) sample_claim))"
proof -
  let ?p = "\<lparr>pa_claim = sample_claim, pa_paths = 0, pa_sigs = 1\<rparr>"
  have parsed: "parse_claim sample_packed 0 = Inr (?p, [], nodes (uc_tree sample_certificate))"
    using sample_parsed [of "[]"] by simp
  have f: "folds (\<lambda>_. 7) (pa_claim ?p) = Inr True" using sample_folds by simp
  show ?thesis
    using claims_bind_one_shard [OF sample_slice(2) sample_slice(2) parsed parsed f f refl refl refl] sample_folds by (simp only: parsed.simps simp_thms)
qed

text \<open>
  Claim C35. Parsing inverts packing: for every certificate whose fields are within their native bounds, whose paths and signatures
  are present as collections (the parser also takes a null for each), whose signer identifiers are in canonical order and whose encoding fits, the parser reads the packed claim back field by field, counts its path
  items and signatures, charges the nodes of its tree to the item budget, and leaves what follows unread.
\<close>

theorem parse_claim_roundtrip:
  assumes "certificate_ok c" "shard_depth shard = Inr d" "length config = 32" "length state = 32" "length ir_hash = 32"
    and "length (enc (uc_tree c)) \<le> 24576" "tokens + nodes (uc_tree c) \<le> 32768"
  shows "parse_claim (pack_claim part shard config state ir_hash c @ r) tokens =
    Inr (\<lparr>pa_claim = claim_of part shard config state ir_hash c, pa_paths = of_nat (length (ct_siblings c) + length (ct_steps c)),
      pa_sigs = of_nat (length (ct_signatures c))\<rparr>, r, tokens + nodes (uc_tree c))"
  using assms by (rule parse_packed)

theorem parse_claim_roundtrip_witness:
  "parse_claim (sample_packed @ [9]) 100 =
    Inr (\<lparr>pa_claim = sample_claim, pa_paths = of_nat (length (ct_siblings sample_certificate) + length (ct_steps sample_certificate)),
      pa_sigs = of_nat (length (ct_signatures sample_certificate))\<rparr>, [9], 100 + nodes (uc_tree sample_certificate))"
  using sample_trees by (intro parse_claim_roundtrip [where d = 0]) simp_all

text \<open>
  Claim C36. The certificate component never panics, whatever bytes it is given: no \<open>expect\<close> of the claim parser, of the
  standalone scan or of the typed decode can fail; a parsed claim's hash relations always evaluate to a truth value; and
  once the typed decode accepts a certificate, the shard it names can be read.
\<close>

theorem certificates_never_panic:
  assumes "slice raw"
  shows "parse_claim raw tokens \<noteq> Inl Expect \<and> scan_certificate raw \<noteq> Inl Expect \<and> certificate_shape raw \<noteq> Inl Expect \<and>
    (\<forall>p r tokens'. parse_claim raw tokens = Inr (p, r, tokens') \<longrightarrow> (\<exists>valid. folds sha256 (pa_claim p) = Inr valid)) \<and>
    (certificate_shape raw = Inr () \<longrightarrow> (\<exists>shard. certificate_shard raw = Inr shard))"
proof -
  have "\<exists>valid. folds sha256 (pa_claim p) = Inr valid" if "parse_claim raw tokens = Inr (p, r, tokens')" for p r tokens'
    using yieldsD(1) [OF yields_parse_claim [OF assms] that] by (intro folds_total) simp
  then show ?thesis
    using yieldsD(2) [OF yields_parse_claim [OF assms]] yieldsD(2) [OF yields_scan_certificate]
      yieldsD(2) [OF yields_certificate_shape [OF assms]] certificate_shard_total [OF assms] by blast
qed

theorem certificates_never_panic_witness:
  "slice sample_packed \<and> (\<exists>valid. folds (\<lambda>_. 9) sample_claim = Inr valid)"
  using certificates_never_panic [OF sample_slice(2), of 0 "\<lambda>_. 9"] sample_parsed [of "[]"] sample_slice(2) by auto

text \<open>
  Claim C37. A certificate the strict scan accepts is one the typed decode accepts, and its shard can be read: the bridge
  never drops an anchor on its shape that the certificate operation would have taken.
\<close>

theorem strict_certificate_is_typed:
  assumes "slice raw" "scan_certificate raw = Inr ()"
  shows "certificate_shape raw = Inr () \<and> (\<exists>shard. certificate_shard raw = Inr shard)"
proof -
  obtain it tok uc parts where "cbor_one 0 raw = Inr (it, tok)" "it_tagged 7 39001 it = Inr uc" "read_body uc = Inr parts"
    using assms(2) unfolding scan_certificate_def scan_body_def by (auto simp: result_iff split: if_split_asm)
  from read_body_typed [OF assms(1) this] show ?thesis using certificate_shard_total [OF assms(1)] by blast
qed

theorem strict_certificate_is_typed_witness:
  "slice (enc (uc_tree sample_certificate)) \<and> scan_certificate (enc (uc_tree sample_certificate)) = Inr () \<and>
   certificate_shape (enc (uc_tree sample_certificate)) = Inr () \<and> (\<exists>shard. certificate_shard (enc (uc_tree sample_certificate)) = Inr shard)"
  using strict_certificate_is_typed [OF sample_slice(1) sample_scanned] sample_slice(1) sample_scanned by blast

end
