(* ===== verification/B1_Batch.thy ===== *)
theory B1_Batch
  imports B1_Claims Records_Hook
begin

text \<open>
  The certificate batch, \<open>b1/src/batch.rs\<close>: one registry-backed verdict for a request of several claims. The request
  is scanned and grouped and its whole charge reserved before anything is read; then the common words and the
  declared epochs are loaded, every distinct claim is folded and every distinct seal is weighed. Work is counted in
  a \<open>counters\<close> record that the evaluation threads as its state. The curve's recovery is a parameter. A further section
  holds the two precompile providers of \<open>b1/src/provider.rs\<close>. The retyping of an error that carries no host error
  (\<open>widen\<close>) is the identity here, since a scan is polymorphic in the host error.
\<close>

section \<open>Limits and charges\<close>

definition MAX_BYTES :: nat where "MAX_BYTES = 262144"
definition MAX_CLAIMS :: nat where "MAX_CLAIMS = 16"
definition MAX_SIGNATURES :: u64 where "MAX_SIGNATURES = 256"
definition MAX_SEAL_SIGNATURES :: u64 where "MAX_SEAL_SIGNATURES = 16"
definition MAX_RAW_PATHS :: u64 where "MAX_RAW_PATHS = 4608"

record limits =
  lm_bytes :: nat
  lm_claims :: nat
  lm_signatures :: u64
  lm_raw_paths :: u64
  lm_per_uc_items :: bool

definition STANDARD :: limits where
  "STANDARD = \<lparr>lm_bytes = MAX_BYTES, lm_claims = MAX_CLAIMS, lm_signatures = MAX_SIGNATURES,
     lm_raw_paths = MAX_RAW_PATHS, lm_per_uc_items = False\<rparr>"

definition COMPOSED :: limits where
  "COMPOSED = \<lparr>lm_bytes = 2 ^ 64 - 1, lm_claims = 65535, lm_signatures = -1, lm_raw_paths = -1, lm_per_uc_items = True\<rparr>"

definition READ_GAS :: u64 where "READ_GAS = 100"
definition EPOCH_WORDS :: u64 where "EPOCH_WORDS = 11 + 8 * MAX_MEMBERS"
definition COMMON_WORDS :: u64 where "COMMON_WORDS = 11"

definition batch_scan_gas :: "u64 \<Rightarrow> u64 \<Rightarrow> u64" where
  "batch_scan_gas bytes claims = 60000 + 16 * bytes + 500 * claims * (claims - 1)"

definition batch_gas :: "u64 \<Rightarrow> u64 \<Rightarrow> u64 \<Rightarrow> u64 \<Rightarrow> u64 \<Rightarrow> u64 \<Rightarrow> u64" where
  "batch_gas bytes k e q a p =
     batch_scan_gas bytes k + READ_GAS * COMMON_WORDS + (1000 * MAX_MEMBERS + READ_GAS * EPOCH_WORDS) * e +
     7200 * q + 2000 * a + 250 * p"

record dimensions =
  dm_c :: u64
  dm_k :: u64
  dm_e :: u64
  dm_s :: u64
  dm_q :: u64
  dm_a :: u64
  dm_p :: u64

definition dimensions_gas :: "dimensions \<Rightarrow> u64" where
  "dimensions_gas d = batch_gas (dm_c d) (dm_k d) (dm_e d) (dm_q d) (dm_a d) (dm_p d)"

record counters =
  co_epoch_loads :: u64
  co_key_parses :: u64
  co_quorums :: u64
  co_signatures :: u64
  co_claims :: u64
  co_folds :: u64
  co_reads :: u64

definition no_work :: counters where
  "no_work = \<lparr>co_epoch_loads = 0, co_key_parses = 0, co_quorums = 0, co_signatures = 0, co_claims = 0, co_folds = 0, co_reads = 0\<rparr>"

section \<open>Scan\<close>

record scanned_batch =
  sb_claims :: "claim list"
  sb_packed :: "bytes list"
  sb_dims :: dimensions

fun scan_claims :: "limits \<Rightarrow> nat \<Rightarrow> bytes \<Rightarrow> nat \<Rightarrow> u64 \<Rightarrow> malformed + (bytes \<times> parsed) list \<times> bytes" where
  "scan_claims bounds 0 r tokens raw_paths = Inr ([], r)"
| "scan_claims bounds (Suc k) r tokens raw_paths =
     rbind (parse_claim r (if lm_per_uc_items bounds then 0 else tokens)) (\<lambda>(p, r', tokens).
     let packed = take (length r - length r') r; raw_paths = raw_paths + pa_paths p in
     if lm_raw_paths bounds < raw_paths \<or> MAX_SEAL_SIGNATURES < pa_sigs p then Inl Limit else
     rbind (shard_depth (it_data (cl_shard_cert (pa_claim p) ! 1))) (\<lambda>depth.
     rbind (it_collection 4 256 (cl_shard_cert (pa_claim p) ! 2)) (\<lambda>n.
     if n \<noteq> of_nat depth then Inl Limit else
     rbind (scan_claims bounds k r' tokens raw_paths) (\<lambda>(rest, r). Inr ((packed, p) # rest, r)))))"

text \<open>Inserting into a hash set reports whether the value is new, that is, absent from the values before it.\<close>

definition distinct_packed :: "bytes list \<Rightarrow> nat list" where
  "distinct_packed packed = filter (\<lambda>i. packed ! i \<notin> set (take i packed)) [0..<length packed]"

record grouping =
  gr_a :: u64
  gr_p :: u64
  gr_seals :: "bytes list"
  gr_epochs :: "u64 list"
  gr_q :: u64

definition seal_epoch :: "claim \<Rightarrow> u64" where
  "seal_epoch c = it_arg (cl_seal_fields c ! 3)"

fun group_claims :: "parsed list \<Rightarrow> grouping \<Rightarrow> grouping" where
  "group_claims [] g = g"
| "group_claims (p # ps) g =
     (let seal = it_raw (cl_seal (pa_claim p)) in
      group_claims ps \<lparr>gr_a = gr_a g + 1, gr_p = gr_p g + pa_paths p, gr_seals = List.insert seal (gr_seals g),
        gr_epochs = List.insert (seal_epoch (pa_claim p)) (gr_epochs g),
        gr_q = (if seal \<in> set (gr_seals g) then gr_q g else gr_q g + pa_sigs p)\<rparr>)"

definition scan_batch :: "bytes \<Rightarrow> u64 \<Rightarrow> limits \<Rightarrow> 'h b1_error + scanned_batch" where
  "scan_batch input gas bounds =
     rbind (map_err Malformed (rd_uint 1 input)) (\<lambda>(v, r).
     if v \<noteq> 2 then Inl (Malformed Version) else
     rbind (map_err Malformed (rd_uint 1 r)) (\<lambda>(v, r).
     if v \<noteq> 0 then Inl (Malformed Flags) else
     rbind (map_err Malformed (rd_uint 2 r)) (\<lambda>(v, r).
     let k = unat v; c = of_nat (length input) in
     if k = 0 \<or> lm_claims bounds < k then Inl (Malformed Count)
     else if gas < batch_scan_gas c (of_nat k) then Inl OutOfGas else
     rbind (map_err Malformed (scan_claims bounds k r 0 0)) (\<lambda>(found, r).
     if r \<noteq> [] then Inl (Malformed Trailing) else
     let packed = map fst found; claims = map snd found;
         g = group_claims (map ((!) claims) (distinct_packed packed))
               \<lparr>gr_a = 0, gr_p = 0, gr_seals = [], gr_epochs = [], gr_q = 0\<rparr> in
     if lm_signatures bounds < gr_q g then Inl (Malformed Limit)
     else Inr \<lparr>sb_claims = map pa_claim claims, sb_packed = packed,
       sb_dims = \<lparr>dm_c = c, dm_k = of_nat k, dm_e = of_nat (length (gr_epochs g)), dm_s = of_nat (length (gr_seals g)),
         dm_q = gr_q g, dm_a = gr_a g, dm_p = gr_p g\<rparr>\<rparr>))))"

text \<open>The arm \<open>unreachable!\<close> of \<open>dimensions_with\<close> is the value \<open>Expect\<close>.\<close>

definition dimensions_with :: "bytes \<Rightarrow> limits \<Rightarrow> malformed + dimensions" where
  "dimensions_with input bounds =
     (if lm_bytes bounds < length input then Inl Limit
      else case (scan_batch input (-1) bounds :: unit b1_error + scanned_batch) of
        Inr s \<Rightarrow> Inr (sb_dims s) | Inl (Malformed m) \<Rightarrow> Inl m | Inl _ \<Rightarrow> Inl Expect)"

definition batch_dimensions :: "bytes \<Rightarrow> malformed + dimensions" where
  "batch_dimensions input = dimensions_with input STANDARD"

section \<open>Quorum\<close>

text \<open>
  The curve library: whether a byte is a recovery identifier, whether 64 bytes parse as a compact signature, whether its s is
  already normalized, and the key a signature of a digest recovers to, if any.
\<close>

record 'key curve =
  cu_recovery_id :: "u8 \<Rightarrow> bool"
  cu_compact :: "bytes \<Rightarrow> bool"
  cu_low_s :: "bytes \<Rightarrow> bool"
  cu_recover :: "bytes \<Rightarrow> bytes \<Rightarrow> u8 \<Rightarrow> 'key option"

definition recovers_to :: "'key curve \<Rightarrow> bytes \<Rightarrow> bytes \<Rightarrow> 'key \<Rightarrow> bool" where
  "recovers_to cu message sig key =
     (if length sig \<noteq> 65 then False
      else if \<not> cu_recovery_id cu (sig ! 64) then False
      else if \<not> cu_compact cu (take 64 sig) then False
      else if \<not> cu_low_s cu (take 64 sig) then False
      else (case cu_recover cu message (take 64 sig) (sig ! 64) of None \<Rightarrow> False | Some k \<Rightarrow> k = key))"

definition tally :: "(counters \<Rightarrow> counters) \<Rightarrow> ('e, counters, unit) action" where
  "tally f c = (Inr (), f c)"

fun quorum_loop :: "'key curve \<Rightarrow> bytes \<Rightarrow> 'key registry_member list \<Rightarrow> item list \<Rightarrow> u64 \<Rightarrow> bool
    \<Rightarrow> ('h b1_error, counters, u64 \<times> bool) action" where
  "quorum_loop cu message members [] good emp = slift (Inr (good, emp))"
| "quorum_loop cu message members [i] good emp = slift (Inl (Malformed Expect))"
| "quorum_loop cu message members (i # sig # sigs) good emp =
     sbind (tally (\<lambda>c. c\<lparr>co_signatures := co_signatures c + 1\<rparr>)) (\<lambda>_.
     if it_data sig = [] \<or> it_data i = [] then quorum_loop cu message members sigs good True
     else case find (\<lambda>m. rg_id m = it_data i) members of
       None \<Rightarrow> quorum_loop cu message members sigs good emp
     | Some m \<Rightarrow> quorum_loop cu message members sigs
         (if recovers_to cu message (it_data sig) (rg_key m) then good + rg_weight m else good) emp)"

definition seal_message :: "sha256 \<Rightarrow> claim \<Rightarrow> bytes" where
  "seal_message sha256 c =
     (let raw = it_raw (cl_seal c); prefix = take (length raw - length (it_raw (cl_seal_fields c ! 7))) raw
      in b1_hash sha256 [prefix, [0xf6]])"

definition quorum :: "sha256 \<Rightarrow> 'key curve \<Rightarrow> claim \<Rightarrow> 'key registry_entry \<Rightarrow> ('h b1_error, counters, bool) action" where
  "quorum sha256 cu c e =
     (let sig_map = cl_seal_fields c ! 7 in
      if it_null sig_map \<or> it_arg sig_map = 0 then slift (Inr False) else
      sbind (slift (map_err Malformed (it_children sig_map))) (\<lambda>sigs.
      sbind (quorum_loop cu (seal_message sha256 c) (rg_members e) sigs 0 False) (\<lambda>(good, emp).
      slift (Inr (\<not> emp \<and> rg_total e - (rg_total e - 1) div 3 \<le> good)))))"

section \<open>Evaluation\<close>

definition impossible :: "common_v2 \<Rightarrow> u64 \<Rightarrow> 'key registry_entry \<Rightarrow> bool" where
  "impossible common e entry =
     (if e < cv_origin common
      then (case rg_end entry of None \<Rightarrow> True | Some stop \<Rightarrow> cv_round common < stop) \<or> cv_round common < rg_start entry
      else rg_end entry \<noteq> None \<or> cv_round common < rg_start entry)"

fun load_epochs :: "keccak \<Rightarrow> (bytes \<Rightarrow> 'key option) \<Rightarrow> 'h sload \<Rightarrow> common_v2 \<Rightarrow> u64 list \<Rightarrow> (u64 \<rightharpoonup> 'key registry_entry)
    \<Rightarrow> ('h b1_error, counters, u64 \<rightharpoonup> 'key registry_entry) action" where
  "load_epochs keccak parse_key sload common [] loaded = slift (Inr loaded)"
| "load_epochs keccak parse_key sload common (e # es) loaded =
     (if e < cv_genesis common \<or> cv_origin common < e then load_epochs keccak parse_key sload common es loaded else
      sbind (slift (read_registry_entry keccak parse_key sload e)) (\<lambda>found.
      case found of None \<Rightarrow> slift (Inl Registry)
      | Some entry \<Rightarrow>
        let n = of_nat (length (rg_members entry)) in
        sbind (tally (\<lambda>c. c\<lparr>co_epoch_loads := co_epoch_loads c + 1, co_key_parses := co_key_parses c + n,
          co_reads := co_reads c + (11 + 8 * n)\<rparr>)) (\<lambda>_.
        if impossible common e entry then slift (Inl Registry)
        else load_epochs keccak parse_key sload common es (loaded(e \<mapsto> entry)))))"

fun fold_claims :: "sha256 \<Rightarrow> claim list \<Rightarrow> bool \<Rightarrow> ('h b1_error, counters, bool) action" where
  "fold_claims sha256 [] valid = slift (Inr valid)"
| "fold_claims sha256 (c # cs) valid =
     sbind (tally (\<lambda>c. c\<lparr>co_claims := co_claims c + 1, co_folds := co_folds c + 1\<rparr>)) (\<lambda>_.
     sbind (slift (map_err Malformed (folds sha256 c))) (\<lambda>ok.
     fold_claims sha256 cs (valid \<and> ok)))"

definition claim_slot :: "claim \<Rightarrow> bytes \<times> u32 \<times> bytes" where
  "claim_slot c = (it_raw (cl_seal c), cl_partition c, cl_shard c)"

fun check_slots :: "claim list \<Rightarrow> (bytes \<times> u32 \<times> bytes) set \<Rightarrow> bool \<Rightarrow> bool" where
  "check_slots [] slots valid = valid"
| "check_slots (c # cs) slots valid = check_slots cs (insert (claim_slot c) slots) (valid \<and> claim_slot c \<notin> slots)"

definition outside :: "common_v2 \<Rightarrow> 'key registry_entry \<Rightarrow> claim \<Rightarrow> bool" where
  "outside common entry c =
     (let f = cl_seal_fields c; r = it_arg (f ! 2) in
      it_arg (f ! 1) \<noteq> cv_network common \<or> r < rg_start entry \<or>
      (case rg_end entry of None \<Rightarrow> False | Some stop \<Rightarrow> stop \<le> r) \<or> cv_round common < r)"

fun check_seals :: "sha256 \<Rightarrow> 'key curve \<Rightarrow> common_v2 \<Rightarrow> (u64 \<rightharpoonup> 'key registry_entry) \<Rightarrow> claim list \<Rightarrow> bytes set \<Rightarrow> bool
    \<Rightarrow> ('h b1_error, counters, bool) action" where
  "check_seals sha256 cu common loaded [] seen valid = slift (Inr valid)"
| "check_seals sha256 cu common loaded (c # cs) seen valid =
     (let seal = it_raw (cl_seal c) in
      if seal \<in> seen then check_seals sha256 cu common loaded cs seen valid else
      let seen = insert seal seen in
      case loaded (seal_epoch c) of None \<Rightarrow> check_seals sha256 cu common loaded cs seen False
      | Some entry \<Rightarrow>
        if outside common entry c then check_seals sha256 cu common loaded cs seen False else
        sbind (tally (\<lambda>c. c\<lparr>co_quorums := co_quorums c + 1\<rparr>)) (\<lambda>_.
        sbind (quorum sha256 cu c entry) (\<lambda>ok.
        check_seals sha256 cu common loaded cs seen (valid \<and> ok))))"

fun first_uses :: "u64 list \<Rightarrow> u64 set \<Rightarrow> u64 list" where
  "first_uses [] seen = []"
| "first_uses (e # es) seen = (if e \<in> seen then first_uses es seen else e # first_uses es (insert e seen))"

definition grouped :: "scanned_batch \<Rightarrow> claim list" where
  "grouped s = map ((!) (sb_claims s)) (distinct_packed (sb_packed s))"

definition evaluate :: "sha256 \<Rightarrow> 'key curve \<Rightarrow> keccak \<Rightarrow> (bytes \<Rightarrow> 'key option) \<Rightarrow> scanned_batch \<Rightarrow> pins \<Rightarrow> 'h sload
    \<Rightarrow> ('h b1_error, counters, bool) action" where
  "evaluate sha256 cu keccak parse_key s pins sload =
     sbind (slift (read_common_v2 keccak sload pins)) (\<lambda>common.
     sbind (tally (\<lambda>c. c\<lparr>co_reads := co_reads c + 11\<rparr>)) (\<lambda>_.
     if cv_phase common = 1 \<or> \<not> cv_ready common then slift (Inr False) else
     let claims = grouped s;
         epochs = first_uses (map seal_epoch claims) {} in
     sbind (load_epochs keccak parse_key sload common epochs Map.empty) (\<lambda>loaded.
     sbind (fold_claims sha256 claims True) (\<lambda>valid.
     let valid = check_slots claims {} valid in
     check_seals sha256 cu common loaded claims {} valid))))"

definition run_with :: "sha256 \<Rightarrow> 'key curve \<Rightarrow> keccak \<Rightarrow> (bytes \<Rightarrow> 'key option) \<Rightarrow> bytes \<Rightarrow> u64 \<Rightarrow> pins \<Rightarrow> 'h sload \<Rightarrow> limits
    \<Rightarrow> ('h b1_error + b1_output) \<times> counters" where
  "run_with sha256 cu keccak parse_key input gas pins sload bounds =
     (if lm_bytes bounds < length input then slift (Inl (Malformed Limit))
      else if gas < saturating_add 60000 (saturating_mul 16 (of_nat (length input))) then slift (Inl OutOfGas)
      else sbind (slift (scan_batch input gas bounds)) (\<lambda>scanned.
        let charge = dimensions_gas (sb_dims scanned) in
        if gas < charge then slift (Inl OutOfGas) else
        sbind (evaluate sha256 cu keccak parse_key scanned pins sload) (\<lambda>valid.
        slift (Inr (versioned charge 2 valid))))) no_work"

definition batch_run :: "sha256 \<Rightarrow> 'key curve \<Rightarrow> keccak \<Rightarrow> (bytes \<Rightarrow> 'key option) \<Rightarrow> bytes \<Rightarrow> u64 \<Rightarrow> pins \<Rightarrow> 'h sload
    \<Rightarrow> ('h b1_error + b1_output) \<times> counters" where
  "batch_run sha256 cu keccak parse_key input gas pins sload = run_with sha256 cu keccak parse_key input gas pins sload STANDARD"

section \<open>Precompile providers\<close>

datatype precompile_halt = HaltOutOfGas | HaltOther string

datatype precompile_result =
    PrecompileOk (pr_gas: u64) (pr_bytes: bytes) (pr_reservoir: u64)
  | PrecompileHalted precompile_halt u64
  | PrecompileFatal string

definition membership_call :: "sha256 \<Rightarrow> bytes \<Rightarrow> u64 \<Rightarrow> u64 \<Rightarrow> precompile_result" where
  "membership_call sha256 data gas reservoir =
     (case (membership sha256 data gas :: unit b1_error + b1_output) of
        Inr out \<Rightarrow> PrecompileOk (out_gas out) (out_bytes out) reservoir
      | Inl OutOfGas \<Rightarrow> PrecompileHalted HaltOutOfGas reservoir
      | Inl _ \<Rightarrow> PrecompileHalted (HaltOther ''malformed B1 request'') reservoir)"

definition cert_batch_call :: "sha256 \<Rightarrow> 'key curve \<Rightarrow> keccak \<Rightarrow> (bytes \<Rightarrow> 'key option) \<Rightarrow> pins \<Rightarrow> 'h sload \<Rightarrow> ('h \<Rightarrow> string)
    \<Rightarrow> bytes \<Rightarrow> u64 \<Rightarrow> u64 \<Rightarrow> precompile_result" where
  "cert_batch_call sha256 cu keccak parse_key pins sload to_string data gas reservoir =
     (case fst (batch_run sha256 cu keccak parse_key data gas pins sload) of
        Inr out \<Rightarrow> PrecompileOk (out_gas out) (out_bytes out) reservoir
      | Inl OutOfGas \<Rightarrow> PrecompileHalted HaltOutOfGas reservoir
      | Inl (Malformed _) \<Rightarrow> PrecompileHalted (HaltOther ''malformed B1 batch request'') reservoir
      | Inl (Host e) \<Rightarrow> PrecompileFatal (to_string e)
      | Inl Registry \<Rightarrow> PrecompileFatal ''impossible admitted B1 registry'')"

section \<open>Strictly scanned items\<close>

definition strict_item :: "item \<Rightarrow> bool" where
  "strict_item it \<longleftrightarrow> (\<exists>t d. wf_tree True True d t \<and> slice (enc t) \<and> it = tree_item t)"

lemma strict_tree_ok: "wf_tree True True d t \<Longrightarrow> slice (enc t) \<Longrightarrow> tree_ok t"
  using wf_tree_loosen [of True True d t 0] by (simp add: tree_ok_def)

lemma slice_member:
  assumes "slice (concat (map enc ts))" "t \<in> set ts"
  shows "slice (enc t)"
proof -
  have "length (enc t) \<le> length (concat (map enc ts))"
    unfolding length_concat using assms(2) by (auto intro: member_le_sum_list)
  then show ?thesis using assms(1) by (simp add: slice_def)
qed

lemma strict_tagged:
  assumes "strict_item it" "it_tagged n tag it = Inr its" "n < 2 ^ 63"
  shows "length its = n \<and> (\<forall>c \<in> set its. strict_item c)"
proof -
  from assms(1) obtain t d where t: "wf_tree True True d t" "slice (enc t)" "it = tree_item t" unfolding strict_item_def by blast
  from assms(2) obtain inner where inner: "it_major it = 6" "cbor_item (it_data it) = Inr inner" "it_array n inner = Inr its"
    by (auto simp: it_tagged_def result_iff split: if_split_asm)
  from inner(1) t(3) obtain g u where g: "t = CTag g u" by (cases t) simp_all
  have u: "inner = tree_item u" using inner(2) unfolding t(3) g tree_item_fields tree_data.simps by simp
  from inner(3) have major: "it_major inner = 4" "it_arg inner = of_nat n" by (simp_all add: it_array_def split: if_split_asm)
  from major(1) u obtain ts where ts: "u = CArray ts" by (cases u) simp_all
  have s: "slice (enc u)" using t(2) slice_suffix unfolding g by simp
  have wf: "wf_tree True True (d + 1) u" using t(1) unfolding g by simp
  have ok: "tree_ok (CArray ts)" using strict_tree_ok [OF wf s] ts by simp
  have len: "length ts < 2 ^ 63" using s enc_length [of ts] unfolding ts slice_def by simp
  have "(of_nat (length ts) :: u64) = of_nat n" using major(2) unfolding u ts by simp
  then have "length ts = n" using unat_length [OF len] unat_length [OF assms(3)] by metis
  then have its: "its = map tree_item ts" using inner(3) array_tree [OF ok] unfolding u ts by simp
  have part: "slice (concat (map enc ts))" using s slice_suffix unfolding ts by simp
  have "strict_item c" if c: "c \<in> set its" for c
  proof -
    from c obtain v where v: "v \<in> set ts" "c = tree_item v" unfolding its by auto
    have "wf_tree True True (d + 2) v" using wf v(1) unfolding ts by simp
    then show ?thesis using slice_member [OF part v(1)] v(2) unfolding strict_item_def by blast
  qed
  then show ?thesis using its \<open>length ts = n\<close> by simp
qed

lemma strict_one: "slice data \<Longrightarrow> cbor_one tok data = Inr (it, tok') \<Longrightarrow> strict_item it"
  unfolding cbor_one_def one_capped_def scan_whole_exact strict_item_def by blast

section \<open>Signatures of a seal\<close>

fun pairs :: "item list \<Rightarrow> (bytes \<times> bytes) list" where
  "pairs (i # sig # its) = (it_data i, it_data sig) # pairs its"
| "pairs _ = []"

definition signatures :: "claim \<Rightarrow> (bytes \<times> bytes) list" where
  "signatures c = (case it_children (cl_seal_fields c ! 7) of Inl _ \<Rightarrow> [] | Inr its \<Rightarrow> pairs its)"

lemma keys_parity: "keys_from (Suc (Suc i)) ts = keys_from i ts"
  by (induction ts arbitrary: i) simp_all

lemma signer_keys:
  "read_signatures (map tree_item ts) = Inr () \<Longrightarrow> keys_from 0 ts = map (\<lambda>p. enc (CText (fst p))) (pairs (map tree_item ts))"
proof (induction ts rule: induct_list012)
  case (3 a b us)
  from 3(3) have a: "fst (tree_head a) = 3" and us: "read_signatures (map tree_item us) = Inr ()"
    by (auto simp: result_iff it_blob_def split: if_split_asm)
  from a obtain bs where "a = CText bs" by (cases a) simp_all
  then show ?case using 3(1) [OF us] by (simp add: keys_parity)
qed (auto simp: result_iff)

definition seal_shape :: "claim \<Rightarrow> bool" where
  "seal_shape c \<longleftrightarrow> (let sigs = cl_seal_fields c ! 7 in
     \<exists>its. it_children sigs = Inr its \<and> even (length its) \<and> distinct (map fst (pairs its)) \<and>
       length its \<le> 128 \<and> ((it_null sigs \<or> it_arg sigs = 0) \<longleftrightarrow> its = []))"

lemma seal_shape_read:
  assumes "strict_item it" "read_seal it = Inr (sf, n)"
  shows "\<exists>its. it_children (sf ! 7) = Inr its \<and> even (length its) \<and> distinct (map fst (pairs its)) \<and> length its \<le> 128 \<and>
    ((it_null (sf ! 7) \<or> it_arg (sf ! 7) = 0) \<longleftrightarrow> its = []) \<and> unat n = length (pairs its)"
proof -
  from assms(2) obtain its where sf: "it_tagged 8 39005 it = Inr sf" and n: "it_collection 5 64 (sf ! 7) = Inr n"
    and its: "it_children (sf ! 7) = Inr its" "read_signatures its = Inr ()"
    unfolding read_seal_def by (auto simp: result_iff)
  have "strict_item (sf ! 7)" using strict_tagged [OF assms(1) sf] by simp
  then obtain t d where t: "wf_tree True True d t" "slice (enc t)" "sf ! 7 = tree_item t" unfolding strict_item_def by blast
  show ?thesis
  proof (cases "it_null (sf ! 7)")
    case True
    then show ?thesis using its n by (auto simp: it_children_def it_collection_def)
  next
    case False
    then have "it_major (sf ! 7) = 5" and arg: "it_arg (sf ! 7) = n" using n by (auto simp: it_collection_def split: if_split_asm)
    with t(3) obtain ts where ts: "t = CMap ts" by (cases t) simp_all
    have ok: "tree_ok (CMap ts)" using strict_tree_ok [OF t(1,2)] ts by simp
    have map: "its = map tree_item ts" using its(1) children_tree(2) [OF ok] unfolding t(3) ts by simp
    have wf: "even (length ts)" "length ts \<le> 128" "sorted_wrt (<) (keys_from 0 ts)" using t(1) unfolding ts by simp_all
    have "distinct (keys_from 0 ts)" using wf(3) by (simp add: strict_sorted_iff)
    then have d: "distinct (map fst (pairs its))"
      unfolding signer_keys [OF its(2) [unfolded map]] map by (auto simp: distinct_map inj_on_def)
    have "unat (of_nat (length ts div 2) :: u64) = length ts div 2" using wf(2) by (intro unat_length) simp
    then have n': "unat n = length ts div 2" using arg unfolding t(3) ts by simp
    have len: "length (pairs xs) = length xs div 2" for xs by (induction xs rule: pairs.induct) simp_all
    show ?thesis using its(1) d wf(1,2) n' False arg
      by (intro exI [of _ its]) (auto simp: map len unat_eq_zero simp flip: unat_0_iff)
  qed
qed

definition parsed_from :: "bytes \<Rightarrow> bytes \<Rightarrow> bytes \<Rightarrow> bytes \<Rightarrow> bytes \<Rightarrow> item list \<Rightarrow>
    item list \<times> item list \<times> item list \<times> u64 \<times> u64 \<Rightarrow> parsed" where
  "parsed_from a shard config state ir_hash uc = (\<lambda>(sc, tc, sf, paths, sigs).
     \<lparr>pa_claim = \<lparr>cl_partition = ucast (from_be a :: u64), cl_shard = shard, cl_config = config, cl_state = state,
        cl_ir_hash = ir_hash, cl_ir = uc ! 1, cl_tr = uc ! 2, cl_conf = uc ! 3, cl_shard_cert = sc, cl_tree_cert = tc,
        cl_seal = uc ! 6, cl_seal_fields = sf\<rparr>, pa_paths = paths, pa_sigs = sigs\<rparr>)"

lemma parse_claim_parts:
  assumes "parse_claim r tok = Inr (p, r', tok')"
  obtains a b shard config state ir_hash l raw it uc body where
    "r = a @ b @ shard @ config @ state @ ir_hash @ l @ raw @ r'" "length a = 4" "length b = 2"
    "length shard = unat (from_be b :: u64)" "length config = 32" "length state = 32" "length ir_hash = 32" "length l = 4"
    "length raw = unat (from_be l :: u64)" "cbor_one tok raw = Inr (it, tok')" "it_tagged 7 39001 it = Inr uc"
    "read_body uc = Inr body" "p = parsed_from a shard config state ir_hash uc body"
proof -
  note parts = assms [unfolded parse_claim_def, simplified rbind_Inr_iff]
  show ?thesis using parts
    apply (clarsimp simp: result_iff rd_uint_iff rd_take_iff split: if_split_asm)
    apply (rule that)
    apply (rule refl | assumption | simp add: parsed_from_def)+
    done
qed

lemma one_item: "cbor_one tok raw = Inr (it, tok') \<Longrightarrow> cbor_item raw = Inr it"
  by (auto simp: cbor_one_def one_capped_def scan_whole_def result_iff split: if_split_asm)

lemma parse_claim_local:
  assumes "parse_claim (bs @ r1) tok1 = Inr (p1, r1, tok1')" "parse_claim (bs @ r2) tok2 = Inr (p2, r2, tok2')"
  shows "p1 = p2"
proof -
  obtain a b shard config state ir_hash l raw it uc body where
    1: "bs @ r1 = a @ b @ shard @ config @ state @ ir_hash @ l @ raw @ r1" "length a = 4" "length b = 2"
    "length shard = unat (from_be b :: u64)" "length config = 32" "length state = 32" "length ir_hash = 32" "length l = 4"
    "length raw = unat (from_be l :: u64)" "cbor_one tok1 raw = Inr (it, tok1')" "it_tagged 7 39001 it = Inr uc"
    "read_body uc = Inr body" "p1 = parsed_from a shard config state ir_hash uc body"
    using assms(1) by (rule parse_claim_parts)
  obtain a' b' shard' config' state' ir_hash' l' raw' it' uc' body' where
    2: "bs @ r2 = a' @ b' @ shard' @ config' @ state' @ ir_hash' @ l' @ raw' @ r2" "length a' = 4" "length b' = 2"
    "length shard' = unat (from_be b' :: u64)" "length config' = 32" "length state' = 32" "length ir_hash' = 32" "length l' = 4"
    "length raw' = unat (from_be l' :: u64)" "cbor_one tok2 raw' = Inr (it', tok2')" "it_tagged 7 39001 it' = Inr uc'"
    "read_body uc' = Inr body'" "p2 = parsed_from a' shard' config' state' ir_hash' uc' body'"
    using assms(2) by (rule parse_claim_parts)
  have "bs = a @ b @ shard @ config @ state @ ir_hash @ l @ raw" "bs = a' @ b' @ shard' @ config' @ state' @ ir_hash' @ l' @ raw'"
    using 1(1) 2(1) by simp_all
  then have eq: "a @ b @ shard @ config @ state @ ir_hash @ l @ raw = a' @ b' @ shard' @ config' @ state' @ ir_hash' @ l' @ raw'"
    by simp
  then have ab: "a = a'" "b = b'" using 1(2,3) 2(2,3) by (auto simp: append_eq_append_conv)
  then have "shard = shard'" "config = config'" "state = state'" "ir_hash = ir_hash'" "raw = raw'"
    using eq 1(4-8) 2(4-8) by (simp_all add: append_eq_append_conv)
  moreover from this have "it = it'" using one_item [OF 1(10)] one_item [OF 2(10)] by simp
  moreover from this have "uc = uc'" using 1(11) 2(11) by simp
  moreover from this have "body = body'" using 1(12) 2(12) by simp
  ultimately show ?thesis using 1(13) 2(13) ab by simp
qed

lemma parsed_shape:
  assumes "slice r" "parse_claim r tok = Inr (p, r', tok')"
  shows "claim_shape (pa_claim p)" "seal_shape (pa_claim p)" "unat (pa_sigs p) = length (signatures (pa_claim p))"
    "\<exists>bs. r = bs @ r'"
proof -
  show "claim_shape (pa_claim p)" "\<exists>bs. r = bs @ r'" using yieldsD(1) [OF yields_parse_claim [OF assms(1)] assms(2)] by auto
  obtain raw it uc body a shard config state ir_hash l b where
    *: "r = a @ b @ shard @ config @ state @ ir_hash @ l @ raw @ r'" "cbor_one tok raw = Inr (it, tok')"
      "it_tagged 7 39001 it = Inr uc" "read_body uc = Inr body" "p = parsed_from a shard config state ir_hash uc body"
    using assms(2) by (rule parse_claim_parts)
  have "slice raw" using assms(1) unfolding *(1) by (simp add: slice_def)
  then have "strict_item (uc ! 6)" using strict_tagged [OF strict_one [OF _ *(2)] *(3)] by simp
  moreover obtain sf n where "read_seal (uc ! 6) = Inr (sf, n)" "cl_seal_fields (pa_claim p) = sf" "pa_sigs p = n"
    using *(4,5) by (auto simp: read_body_def parsed_from_def result_iff split: prod.splits)
  ultimately show "seal_shape (pa_claim p)" "unat (pa_sigs p) = length (signatures (pa_claim p))"
    using seal_shape_read [of "uc ! 6" sf n] by (auto simp: seal_shape_def signatures_def)
qed

section \<open>Weighing a seal\<close>

definition signed_by :: "sha256 \<Rightarrow> 'key curve \<Rightarrow> claim \<Rightarrow> 'key registry_member \<Rightarrow> bool" where
  "signed_by sha256 cu c m \<longleftrightarrow>
     (\<exists>p \<in> set (signatures c). fst p = rg_id m \<and> recovers_to cu (seal_message sha256 c) (snd p) (rg_key m))"

definition weight_of :: "('key registry_member \<Rightarrow> bool) \<Rightarrow> 'key registry_entry \<Rightarrow> nat" where
  "weight_of P e = (\<Sum>m \<leftarrow> filter P (rg_members e). unat (rg_weight m))"

definition well_signed :: "claim \<Rightarrow> bool" where
  "well_signed c \<longleftrightarrow> signatures c \<noteq> [] \<and> (\<forall>p \<in> set (signatures c). fst p \<noteq> [] \<and> snd p \<noteq> [])"

definition quorum_holds :: "sha256 \<Rightarrow> 'key curve \<Rightarrow> claim \<Rightarrow> 'key registry_entry \<Rightarrow> bool" where
  "quorum_holds sha256 cu c e \<longleftrightarrow>
     well_signed c \<and> 2 * unat (rg_total e) < 3 * weight_of (signed_by sha256 cu c) e"

definition pair_weight :: "'key curve \<Rightarrow> bytes \<Rightarrow> 'key registry_member list \<Rightarrow> bytes \<times> bytes \<Rightarrow> u64" where
  "pair_weight cu message ms p =
     (if snd p = [] \<or> fst p = [] then 0 else case find (\<lambda>m. rg_id m = fst p) ms of None \<Rightarrow> 0
      | Some m \<Rightarrow> if recovers_to cu message (snd p) (rg_key m) then rg_weight m else 0)"

lemma quorum_loop_eq:
  "even (length its) \<Longrightarrow> quorum_loop cu message ms its good emp co =
     (Inr (good + sum_list (map (pair_weight cu message ms) (pairs its)),
        emp \<or> (\<exists>p \<in> set (pairs its). snd p = [] \<or> fst p = [])),
      co\<lparr>co_signatures := co_signatures co + of_nat (length (pairs its))\<rparr>)"
proof (induction its arbitrary: good emp co rule: induct_list012)
  case (3 i sig its)
  then show ?case
    by (auto simp: sbind_def tally_def slift_def pair_weight_def split: option.splits)
qed (simp_all add: slift_def)

lemma find_sum:
  fixes h :: "'key registry_member \<Rightarrow> nat"
  shows "distinct (map rg_id ms) \<Longrightarrow>
    (\<Sum>m \<leftarrow> ms. if rg_id m = i then h m else 0) = (case find (\<lambda>m. rg_id m = i) ms of None \<Rightarrow> 0 | Some m \<Rightarrow> h m)"
proof (induction ms)
  case (Cons m ms)
  have "rg_id x \<noteq> i" if "rg_id m = i" "x \<in> set ms" for x
  proof
    assume "rg_id x = i"
    then have "rg_id m \<in> rg_id ` set ms" using that by (metis imageI)
    then show False using Cons.prems by simp
  qed
  then have "(\<Sum>x \<leftarrow> ms. if rg_id x = i then h x else 0) = 0" if "rg_id m = i"
    using that by (auto simp: sum_list_eq_0_iff)
  then show ?case using Cons by (cases "rg_id m = i") (simp_all del: sum_list_eq_0_iff)
qed simp

lemma signer_sum:
  fixes h :: "bytes \<Rightarrow> 'key registry_member \<Rightarrow> nat"
  assumes "distinct (map rg_id ms)"
  shows "distinct (map fst ps) \<Longrightarrow>
    (\<Sum>p \<leftarrow> ps. case find (\<lambda>m. rg_id m = fst p) ms of None \<Rightarrow> 0 | Some m \<Rightarrow> h (snd p) m) =
    (\<Sum>m \<leftarrow> ms. case map_of ps (rg_id m) of None \<Rightarrow> 0 | Some s \<Rightarrow> h s m)"
proof (induction ps)
  case (Cons p ps)
  have "(\<Sum>m \<leftarrow> ms. case map_of (p # ps) (rg_id m) of None \<Rightarrow> 0 | Some s \<Rightarrow> h s m) =
    (\<Sum>m \<leftarrow> ms. (if rg_id m = fst p then h (snd p) m else 0) + (case map_of ps (rg_id m) of None \<Rightarrow> 0 | Some s \<Rightarrow> h s m))"
    using Cons.prems by (intro arg_cong [of _ _ sum_list] map_cong refl)
      (auto split: option.split dest: map_of_SomeD intro: rev_image_eqI)
  then show ?case using Cons by (simp add: sum_list_addf find_sum [OF assms])
qed simp

lemma weight_of_le: "weight_of P e \<le> sum_list (map (\<lambda>m. unat (rg_weight m)) (rg_members e))"
  unfolding weight_of_def by (induction "rg_members e") (simp_all add: sum_list_filter_le_nat)

lemma unat_sum_list:
  fixes ws :: "u64 list"
  shows "sum_list (map unat ws) < 2 ^ 64 \<Longrightarrow> unat (sum_list ws) = sum_list (map unat ws)"
  by (induction ws) (simp_all add: unat_add_exact)

lemma sum_list_if_filter:
  fixes f :: "'a \<Rightarrow> nat"
  shows "(\<Sum>x \<leftarrow> filter P xs. f x) = (\<Sum>x \<leftarrow> xs. if P x then f x else 0)"
  by (induction xs) simp_all

lemma threshold_iff:
  assumes "0 < t"
  shows "t - (t - 1) div 3 \<le> w \<longleftrightarrow> 2 * unat t < 3 * unat (w :: u64)"
proof -
  have "1 \<le> unat t" using assms by (simp add: word_less_nat_alt)
  then have "unat (t - (t - 1) div 3) = unat t - (unat t - 1) div 3"
    by (simp add: unat_sub word_le_nat_alt unat_div)
  then show ?thesis using \<open>1 \<le> unat t\<close> by (simp add: word_le_nat_alt) presburger
qed

lemma signed_sum:
  assumes "distinct (map fst (signatures c))" "distinct (map rg_id (rg_members e))" "well_signed c"
  shows "sum_list (map (\<lambda>p. unat (pair_weight cu (seal_message sha256 c) (rg_members e) p)) (signatures c)) = weight_of (signed_by sha256 cu c) e"
proof -
  let ?h = "\<lambda>s m. if recovers_to cu (seal_message sha256 c) s (rg_key m) then unat (rg_weight m) else 0"
  have "(\<Sum>p \<leftarrow> signatures c. unat (pair_weight cu (seal_message sha256 c) (rg_members e) p)) =
    (\<Sum>p \<leftarrow> signatures c. case find (\<lambda>m. rg_id m = fst p) (rg_members e) of None \<Rightarrow> 0 | Some m \<Rightarrow> ?h (snd p) m)"
    using assms(3) by (intro arg_cong [of _ _ sum_list] map_cong refl) (auto simp: pair_weight_def well_signed_def split: option.split)
  also have "\<dots> = (\<Sum>m \<leftarrow> rg_members e. case map_of (signatures c) (rg_id m) of None \<Rightarrow> 0 | Some s \<Rightarrow> ?h s m)"
    by (rule signer_sum [OF assms(2,1)])
  also have "\<dots> = (\<Sum>m \<leftarrow> rg_members e. if signed_by sha256 cu c m then unat (rg_weight m) else 0)"
  proof (intro arg_cong [of _ _ sum_list] map_cong refl)
    fix m
    have "signed_by sha256 cu c m \<longleftrightarrow> (\<exists>s. map_of (signatures c) (rg_id m) = Some s \<and>
        recovers_to cu (seal_message sha256 c) s (rg_key m))"
      using assms(1) by (force simp: signed_by_def)
    then show "(case map_of (signatures c) (rg_id m) of None \<Rightarrow> 0 | Some s \<Rightarrow> ?h s m) =
        (if signed_by sha256 cu c m then unat (rg_weight m) else 0)"
      by (auto split: option.split)
  qed
  finally show ?thesis unfolding weight_of_def sum_list_if_filter .
qed

lemma quorum_exact:
  assumes "seal_shape c" "registry_ok e"
  shows "quorum sha256 cu c e co =
    (Inr (quorum_holds sha256 cu c e), co\<lparr>co_signatures := co_signatures co + of_nat (length (signatures c))\<rparr>)"
proof -
  let ?sigs = "cl_seal_fields c ! 7"
  obtain its where its: "it_children ?sigs = Inr its" "even (length its)" "distinct (map fst (pairs its))"
    "(it_null ?sigs \<or> it_arg ?sigs = 0) \<longleftrightarrow> its = []"
    using assms(1) unfolding seal_shape_def Let_def by blast
  have sigs: "signatures c = pairs its" using its(1) by (simp add: signatures_def)
  let ?good = "sum_list (map (pair_weight cu (seal_message sha256 c) (rg_members e)) (pairs its))"
  have ids: "distinct (map rg_id (rg_members e))" "rg_members e \<noteq> []" "\<forall>m \<in> set (rg_members e). 0 < rg_weight m"
    and tot: "unat (rg_total e) = sum_list (map (\<lambda>m. unat (rg_weight m)) (rg_members e))"
    using assms(2) by (auto simp: registry_ok_def strict_sorted_iff)
  obtain m ms where m: "rg_members e = m # ms" using ids(2) by (cases "rg_members e") auto
  then have "0 < rg_total e" using tot ids(3) by (auto simp: word_less_nat_alt)
  note weigh = threshold_iff [OF this, of ?good]
  have good: "unat ?good = weight_of (signed_by sha256 cu c) e" if "well_signed c"
  proof -
    have "sum_list (map unat (map (pair_weight cu (seal_message sha256 c) (rg_members e)) (pairs its))) = weight_of (signed_by sha256 cu c) e"
      using signed_sum [OF _ ids(1) that, of cu sha256] its(3) unfolding sigs map_map comp_def by simp
    moreover have "weight_of (signed_by sha256 cu c) e < 2 ^ 64"
      using weight_of_le [of "signed_by sha256 cu c" e] unat_less_pow [of "rg_total e"] unfolding tot by simp
    ultimately show ?thesis using unat_sum_list by metis
  qed
  have null: "its = [] \<Longrightarrow> \<not> well_signed c" by (simp add: well_signed_def sigs)
  have empty: "well_signed c \<longleftrightarrow> \<not> (\<exists>p \<in> set (pairs its). snd p = [] \<or> fst p = [])" if "its \<noteq> []"
  proof -
    from that its(2) obtain a b us where "its = a # b # us" by (cases its rule: pairs.cases) auto
    then show ?thesis by (auto simp: well_signed_def sigs)
  qed
  show ?thesis
  proof (cases "its = []")
    case True
    then show ?thesis using its(4) null by (auto simp: quorum_def slift_def quorum_holds_def sigs)
  next
    case False
    then have "quorum sha256 cu c e co = (Inr (\<not> (\<exists>p \<in> set (pairs its). snd p = [] \<or> fst p = []) \<and>
      rg_total e - (rg_total e - 1) div 3 \<le> ?good), co\<lparr>co_signatures := co_signatures co + of_nat (length (pairs its))\<rparr>)"
      using its(1,4) by (simp add: quorum_def sbind_def slift_def quorum_loop_eq [OF its(2)])
    then show ?thesis using good unfolding quorum_holds_def empty [OF False, symmetric] weigh sigs
      by (cases "well_signed c") simp_all
  qed
qed

lemma weight_overlap:
  "weight_of P e + weight_of Q e \<le> sum_list (map (\<lambda>m. unat (rg_weight m)) (rg_members e)) + weight_of (\<lambda>m. P m \<and> Q m) e"
proof -
  have "(\<Sum>m \<leftarrow> filter P ms. f m) + (\<Sum>m \<leftarrow> filter Q ms. f m) \<le> (\<Sum>m \<leftarrow> ms. f m) + (\<Sum>m \<leftarrow> filter (\<lambda>m. P m \<and> Q m) ms. f m)"
    for ms and f :: "'a registry_member \<Rightarrow> nat"
    by (induction ms) auto
  then show ?thesis unfolding weight_of_def .
qed

section \<open>Evaluating a batch\<close>

text \<open>What one seal needs, as a relation of the registry words and the claim alone.\<close>

definition seal_holds :: "sha256 \<Rightarrow> 'key curve \<Rightarrow> keccak \<Rightarrow> (bytes \<Rightarrow> 'key option) \<Rightarrow> 'h sload \<Rightarrow> common_v2 \<Rightarrow> claim \<Rightarrow> bool" where
  "seal_holds sha256 cu keccak parse_key sload common c \<longleftrightarrow>
     cv_genesis common \<le> seal_epoch c \<and> seal_epoch c \<le> cv_origin common \<and>
     (case read_registry_entry keccak parse_key sload (seal_epoch c) of
        Inr (Some entry) \<Rightarrow> \<not> outside common entry c \<and> quorum_holds sha256 cu c entry
      | _ \<Rightarrow> False)"

definition batch_holds :: "sha256 \<Rightarrow> 'key curve \<Rightarrow> keccak \<Rightarrow> (bytes \<Rightarrow> 'key option) \<Rightarrow> 'h sload \<Rightarrow> common_v2 \<Rightarrow> scanned_batch \<Rightarrow> bool" where
  "batch_holds sha256 cu keccak parse_key sload common s \<longleftrightarrow>
     cv_phase common \<noteq> 1 \<and> cv_ready common \<and>
     (\<forall>c \<in> set (sb_claims s). folds sha256 c = Inr True \<and> seal_holds sha256 cu keccak parse_key sload common c) \<and>
     (\<forall>i < length (sb_claims s). \<forall>j < length (sb_claims s).
        claim_slot (sb_claims s ! i) = claim_slot (sb_claims s ! j) \<longrightarrow> sb_packed s ! i = sb_packed s ! j)"

definition loads :: "keccak \<Rightarrow> (bytes \<Rightarrow> 'key option) \<Rightarrow> 'h sload \<Rightarrow> common_v2 \<Rightarrow> u64 set \<Rightarrow> (u64 \<rightharpoonup> 'key registry_entry) \<Rightarrow> bool" where
  "loads keccak parse_key sload common E loaded \<longleftrightarrow>
     (\<forall>e. if e \<in> E \<and> cv_genesis common \<le> e \<and> e \<le> cv_origin common
        then \<exists>entry. loaded e = Some entry \<and> read_registry_entry keccak parse_key sload e = Inr (Some entry)
        else loaded e = None)"

lemma load_epochs_loads:
  assumes "loads keccak parse_key sload common E loaded"
    "load_epochs keccak parse_key sload common es loaded co = (Inr loaded', co')"
  shows "loads keccak parse_key sload common (E \<union> set es) loaded'"
  using assms
proof (induction es arbitrary: E loaded co)
  case (Cons e es)
  show ?case
  proof (cases "e < cv_genesis common \<or> cv_origin common < e")
    case True
    then have "loads keccak parse_key sload common (insert e E) loaded" using Cons.prems(1) by (auto simp: loads_def not_le split: if_splits)
    moreover have "load_epochs keccak parse_key sload common es loaded co = (Inr loaded', co')" using Cons.prems(2) True by auto
    ultimately show ?thesis using Cons.IH by fastforce
  next
    case False
    then obtain entry co1 where read: "read_registry_entry keccak parse_key sload e = Inr (Some entry)"
      and rest: "load_epochs keccak parse_key sload common es (loaded(e \<mapsto> entry)) co1 = (Inr loaded', co')"
      using Cons.prems(2) by (auto simp: action_iff Let_def tally_def split: option.splits if_splits)
    have "loads keccak parse_key sload common (insert e E) (loaded(e \<mapsto> entry))"
      using Cons.prems(1) read False by (auto simp: loads_def not_le split: if_splits)
    from Cons.IH [OF this rest] show ?thesis by simp
  qed
qed (simp add: slift_def)

lemma loads_registry_ok:
  assumes "loads keccak parse_key sload common E loaded"
  shows "\<forall>e x. loaded e = Some x \<longrightarrow> registry_ok x"
proof (intro allI impI)
  fix e x assume "loaded e = Some x"
  then have "read_registry_entry keccak parse_key sload e = Inr (Some x)"
    using assms [unfolded loads_def, rule_format, of e] by (simp split: if_splits)
  then show "registry_ok x" by (rule registry_entry_shape)
qed

lemma set_first_uses: "set (first_uses es seen) = set es - seen"
  by (induction es arbitrary: seen) auto

lemma fold_claims_eq:
  "\<forall>c \<in> set cs. claim_shape c \<Longrightarrow> fold_claims sha256 cs valid co =
     (Inr (valid \<and> (\<forall>c \<in> set cs. folds sha256 c = Inr True)),
      co\<lparr>co_claims := co_claims co + of_nat (length cs), co_folds := co_folds co + of_nat (length cs)\<rparr>)"
proof (induction cs arbitrary: valid co)
  case (Cons c cs)
  obtain b where "folds sha256 c = Inr b" using folds_total Cons.prems by (meson list.set_intros(1))
  then show ?case using Cons by (cases b) (auto simp: sbind_def slift_def tally_def ac_simps)
qed (simp add: slift_def)

lemma check_slots_eq: "check_slots cs slots valid \<longleftrightarrow> valid \<and> distinct (map claim_slot cs) \<and> claim_slot ` set cs \<inter> slots = {}"
  by (induction cs arbitrary: slots valid) auto

definition seal_ok :: "sha256 \<Rightarrow> 'key curve \<Rightarrow> common_v2 \<Rightarrow> (u64 \<rightharpoonup> 'key registry_entry) \<Rightarrow> claim \<Rightarrow> bool" where
  "seal_ok sha256 cu common loaded c =
     (case loaded (seal_epoch c) of None \<Rightarrow> False | Some e \<Rightarrow> \<not> outside common e c \<and> quorum_holds sha256 cu c e)"

lemma same_seal:
  assumes "claim_shape c" "claim_shape c'" "it_raw (cl_seal c) = it_raw (cl_seal c')"
  shows "cl_seal c = cl_seal c' \<and> cl_seal_fields c = cl_seal_fields c'"
proof -
  have seal: "scanned (cl_seal c)" "it_tagged 8 39005 (cl_seal c) = Inr (cl_seal_fields c)" if "claim_shape c" for c
    using that unfolding claim_shape_def body_shape_def by auto
  have "cl_seal c = cl_seal c'" using scanned_raw_inj seal(1) assms by blast
  then show ?thesis using seal(2) [OF assms(1)] seal(2) [OF assms(2)] by simp
qed

lemma same_seal_ok:
  fixes loaded :: "u64 \<rightharpoonup> 'key registry_entry"
  assumes "cl_seal c = cl_seal c'" "cl_seal_fields c = cl_seal_fields c'"
  shows "seal_ok sha256 cu common loaded c = seal_ok sha256 cu common loaded c'"
proof -
  have sigs: "signatures c = signatures c'" "seal_message sha256 c = seal_message sha256 c'" "seal_epoch c = seal_epoch c'"
    "outside common e c = outside common e c'" for e :: "'key registry_entry"
    using assms by (simp_all add: signatures_def seal_message_def seal_epoch_def outside_def)
  then have "signed_by sha256 cu c = signed_by sha256 cu c'" by (simp add: fun_eq_iff signed_by_def)
  then show ?thesis by (simp add: seal_ok_def sigs quorum_holds_def well_signed_def split: option.split)
qed

lemma check_seals_eq:
  assumes "\<forall>e x. loaded e = Some x \<longrightarrow> registry_ok x"
  shows "\<forall>c \<in> set cs. claim_shape c \<and> seal_shape c \<Longrightarrow> fst (check_seals sha256 cu common loaded cs seen valid co) =
    (Inr (valid \<and> (\<forall>c \<in> set cs. it_raw (cl_seal c) \<in> seen \<or> seal_ok sha256 cu common loaded c)) :: 'h b1_error + bool)"
proof (induction cs arbitrary: seen valid co)
  case (Cons c cs)
  have same: "seal_ok sha256 cu common loaded c' = seal_ok sha256 cu common loaded c"
    if "c' \<in> set cs" "it_raw (cl_seal c') = it_raw (cl_seal c)" for c'
    using same_seal [of c' c] same_seal_ok [of c' c] that Cons.prems by (meson list.set_intros)
  have IH: "fst (check_seals sha256 cu common loaded cs seen valid co) =
    (Inr (valid \<and> (\<forall>c \<in> set cs. it_raw (cl_seal c) \<in> seen \<or> seal_ok sha256 cu common loaded c)) :: 'h b1_error + bool)" for seen valid co
    using Cons by simp
  have quorum: "quorum sha256 cu c e co = (Inr (quorum_holds sha256 cu c e) :: 'h b1_error + bool,
      co\<lparr>co_signatures := co_signatures co + of_nat (length (signatures c))\<rparr>)" if "loaded (seal_epoch c) = Some e" for e co
    using Cons.prems assms that by (intro quorum_exact) auto
  show ?case
  proof (cases "it_raw (cl_seal c) \<in> seen")
    case True
    then show ?thesis using IH by (auto simp: Let_def)
  next
    case False
    have step: "(fst (check_seals sha256 cu common loaded (c # cs) seen valid co) :: 'h b1_error + bool) =
      Inr ((valid \<and> seal_ok sha256 cu common loaded c) \<and>
        (\<forall>c' \<in> set cs. it_raw (cl_seal c') \<in> insert (it_raw (cl_seal c)) seen \<or> seal_ok sha256 cu common loaded c'))"
      using False by (auto simp: Let_def seal_ok_def [of _ _ _ _ c] IH quorum sbind_def tally_def split: option.split)
    show ?thesis unfolding step using same False by auto
  qed
qed (simp add: slift_def)

section \<open>Scanned requests\<close>

definition parsed_as :: "bytes \<times> parsed \<Rightarrow> bool" where
  "parsed_as f \<longleftrightarrow> (\<exists>rest tok tok'. slice (fst f @ rest) \<and> parse_claim (fst f @ rest) tok = Inr (snd f, rest, tok'))"

lemma scan_claims_parsed:
  "slice r \<Longrightarrow> scan_claims bounds k r tok paths = Inr (found, r') \<Longrightarrow> length found = k \<and> (\<forall>f \<in> set found. parsed_as f)"
proof (induction k arbitrary: r tok paths found)
  case (Suc k)
  from Suc.prems(2) obtain p r1 tok1 tok0 rest paths1 where p: "parse_claim r tok0 = Inr (p, r1, tok1)"
    and rest: "scan_claims bounds k r1 tok1 paths1 = Inr (rest, r')" and found: "found = (take (length r - length r1) r, p) # rest"
    by (auto simp: result_iff Let_def split: if_split_asm)
  obtain bs where bs: "r = bs @ r1" using parsed_shape(4) [OF Suc.prems(1) p] by blast
  have "parsed_as (bs, p)" unfolding parsed_as_def using Suc.prems(1) p bs by auto
  moreover have "slice r1" using Suc.prems(1) bs slice_suffix by blast
  ultimately show ?case using Suc.IH [OF _ rest] found bs by simp
qed simp

definition batch_shape :: "scanned_batch \<Rightarrow> bool" where
  "batch_shape s \<longleftrightarrow> length (sb_claims s) = length (sb_packed s) \<and> (\<forall>c \<in> set (sb_claims s). claim_shape c \<and> seal_shape c) \<and>
     (\<forall>i < length (sb_packed s). \<forall>j < length (sb_packed s). sb_packed s ! i = sb_packed s ! j \<longrightarrow> sb_claims s ! i = sb_claims s ! j)"

lemma parsed_as_shape: "parsed_as f \<Longrightarrow> claim_shape (pa_claim (snd f)) \<and> seal_shape (pa_claim (snd f))"
  unfolding parsed_as_def using parsed_shape by blast

lemma parsed_as_unique: "parsed_as f \<Longrightarrow> parsed_as g \<Longrightarrow> fst f = fst g \<Longrightarrow> snd f = snd g"
  unfolding parsed_as_def using parse_claim_local by metis

lemma scan_batch_found:
  assumes "slice input" "scan_batch input gas bounds = Inr s"
  obtains found where "\<forall>f \<in> set found. parsed_as f" "sb_packed s = map fst found" "sb_claims s = map (pa_claim \<circ> snd) found"
proof -
  from assms(2) obtain r k found r' where r: "scan_claims bounds k r 0 0 = Inr (found, r')" "\<exists>bs. input = bs @ r"
    and s: "sb_packed s = map fst found" "sb_claims s = map (pa_claim \<circ> snd) found"
    by (auto simp: scan_batch_def result_iff Let_def rd_uint_iff split: if_split_asm)
  then show thesis using that scan_claims_parsed [OF _ r(1)] slice_suffix assms(1) by blast
qed

lemma scan_batch_shape:
  assumes "slice input" "scan_batch input gas bounds = Inr s"
  shows "batch_shape s"
proof -
  obtain found where *: "\<forall>f \<in> set found. parsed_as f" "sb_packed s = map fst found" "sb_claims s = map (pa_claim \<circ> snd) found"
    using assms by (rule scan_batch_found)
  have "snd (found ! i) = snd (found ! j)" if "i < length found" "j < length found" "fst (found ! i) = fst (found ! j)" for i j
    by (rule parsed_as_unique [OF bspec [OF *(1) nth_mem [OF that(1)]] bspec [OF *(1) nth_mem [OF that(2)]] that(3)])
  then have "pa_claim (snd (found ! i)) = pa_claim (snd (found ! j))"
    if "i < length found" "j < length found" "fst (found ! i) = fst (found ! j)" for i j
    using that by metis
  moreover have "claim_shape c \<and> seal_shape c" if "c \<in> set (map (pa_claim \<circ> snd) found)" for c
  proof -
    from that obtain f where "f \<in> set found" "c = pa_claim (snd f)" by (auto simp del: split_paired_Ex)
    then show ?thesis using *(1) parsed_as_shape by blast
  qed
  moreover have "batch_shape s \<longleftrightarrow> (\<forall>c \<in> set (map (pa_claim \<circ> snd) found). claim_shape c \<and> seal_shape c) \<and>
      (\<forall>i < length found. \<forall>j < length found. fst (found ! i) = fst (found ! j) \<longrightarrow> pa_claim (snd (found ! i)) = pa_claim (snd (found ! j)))"
    unfolding batch_shape_def *(2,3) by simp
  ultimately show ?thesis by blast
qed

lemma first_index:
  assumes "j < length xs"
  shows "\<exists>i \<in> set (distinct_packed xs). xs ! i = xs ! j"
proof -
  let ?i = "LEAST i. xs ! i = xs ! j"
  have i: "xs ! ?i = xs ! j" "?i \<le> j" by (auto intro: LeastI Least_le)
  have "xs ! ?i \<notin> set (take ?i xs)"
  proof
    assume "xs ! ?i \<in> set (take ?i xs)"
    then obtain m where "m < ?i" "xs ! m = xs ! ?i" by (auto simp: in_set_conv_nth)
    then show False using i(1) not_less_Least by metis
  qed
  then have "?i \<in> set (distinct_packed xs)" using i(2) assms by (simp add: distinct_packed_def)
  then show ?thesis using i(1) by blast
qed

lemma distinct_packed_inj:
  assumes "i \<in> set (distinct_packed xs)" "j \<in> set (distinct_packed xs)" "xs ! i = xs ! j"
  shows "i = j"
proof -
  have *: "\<not> i < j" if "j \<in> set (distinct_packed xs)" "xs ! i = xs ! j" for i j
    using that by (auto simp: distinct_packed_def in_set_conv_nth)
  show ?thesis using * [OF assms(2,3)] * [OF assms(1) assms(3) [symmetric]] by simp
qed

lemma distinct_packed_less: "i \<in> set (distinct_packed xs) \<Longrightarrow> i < length xs"
  by (simp add: distinct_packed_def)

lemma batch_same:
  assumes "batch_shape s" "i < length (sb_packed s)" "j < length (sb_packed s)" "sb_packed s ! i = sb_packed s ! j"
  shows "sb_claims s ! i = sb_claims s ! j"
  using assms unfolding batch_shape_def by blast

lemma set_grouped:
  assumes "batch_shape s"
  shows "set (grouped s) = set (sb_claims s)"
proof -
  have len: "length (sb_claims s) = length (sb_packed s)" using assms by (simp add: batch_shape_def)
  have "set (grouped s) \<subseteq> set (sb_claims s)"
    using distinct_packed_less [of _ "sb_packed s"] len by (auto simp: grouped_def)
  moreover have "set (sb_claims s) \<subseteq> set (grouped s)"
  proof
    fix c assume "c \<in> set (sb_claims s)"
    then obtain j where j: "j < length (sb_packed s)" "c = sb_claims s ! j"
      using len by (auto simp: in_set_conv_nth)
    obtain i where i: "i \<in> set (distinct_packed (sb_packed s))" "sb_packed s ! i = sb_packed s ! j"
      using first_index [OF j(1)] by blast
    then have "c = sb_claims s ! i" using batch_same [OF assms distinct_packed_less [OF i(1)] j(1) i(2)] j(2) by simp
    then show "c \<in> set (grouped s)" using i(1) by (auto simp: grouped_def)
  qed
  ultimately show ?thesis by blast
qed

lemma distinct_slots:
  assumes "batch_shape s"
  shows "distinct (map claim_slot (grouped s)) \<longleftrightarrow> (\<forall>i < length (sb_claims s). \<forall>j < length (sb_claims s).
    claim_slot (sb_claims s ! i) = claim_slot (sb_claims s ! j) \<longrightarrow> sb_packed s ! i = sb_packed s ! j)"
proof -
  let ?slot = "\<lambda>i. claim_slot (sb_claims s ! i)" and ?D = "set (distinct_packed (sb_packed s))"
  have len: "length (sb_claims s) = length (sb_packed s)" using assms by (simp add: batch_shape_def)
  note same = batch_same [OF assms]
  have "distinct (distinct_packed (sb_packed s))" by (simp add: distinct_packed_def)
  then have "distinct (map claim_slot (grouped s)) \<longleftrightarrow> inj_on ?slot ?D"
    by (simp add: grouped_def distinct_map comp_inj_on_iff comp_def)
  also have "\<dots> \<longleftrightarrow> (\<forall>i < length (sb_packed s). \<forall>j < length (sb_packed s). ?slot i = ?slot j \<longrightarrow> sb_packed s ! i = sb_packed s ! j)"
    (is "_ \<longleftrightarrow> ?all")
  proof
    assume inj: "inj_on ?slot ?D"
    show ?all
    proof (intro allI impI)
      fix i j assume ij: "i < length (sb_packed s)" "j < length (sb_packed s)" "?slot i = ?slot j"
      obtain i' j' where i': "i' \<in> ?D" "sb_packed s ! i' = sb_packed s ! i" and j': "j' \<in> ?D" "sb_packed s ! j' = sb_packed s ! j"
        using first_index ij(1,2) by meson
      have "?slot i' = ?slot j'"
        using same [OF distinct_packed_less [OF i'(1)] ij(1) i'(2)] same [OF distinct_packed_less [OF j'(1)] ij(2) j'(2)] ij(3) by simp
      then have "i' = j'" using i'(1) j'(1) by (rule inj_onD [OF inj])
      then show "sb_packed s ! i = sb_packed s ! j" using i' j' by simp
    qed
  next
    assume ?all
    then show "inj_on ?slot ?D" by (intro inj_onI) (blast intro: distinct_packed_inj dest: distinct_packed_less)
  qed
  finally show ?thesis unfolding len .
qed

lemma evaluate_holds:
  fixes sload :: "'h sload"
  assumes "batch_shape s" "evaluate sha256 cu keccak parse_key s pins sload co = (Inr valid, co')"
  obtains common where "read_common_v2 keccak sload pins = Inr common"
    "valid = batch_holds sha256 cu keccak parse_key sload common s"
proof -
  from assms(2) obtain common where common: "read_common_v2 keccak sload pins = Inr common"
    by (auto simp: evaluate_def action_iff)
  have shapes: "\<forall>c \<in> set (grouped s). claim_shape c \<and> seal_shape c"
    unfolding set_grouped [OF assms(1)] using assms(1) by (simp add: batch_shape_def)
  have "valid = batch_holds sha256 cu keccak parse_key sload common s"
  proof (cases "cv_phase common = 1 \<or> \<not> cv_ready common")
    case True
    then show ?thesis using assms(2) common by (auto simp: evaluate_def batch_holds_def sbind_def slift_def tally_def)
  next
    case False
    then obtain loaded co1 ok co2 where
      load: "load_epochs keccak parse_key sload common (first_uses (map seal_epoch (grouped s)) {}) Map.empty
        (co\<lparr>co_reads := co_reads co + 11\<rparr>) = (Inr loaded, co1)"
      and fold: "fold_claims sha256 (grouped s) True co1 = (Inr ok :: 'h b1_error + bool, co2)"
      and seals: "check_seals sha256 cu common loaded (grouped s) {} (check_slots (grouped s) {} ok) co2 = (Inr valid :: 'h b1_error + bool, co')"
      using assms(2) common by (auto simp: evaluate_def action_iff tally_def Let_def split: if_split_asm)
    have loads: "loads keccak parse_key sload common (seal_epoch ` set (grouped s)) loaded"
      using load_epochs_loads [OF _ load, of "{}"] by (simp add: set_first_uses loads_def)
    note reg = loads_registry_ok [OF loads]
    have "seal_ok sha256 cu common loaded c = seal_holds sha256 cu keccak parse_key sload common c" if "c \<in> set (grouped s)" for c
      using loads [unfolded loads_def, rule_format, of "seal_epoch c"] that
      by (auto simp: seal_ok_def seal_holds_def split: if_splits)
    then have "valid = (ok \<and> distinct (map claim_slot (grouped s)) \<and>
      (\<forall>c \<in> set (grouped s). seal_holds sha256 cu keccak parse_key sload common c))"
      using check_seals_eq [OF reg shapes, of sha256 cu common "{}" "check_slots (grouped s) {} ok" co2, where 'h = 'h]
      unfolding seals by (simp add: check_slots_eq)
    moreover have "ok = (\<forall>c \<in> set (grouped s). folds sha256 c = Inr True)"
      using fold fold_claims_eq [of "grouped s" sha256 True co1, where 'a = 'h] shapes by auto
    ultimately show ?thesis using False
      unfolding batch_holds_def set_grouped [OF assms(1)] distinct_slots [OF assms(1)] by auto
  qed
  then show thesis using that common by blast
qed

end
