(* ===== verification/B1_Verdict.thy ===== *)
theory B1_Verdict
  imports B1_Batch
begin

text \<open>
  What a certificate batch establishes (\<open>b1/src/batch.rs\<close>): the verdict is exactly the conjunction of the claims' hash
  relations, the intervals and quorums of their seals and the freedom of their slots; the charge is a function
  of the request and covers the work done; and no panic is reachable.
\<close>

section \<open>Errors of the evaluation\<close>

definition host_error :: "'h b1_error \<Rightarrow> bool" where
  "host_error e = (case e of Host _ \<Rightarrow> True | Registry \<Rightarrow> True | _ \<Rightarrow> False)"

lemma host_errors [simp]: "host_error Registry" "host_error (Host h)" "\<not> host_error OutOfGas" "\<not> host_error (Malformed m)"
  by (simp_all add: host_error_def)

text \<open>\<open>fails P m\<close>: if the computation fails, its error satisfies \<open>P\<close>.\<close>

definition fails :: "('e \<Rightarrow> bool) \<Rightarrow> 'e + 'a \<Rightarrow> bool" where
  "fails P m \<longleftrightarrow> (\<forall>e. m = Inl e \<longrightarrow> P e)"

lemma fails_bind: "fails P m \<Longrightarrow> (\<And>x. m = Inr x \<Longrightarrow> fails P (f x)) \<Longrightarrow> fails P (rbind m f)"
  by (cases m) (auto simp: fails_def)

lemma fails_ok_or: "P e \<Longrightarrow> fails P (ok_or e v)"
  by (cases v) (auto simp: fails_def)

lemma fails_map_err: "fails (\<lambda>e. P (g e)) m \<Longrightarrow> fails P (map_err g m)"
  by (cases m) (auto simp: fails_def)

lemma fails_values:
  "fails P (Inr x)" "P e \<Longrightarrow> fails P (Inl e)" "(b \<Longrightarrow> fails P m) \<Longrightarrow> (\<not> b \<Longrightarrow> fails P n) \<Longrightarrow> fails P (if b then m else n)"
  by (auto simp: fails_def)

lemma fails_yields: "yields m Q \<Longrightarrow> fails (\<lambda>e. e \<noteq> Expect) m"
  by (auto simp: fails_def)

lemmas fails_rules = fails_values fails_bind fails_ok_or fails_map_err

lemma fails_small: "fails host_error (small w)"
  by (auto simp: fails_def small_def)

lemma fails_slots: "fails host_error (read_slots sload ks)"
  by (induction ks) (auto simp: read_slot_def fails_def [where m = "sload _"] intro!: fails_rules)

lemma fails_member: "fails host_error (read_member keccak parse_key sload epoch j ms)"
  unfolding read_member_def Let_def by (intro fails_rules fails_slots fails_small) simp_all

lemma fails_members: "fails host_error (read_members keccak parse_key sload epoch js acc ms)"
  by (induction js arbitrary: acc ms) (auto intro!: fails_rules fails_member)

lemma fails_entry: "fails host_error (read_registry_entry keccak parse_key sload epoch)"
  unfolding read_registry_entry_def case_prod_beta by (intro fails_rules fails_slots fails_small fails_members) simp_all

lemma fails_common: "fails host_error (read_common_v2 keccak sload pins)"
  unfolding read_common_v2_def by (intro fails_rules fails_slots fails_small) simp_all

lemma read_entry_error: "read_registry_entry keccak parse_key sload epoch = Inl e \<Longrightarrow> host_error e"
  using fails_entry unfolding fails_def by blast

lemma read_common_error: "read_common_v2 keccak sload pins = Inl e \<Longrightarrow> host_error e"
  using fails_common unfolding fails_def by blast

lemma load_epochs_error: "load_epochs keccak parse_key sload common es loaded co = (Inl e, co') \<Longrightarrow> host_error e"
  by (induction es arbitrary: loaded co)
    (auto simp: sbind_Inl_iff slift_def tally_def Let_def dest: read_entry_error split: if_split_asm option.splits)

lemma evaluate_error:
  fixes sload :: "'h sload"
  assumes "batch_shape s" "evaluate sha256 cu keccak parse_key s pins sload co = (Inl e, co')"
  shows "host_error e"
proof -
  have shapes: "\<forall>c \<in> set (grouped s). claim_shape c \<and> seal_shape c"
    unfolding set_grouped [OF assms(1)] using assms(1) by (simp add: batch_shape_def)
  have fold: "fold_claims sha256 (grouped s) True co1 \<noteq> (Inl e' :: 'h b1_error + bool, co2)" for e' co1 co2
    using fold_claims_eq [of "grouped s" sha256 True co1, where 'a = 'h] shapes by auto
  have seals: "check_seals sha256 cu common loaded (grouped s) {} ok co2 \<noteq> (Inl e' :: 'h b1_error + bool, co3)"
    if "load_epochs keccak parse_key sload common es Map.empty co1 = (Inr loaded, co2')" for e' co1 co2 common loaded ok co3 es co2'
  proof -
    have "loads keccak parse_key sload common (set es) loaded"
      using load_epochs_loads [OF _ that, of "{}"] by (simp add: loads_def)
    then have "\<forall>e x. loaded e = Some x \<longrightarrow> registry_ok x" by (rule loads_registry_ok)
    from check_seals_eq [OF this shapes, of sha256 cu common "{}" ok co2, where 'h = 'h] show ?thesis by (auto simp: prod_eq_iff)
  qed
  show ?thesis using assms(2) fold seals
    by (auto simp: evaluate_def sbind_Inl_iff slift_def tally_def Let_def dest: read_common_error load_epochs_error split: if_split_asm)
qed

section \<open>Requests\<close>

lemma yields_scan_claims: "slice r \<Longrightarrow> yields (scan_claims bounds k r tok paths) (\<lambda>_. True)"
proof (induction k arbitrary: r tok paths)
  case (Suc k)
  have rest: "yields (scan_claims bounds k r' tok' paths') (\<lambda>_. True)" if "\<exists>bs. r = bs @ r'" for r' tok' paths'
    using Suc that slice_suffix by blast
  show ?case unfolding scan_claims.simps Let_def
    using Suc.prems
    by (intro yields_bind [OF yields_parse_claim])
      (auto intro!: yields_if yields_bind [OF yields_readers(7)] yields_bind [OF yields_readers(6)] yields_bind [OF rest] split: prod.splits)
qed simp

definition request_error :: "'h b1_error \<Rightarrow> bool" where
  "request_error e = (case e of Malformed m \<Rightarrow> m \<noteq> Expect | OutOfGas \<Rightarrow> True | _ \<Rightarrow> False)"

lemma request_errors [simp]: "request_error (Malformed m) \<longleftrightarrow> m \<noteq> Expect" "request_error OutOfGas" "\<not> request_error (Host h)" "\<not> request_error Registry"
  by (simp_all add: request_error_def)

lemma scan_batch_error:
  assumes "slice input"
  shows "fails request_error (scan_batch input gas bounds)"
proof -
  have uint: "fails request_error (map_err Malformed (rd_uint n r))" for n r
    using fails_yields [OF yields_readers(2)] by (intro fails_map_err) simp
  have claims: "fails request_error (map_err Malformed (scan_claims bounds k r tok paths))" if "\<exists>bs. input = bs @ r" for k r tok paths
  proof -
    from that obtain bs where "input = bs @ r" by blast
    then have "slice r" using assms slice_suffix by blast
    then show ?thesis using fails_yields [OF yields_scan_claims] by (intro fails_map_err) simp
  qed
  show ?thesis unfolding scan_batch_def Let_def case_prod_beta
    by (intro fails_bind [OF uint] fails_bind [OF claims] fails_values) (auto simp: result_iff rd_uint_iff)
qed

lemma scan_batch_any_gas:
  assumes "(scan_batch input gas bounds :: 'h b1_error + scanned_batch) = Inr s"
  shows "(scan_batch input (-1) bounds :: 'g b1_error + scanned_batch) = Inr s"
proof -
  have "\<not> (- 1 :: u64) < x" for x by (simp add: not_less)
  then show ?thesis using assms unfolding scan_batch_def Let_def case_prod_beta
    by (auto simp: result_iff split: if_split_asm)
qed

lemma dimensions_of_scan:
  assumes "(scan_batch input gas bounds :: 'h b1_error + scanned_batch) = Inr s" "\<not> lm_bytes bounds < length input"
  shows "dimensions_with input bounds = Inr (sb_dims s)"
  using scan_batch_any_gas [OF assms(1), where 'g = unit] assms(2) by (simp add: dimensions_with_def)

section \<open>Work and charge\<close>

fun fresh :: "parsed list \<Rightarrow> bytes set \<Rightarrow> parsed list" where
  "fresh [] seen = []"
| "fresh (p # ps) seen =
     (let seal = it_raw (cl_seal (pa_claim p)) in if seal \<in> seen then fresh ps seen else p # fresh ps (insert seal seen))"

lemma fresh_subset: "set (fresh ps seen) \<subseteq> set ps"
  by (induction ps arbitrary: seen) (auto simp: Let_def)

lemma fresh_length: "length (fresh ps seen) \<le> length ps"
  by (induction ps arbitrary: seen) (auto simp: Let_def le_SucI)

lemma first_uses_length: "length (first_uses es seen) \<le> length es"
  by (induction es arbitrary: seen) (auto simp: le_SucI)

lemma group_claims_totals:
  "gr_a (group_claims ps g) = gr_a g + of_nat (length ps)"
  "gr_p (group_claims ps g) = gr_p g + sum_list (map pa_paths ps)"
  "gr_q (group_claims ps g) = gr_q g + sum_list (map pa_sigs (fresh ps (set (gr_seals g))))"
  "length (gr_seals (group_claims ps g)) = length (gr_seals g) + length (fresh ps (set (gr_seals g)))"
  "length (gr_epochs (group_claims ps g)) =
     length (gr_epochs g) + length (first_uses (map (seal_epoch \<circ> pa_claim) ps) (set (gr_epochs g)))"
  by (induction ps arbitrary: g) (simp_all add: Let_def List.insert_def insert_absorb add.assoc)

lemma load_epochs_work:
  "\<exists>n parses words. snd (load_epochs keccak parse_key sload common es loaded co) =
     co\<lparr>co_epoch_loads := co_epoch_loads co + of_nat n, co_key_parses := co_key_parses co + of_nat parses,
       co_reads := co_reads co + of_nat words\<rparr> \<and> n \<le> length es \<and> parses \<le> 16 * length es \<and> words \<le> 139 * length es"
  (is "\<exists>n parses words. ?P es loaded co n parses words")
proof (induction es arbitrary: loaded co)
  case Nil
  then show ?case by (intro exI [of _ 0]) (simp add: slift_def)
next
  case (Cons e es)
  have grow: "\<exists>n parses words. ?P (e # es) loaded co n parses words"
    if "snd (load_epochs keccak parse_key sload common (e # es) loaded co) = co" using that by (intro exI [of _ 0]) simp
  show ?case
  proof (cases "e < cv_genesis common \<or> cv_origin common < e")
    case True
    then have "load_epochs keccak parse_key sload common (e # es) loaded co = load_epochs keccak parse_key sload common es loaded co" by simp
    moreover obtain n parses words where "?P es loaded co n parses words" using Cons.IH by blast
    ultimately show ?thesis by (intro exI [of _ n] exI [of _ parses] exI [of _ words]) simp
  next
    case False
    show ?thesis
    proof (cases "\<exists>entry. read_registry_entry keccak parse_key sload e = Inr (Some entry)")
      case read: True
      then obtain entry where entry: "read_registry_entry keccak parse_key sload e = Inr (Some entry)" by blast
      let ?n = "length (rg_members entry)"
      have "?n \<le> 16" using registry_entry_shape [OF entry] by (simp add: registry_ok_def)
      let ?co = "co\<lparr>co_epoch_loads := co_epoch_loads co + 1, co_key_parses := co_key_parses co + of_nat ?n,
        co_reads := co_reads co + (11 + 8 * of_nat ?n)\<rparr>"
      obtain n parses words where IH: "?P es (loaded(e \<mapsto> entry)) ?co n parses words" using Cons.IH by blast
      have step: "snd (load_epochs keccak parse_key sload common (e # es) loaded co) =
        (if impossible common e entry then ?co else snd (load_epochs keccak parse_key sload common es (loaded(e \<mapsto> entry)) ?co))"
        using False entry by (simp add: sbind_def slift_def tally_def Let_def)
      show ?thesis
      proof (cases "impossible common e entry")
        case True
        then show ?thesis unfolding step using \<open>?n \<le> 16\<close>
          by - (rule exI [of _ 1], rule exI [of _ ?n], rule exI [of _ "11 + 8 * ?n"], simp)
      next
        case False
        then have "snd (load_epochs keccak parse_key sload common (e # es) loaded co) =
          co\<lparr>co_epoch_loads := co_epoch_loads co + of_nat (Suc n), co_key_parses := co_key_parses co + of_nat (?n + parses),
            co_reads := co_reads co + of_nat (11 + 8 * ?n + words)\<rparr>"
          unfolding step using conjunct1 [OF IH] by (simp add: add.assoc fun_upd_def)
        moreover have "Suc n \<le> length (e # es)" "?n + parses \<le> 16 * length (e # es)" "11 + 8 * ?n + words \<le> 139 * length (e # es)"
          using conjunct2 [OF IH] \<open>?n \<le> 16\<close> by auto
        ultimately show ?thesis by blast
      qed
    next
      case none: False
      then have "snd (load_epochs keccak parse_key sload common (e # es) loaded co) = co"
        using False by (auto simp: sbind_def slift_def split: sum.splits option.splits)
      then show ?thesis by (rule grow)
    qed
  qed
qed

lemma check_seals_work:
  assumes "\<forall>e x. loaded e = Some x \<longrightarrow> registry_ok x"
  shows "\<forall>p \<in> set ps. seal_shape (pa_claim p) \<and> unat (pa_sigs p) = length (signatures (pa_claim p)) \<Longrightarrow>
    \<exists>q n. snd (check_seals sha256 cu common loaded (map pa_claim ps) seen valid co :: ('h b1_error + bool) \<times> counters) =
        co\<lparr>co_quorums := co_quorums co + of_nat q, co_signatures := co_signatures co + of_nat n\<rparr> \<and>
      q \<le> length (fresh ps seen) \<and> n \<le> (\<Sum>p \<leftarrow> fresh ps seen. unat (pa_sigs p))"
proof (induction ps arbitrary: seen valid co)
  case Nil
  then show ?case by (intro exI [of _ 0]) (simp add: slift_def)
next
  case (Cons p ps)
  let ?c = "pa_claim p" and ?seen = "insert (it_raw (cl_seal (pa_claim p))) seen"
  have IH: "\<exists>q n. snd (check_seals sha256 cu common loaded (map pa_claim ps) seen valid co :: ('h b1_error + bool) \<times> counters) =
        co\<lparr>co_quorums := co_quorums co + of_nat q, co_signatures := co_signatures co + of_nat n\<rparr> \<and>
      q \<le> length (fresh ps seen) \<and> n \<le> (\<Sum>p \<leftarrow> fresh ps seen. unat (pa_sigs p))" for seen valid co
    using Cons by simp
  show ?case
  proof (cases "it_raw (cl_seal ?c) \<in> seen")
    case True
    then show ?thesis using IH [of seen valid co] by simp
  next
    case False
    note fresh = False
    show ?thesis
    proof (cases "\<exists>entry. loaded (seal_epoch ?c) = Some entry \<and> \<not> outside common entry ?c")
      case True
      then obtain entry where entry: "loaded (seal_epoch ?c) = Some entry" "\<not> outside common entry ?c" by blast
      let ?co = "co\<lparr>co_quorums := co_quorums co + 1, co_signatures := co_signatures co + of_nat (length (signatures ?c))\<rparr>"
      have step: "(check_seals sha256 cu common loaded (map pa_claim (p # ps)) seen valid co :: ('h b1_error + bool) \<times> counters) =
        check_seals sha256 cu common loaded (map pa_claim ps) ?seen (valid \<and> quorum_holds sha256 cu ?c entry) ?co"
        using fresh entry Cons.prems assms by (simp add: Let_def sbind_def tally_def quorum_exact)
      obtain q n where q: "snd (check_seals sha256 cu common loaded (map pa_claim ps) ?seen (valid \<and> quorum_holds sha256 cu ?c entry) ?co :: ('h b1_error + bool) \<times> counters) =
        ?co\<lparr>co_quorums := co_quorums ?co + of_nat q, co_signatures := co_signatures ?co + of_nat n\<rparr>"
        "q \<le> length (fresh ps ?seen)" "n \<le> (\<Sum>p \<leftarrow> fresh ps ?seen. unat (pa_sigs p))" using IH by blast
      show ?thesis unfolding step q(1) using q(2,3) fresh Cons.prems
        by - (rule exI [of _ "Suc q"], rule exI [of _ "length (signatures ?c) + n"], simp add: Let_def add.assoc)
    next
      case False
      then have step: "(check_seals sha256 cu common loaded (map pa_claim (p # ps)) seen valid co :: ('h b1_error + bool) \<times> counters) =
        check_seals sha256 cu common loaded (map pa_claim ps) ?seen False co"
        using fresh by (auto simp: Let_def split: option.split)
      obtain q n where q: "snd (check_seals sha256 cu common loaded (map pa_claim ps) ?seen False co :: ('h b1_error + bool) \<times> counters) =
        co\<lparr>co_quorums := co_quorums co + of_nat q, co_signatures := co_signatures co + of_nat n\<rparr>"
        "q \<le> length (fresh ps ?seen)" "n \<le> (\<Sum>p \<leftarrow> fresh ps ?seen. unat (pa_sigs p))" using IH by blast
      show ?thesis unfolding step q(1) using q(2,3) fresh
        by - (rule exI [of _ q], rule exI [of _ n], simp add: Let_def)
    qed
  qed
qed

definition work_within :: "parsed list \<Rightarrow> counters \<Rightarrow> bool" where
  "work_within ps co \<longleftrightarrow>
     (let e = length (first_uses (map (seal_epoch \<circ> pa_claim) ps) {}) in
      unat (co_key_parses co) \<le> 16 * e \<and> unat (co_reads co) \<le> 11 + 139 * e \<and> unat (co_folds co) \<le> length ps \<and>
      unat (co_signatures co) \<le> (\<Sum>p \<leftarrow> fresh ps {}. unat (pa_sigs p)))"

lemma unat_of_nat_le: "n \<le> m \<Longrightarrow> unat (of_nat n :: u64) \<le> m"
  by (metis le_trans unat_of_nat mod_less_eq_dividend)

lemma work_withinI:
  assumes "parses \<le> 16 * length (first_uses (map (seal_epoch \<circ> pa_claim) ps) {})"
    "words \<le> 139 * length (first_uses (map (seal_epoch \<circ> pa_claim) ps) {})" "folded \<le> length ps"
    "sigs \<le> (\<Sum>p \<leftarrow> fresh ps {}. unat (pa_sigs p))"
    "co_key_parses co = of_nat parses" "co_reads co = of_nat (11 + words)" "co_folds co = of_nat folded" "co_signatures co = of_nat sigs"
  shows "work_within ps co"
  unfolding work_within_def Let_def assms(5-8) using assms(1-4) by (intro conjI unat_of_nat_le) simp_all

lemma evaluate_work:
  fixes sload :: "'h sload"
  assumes "batch_shape s" "grouped s = map pa_claim ps"
    and "\<forall>p \<in> set ps. unat (pa_sigs p) = length (signatures (pa_claim p))"
    and "evaluate sha256 cu keccak parse_key s pins sload no_work = (Inr valid, co')"
  shows "work_within ps co'"
proof -
  from assms(4) obtain common where common: "read_common_v2 keccak sload pins = Inr common"
    by (auto simp: evaluate_def action_iff)
  have shapes: "\<forall>c \<in> set (grouped s). claim_shape c \<and> seal_shape c"
    unfolding set_grouped [OF assms(1)] using assms(1) by (simp add: batch_shape_def)
  let ?co0 = "no_work\<lparr>co_reads := co_reads no_work + 11\<rparr>"
  show ?thesis
  proof (cases "cv_phase common = 1 \<or> \<not> cv_ready common")
    case True
    then have "co' = ?co0" using assms(4) common by (auto simp: evaluate_def sbind_def slift_def tally_def)
    then show ?thesis by (intro work_withinI [of 0 _ 0 0 0]) (simp_all add: no_work_def)
  next
    case False
    let ?es = "first_uses (map seal_epoch (grouped s)) {}"
    from False obtain loaded co1 ok co2 where
      load: "load_epochs keccak parse_key sload common ?es Map.empty ?co0 = (Inr loaded, co1)"
      and fold: "fold_claims sha256 (grouped s) True co1 = (Inr ok :: 'h b1_error + bool, co2)"
      and seals: "check_seals sha256 cu common loaded (grouped s) {} (check_slots (grouped s) {} ok) co2 = (Inr valid :: 'h b1_error + bool, co')"
      using assms(4) common by (auto simp: evaluate_def action_iff tally_def Let_def split: if_split_asm)
    obtain n parses words where co1: "co1 = ?co0\<lparr>co_epoch_loads := co_epoch_loads ?co0 + of_nat n,
        co_key_parses := co_key_parses ?co0 + of_nat parses, co_reads := co_reads ?co0 + of_nat words\<rparr>"
      "parses \<le> 16 * length ?es" "words \<le> 139 * length ?es"
      using load_epochs_work [of keccak parse_key sload common ?es Map.empty ?co0] unfolding load snd_conv by blast
    have co2: "co2 = co1\<lparr>co_claims := co_claims co1 + of_nat (length ps), co_folds := co_folds co1 + of_nat (length ps)\<rparr>"
      using fold fold_claims_eq [of "grouped s" sha256 True co1, where 'a = 'h] shapes assms(2) by auto
    have "loads keccak parse_key sload common (set ?es) loaded"
      using load_epochs_loads [OF _ load, of "{}"] by (simp add: loads_def)
    then have reg: "\<forall>e x. loaded e = Some x \<longrightarrow> registry_ok x" by (rule loads_registry_ok)
    have "\<forall>p \<in> set ps. seal_shape (pa_claim p) \<and> unat (pa_sigs p) = length (signatures (pa_claim p))"
      using shapes assms(2,3) by auto
    from check_seals_work [OF reg this, of sha256 cu common "{}" "check_slots (grouped s) {} ok" co2, where 'h = 'h]
    obtain q sigs where co': "co' = co2\<lparr>co_quorums := co_quorums co2 + of_nat q, co_signatures := co_signatures co2 + of_nat sigs\<rparr>"
      "sigs \<le> (\<Sum>p \<leftarrow> fresh ps {}. unat (pa_sigs p))"
      unfolding assms(2) [symmetric] seals snd_conv by blast
    show ?thesis using co1(2,3) co'(2) unfolding assms(2) list.map_comp
      by (rule work_withinI [OF _ _ order_refl]) (simp_all add: co1(1) co2 co'(1) no_work_def)
  qed
qed

lemma parsed_paths:
  assumes "parse_claim r tok = Inr (p, r', tok')"
  shows "unat (pa_paths p) \<le> 288"
proof -
  obtain uc body a shard config state ir_hash where body: "read_body uc = Inr body" "p = parsed_from a shard config state ir_hash uc body"
    using assms by (rule parse_claim_parts)
  have bound: "n \<le> mx" if "it_collection m mx it = Inr n" for m mx it n using that by (auto simp: it_collection_def split: if_split_asm)
  obtain sibs steps where "pa_paths p = sibs + steps" "sibs \<le> 256" "steps \<le> 32"
    using body unfolding read_body_def read_shard_cert_def read_tree_cert_def
    by (auto simp: result_iff parsed_from_def dest!: bound split: prod.splits)
  then have "unat sibs \<le> 256" "unat steps \<le> 32" "pa_paths p = sibs + steps" by (simp_all add: word_le_nat_alt)
  then show ?thesis by (simp add: unat_add_exact)
qed

lemma scan_claims_sigs:
  "scan_claims bounds k r tok paths = Inr (found, r') \<Longrightarrow> f \<in> set found \<Longrightarrow> pa_sigs (snd f) \<le> 16"
  by (induction k arbitrary: r tok paths found)
    (auto simp: result_iff Let_def MAX_SEAL_SIGNATURES_def not_less split: if_split_asm)

definition small_claim :: "parsed \<Rightarrow> bool" where
  "small_claim p \<longleftrightarrow> unat (pa_sigs p) = length (signatures (pa_claim p)) \<and> unat (pa_sigs p) \<le> 16 \<and> unat (pa_paths p) \<le> 288"

definition batch_of :: "bytes \<Rightarrow> nat \<Rightarrow> (bytes \<times> parsed) list \<Rightarrow> scanned_batch" where
  "batch_of input k found =
     (let g = group_claims (map ((!) (map snd found)) (distinct_packed (map fst found)))
            \<lparr>gr_a = 0, gr_p = 0, gr_seals = [], gr_epochs = [], gr_q = 0\<rparr> in
      \<lparr>sb_claims = map pa_claim (map snd found), sb_packed = map fst found,
       sb_dims = \<lparr>dm_c = of_nat (length input), dm_k = of_nat k, dm_e = of_nat (length (gr_epochs g)),
         dm_s = of_nat (length (gr_seals g)), dm_q = gr_q g, dm_a = gr_a g, dm_p = gr_p g\<rparr>\<rparr>)"

lemma length_distinct_packed: "length (distinct_packed xs) \<le> length xs"
  unfolding distinct_packed_def using length_filter_le [of _ "[0..<length xs]"] by simp

lemma scan_batch_parts:
  assumes "scan_batch input gas bounds = Inr s"
  obtains r k found where "scan_claims bounds k r 0 0 = Inr (found, [])" "\<exists>bs. input = bs @ r" "1 \<le> k" "k \<le> lm_claims bounds"
    "s = batch_of input k found"
proof -
  from assms obtain v1 r1 where 1: "rd_uint 1 input = Inr (v1, r1)" unfolding scan_batch_def by (auto simp: rbind_Inr_iff map_err_Inr_iff)
  with assms obtain v2 r2 where 2: "rd_uint 1 r1 = Inr (v2, r2)" unfolding scan_batch_def by (auto simp: rbind_Inr_iff map_err_Inr_iff split: if_split_asm)
  with assms 1 obtain v r where 3: "rd_uint 2 r2 = Inr (v, r)" unfolding scan_batch_def by (auto simp: rbind_Inr_iff map_err_Inr_iff split: if_split_asm)
  with assms 1 2 obtain found r' where 4: "scan_claims bounds (unat v) r 0 0 = Inr (found, r')"
    unfolding scan_batch_def Let_def by (auto simp: rbind_Inr_iff map_err_Inr_iff split: if_split_asm)
  have "r' = [] \<and> unat v \<noteq> 0 \<and> unat v \<le> lm_claims bounds \<and> s = batch_of input (unat v) found"
    using assms unfolding scan_batch_def Let_def batch_of_def 1 2 3 4 map_err.simps rbind.simps prod.case by (simp split: if_split_asm)
  moreover have "\<exists>bs. input = bs @ r" using 1 2 3 by (auto simp: rd_uint_iff)
  ultimately show thesis using that [of "unat v" r found] 4 by (simp add: Suc_le_eq)
qed

lemma scan_batch_sizes:
  assumes "slice input" "scan_batch input gas bounds = Inr s"
  obtains ps k where "grouped s = map pa_claim ps" "\<forall>p \<in> set ps. small_claim p" "length ps \<le> k" "1 \<le> k" "k \<le> lm_claims bounds"
    "dimensions_gas (sb_dims s) = batch_gas (of_nat (length input)) (of_nat k)
       (of_nat (length (first_uses (map (seal_epoch \<circ> pa_claim) ps) {}))) (sum_list (map pa_sigs (fresh ps {}))) (of_nat (length ps))
       (sum_list (map pa_paths ps))"
proof -
  obtain r k found where scan: "scan_claims bounds k r 0 0 = Inr (found, [])" and pre: "\<exists>bs. input = bs @ r"
    and k: "1 \<le> k" "k \<le> lm_claims bounds" and s: "s = batch_of input k found"
    using assms(2) by (rule scan_batch_parts)
  let ?ps = "map ((!) (map snd found)) (distinct_packed (map fst found))"
  have "slice r" using pre assms(1) slice_suffix by blast
  note found = scan_claims_parsed [OF this scan]
  have less: "i < length found" if "i \<in> set (distinct_packed (map fst found))" for i using distinct_packed_less [OF that] by simp
  have small: "small_claim (snd f)" if "f \<in> set found" for f
  proof -
    from found that obtain rest tok tok' where f: "slice (fst f @ rest)" "parse_claim (fst f @ rest) tok = Inr (snd f, rest, tok')"
      unfolding parsed_as_def by blast
    have "unat (pa_sigs (snd f)) \<le> 16" using scan_claims_sigs [OF scan that] by (simp add: word_le_nat_alt)
    then show ?thesis using parsed_shape(3) [OF f] parsed_paths [OF f(2)] by (simp add: small_claim_def)
  qed
  have parts: "sb_claims s = map pa_claim (map snd found)" "sb_packed s = map fst found"
    unfolding s batch_of_def Let_def by simp_all
  have 1: "grouped s = map pa_claim ?ps"
    unfolding grouped_def parts list.map_comp by (rule map_cong [OF refl]) (simp add: less)
  have 2: "\<forall>p \<in> set ?ps. small_claim p"
  proof
    fix p assume "p \<in> set ?ps"
    then obtain i where "i \<in> set (distinct_packed (map fst found))" "p = snd (found ! i)" using less by auto
    then show "small_claim p" using small less by simp
  qed
  have 3: "length ?ps \<le> k" using found length_distinct_packed [of "map fst found"] by simp
  show thesis by (rule that [OF 1 2 3 k]) (simp only: s batch_of_def Let_def dimensions_gas_def group_claims_totals scanned_batch.simps
    dimensions.simps grouping.simps list.size list.set add_0)
qed

lemma batch_gas_exact:
  assumes "c \<le> 262144" "1 \<le> k" "k \<le> 16" "e \<le> 16" "q \<le> 256" "a \<le> 16" "p \<le> 4608"
  shows "unat (batch_gas (of_nat c) (of_nat k) (of_nat e) (of_nat q) (of_nat a) (of_nat p)) =
    61100 + 16 * c + 500 * k * (k - 1) + 29900 * e + 7200 * q + 2000 * a + 250 * p"
proof -
  let ?n = "61100 + 16 * c + 500 * k * (k - 1) + 29900 * e + 7200 * q + 2000 * a + 250 * p"
  have "batch_gas (of_nat c) (of_nat k) (of_nat e) (of_nat q) (of_nat a) (of_nat p) = of_nat ?n"
    using assms(2) by (simp add: batch_gas_def batch_scan_gas_def READ_GAS_def COMMON_WORDS_def EPOCH_WORDS_def MAX_MEMBERS_def of_nat_diff)
  moreover have "500 * k * (k - 1) \<le> 500 * 16 * 16" using assms(3) by (intro mult_le_mono) simp_all
  then have "?n < 2 ^ 63" using assms by simp
  then have "unat (of_nat ?n :: u64) = ?n" by (rule unat_length)
  ultimately show ?thesis by (simp only:)
qed

lemma sum_list_of_nat: "sum_list ws = (of_nat (sum_list (map unat ws)) :: u64)"
  by (induction ws) simp_all

lemma sum_list_le_mult: "\<forall>x \<in> set xs. f x \<le> (b :: nat) \<Longrightarrow> (\<Sum>x \<leftarrow> xs. f x) \<le> b * length xs"
  by (induction xs) auto

lemma charge_covers:
  assumes "\<forall>p \<in> set ps. small_claim p" "length ps \<le> k" "1 \<le> k" "k \<le> 16" "c \<le> 262144" "work_within ps co"
    and "charge = batch_gas (of_nat c) (of_nat k) (of_nat (length (first_uses (map (seal_epoch \<circ> pa_claim) ps) {})))
       (sum_list (map pa_sigs (fresh ps {}))) (of_nat (length ps)) (sum_list (map pa_paths ps))"
  shows "7200 * unat (co_signatures co) + 2000 * unat (co_folds co) + 1000 * unat (co_key_parses co) + 100 * unat (co_reads co) \<le> unat charge"
proof -
  let ?e = "length (first_uses (map (seal_epoch \<circ> pa_claim) ps) {})"
  let ?q = "\<Sum>p \<leftarrow> fresh ps {}. unat (pa_sigs p)" and ?p = "\<Sum>p \<leftarrow> ps. unat (pa_paths p)"
  have e: "?e \<le> 16" using first_uses_length [of "map (seal_epoch \<circ> pa_claim) ps" "{}"] assms(2,4) by simp
  have "?q \<le> 16 * length (fresh ps {})" using assms(1) fresh_subset [of ps "{}"] by (intro sum_list_le_mult) (auto simp: small_claim_def)
  then have q: "?q \<le> 256" using fresh_length [of ps "{}"] assms(2,4) by simp
  have "?p \<le> 288 * length ps" using assms(1) by (intro sum_list_le_mult) (auto simp: small_claim_def)
  then have p: "?p \<le> 4608" using assms(2,4) by simp
  have "unat charge = 61100 + 16 * c + 500 * k * (k - 1) + 29900 * ?e + 7200 * ?q + 2000 * length ps + 250 * ?p"
    unfolding assms(7) sum_list_of_nat [of "map pa_sigs _"] sum_list_of_nat [of "map pa_paths _"] list.map_comp comp_def
    using assms(2-5) e q p by (intro batch_gas_exact [unfolded comp_def]) (simp_all add: comp_def)
  then show ?thesis using assms(6) unfolding work_within_def Let_def by simp
qed

lemma run_with_cases:
  fixes sload :: "'h sload"
  assumes "run_with sha256 cu keccak parse_key input gas pins sload bounds = (res, co)"
  obtains e where "res = Inl e" "request_error e" "co = no_work"
    | s e where "(scan_batch input gas bounds :: 'h b1_error + scanned_batch) = Inr s" "\<not> lm_bytes bounds < length input" "dimensions_gas (sb_dims s) \<le> gas"
      "evaluate sha256 cu keccak parse_key s pins sload no_work = (Inl e, co)" "res = Inl e"
    | s valid where "(scan_batch input gas bounds :: 'h b1_error + scanned_batch) = Inr s" "\<not> lm_bytes bounds < length input" "dimensions_gas (sb_dims s) \<le> gas"
      "evaluate sha256 cu keccak parse_key s pins sload no_work = (Inr valid, co)" "res = Inr (versioned (dimensions_gas (sb_dims s)) 2 valid)"
    | e where "scan_batch input gas bounds = Inl e" "res = Inl e" "co = no_work"
proof -
  note run = assms [unfolded run_with_def]
  show thesis
  proof (cases "lm_bytes bounds < length input")
    case True
    then show ?thesis using run that(1) [of "Malformed Limit"] by (simp add: slift_def)
  next
    case False
    note fits = False
    show ?thesis
    proof (cases "gas < saturating_add 60000 (saturating_mul 16 (of_nat (length input)))")
      case True
      then show ?thesis using run fits that(1) [of OutOfGas] by (simp add: slift_def)
    next
      case False
      note paid = False
      show ?thesis
      proof (cases "scan_batch input gas bounds :: 'h b1_error + scanned_batch")
        case (Inl e)
        then show ?thesis using run fits paid that(4) [of e] by (simp add: slift_def sbind_def)
      next
        case (Inr s)
        show ?thesis
        proof (cases "gas < dimensions_gas (sb_dims s)")
          case True
          then show ?thesis using run fits paid Inr that(1) [of OutOfGas] by (simp add: slift_def sbind_def)
        next
          case False
          then have tail: "sbind (evaluate sha256 cu keccak parse_key s pins sload) (\<lambda>valid.
              slift (Inr (versioned (dimensions_gas (sb_dims s)) 2 valid))) no_work = (res, co)"
            using run fits paid Inr by (simp add: slift_def sbind_def Let_def)
          have le: "dimensions_gas (sb_dims s) \<le> gas" using False by (simp add: not_less)
          obtain out co1 where ev: "evaluate sha256 cu keccak parse_key s pins sload no_work = (out, co1)" by fastforce
          show ?thesis
          proof (cases out)
            case (Inl e)
            then show ?thesis using tail ev that(2) [OF Inr fits le] by (simp add: sbind_def)
          next
            case valid: (Inr valid)
            then show ?thesis using tail ev that(3) [OF Inr fits le] by (simp add: sbind_def slift_def)
          qed
        qed
      qed
    qed
  qed
qed

section \<open>A request\<close>

text \<open>One claim under one seal, a registry with one entry whose only member signed it, and a curve on which every signature recovers.\<close>

definition batch_member :: b1_member where
  "batch_member = \<lparr>mb_node_id = [0x61], mb_key = replicate 33 2, mb_weight = 5\<rparr>"

definition batch_entry :: b1_entry where
  "batch_entry = (sample_entry 2 1 None)\<lparr>en_members := [batch_member]\<rparr>"

definition batch_keccak :: keccak where
  "batch_keccak bs =
     (if length bs = 96 then from_be (drop 64 bs) else if length bs = 128 then 100 + from_be (drop 96 bs)
      else 200 + of_nat (length (takeWhile (\<lambda>n. ascii ''unicity.seal-registry/'' @ ascii n \<noteq> bs) common_names)))"

definition batch_sload :: "unit sload" where
  "batch_sload k =
     (if k < 11 then Inr (entry_words batch_entry ! unat k)
      else if k < 200 then Inr (member_words batch_member ! (unat k - 100))
      else Inr ([7, 2, 1, 3, 8, 2, 1, 2, 1, 5, 2] ! (unat k - 200)))"

definition batch_curve :: "bytes curve" where
  "batch_curve = \<lparr>cu_recovery_id = (\<lambda>_. True), cu_compact = (\<lambda>_. True), cu_low_s = (\<lambda>_. True),
     cu_recover = (\<lambda>_ _ _. Some (replicate 33 2))\<rparr>"

abbreviation batch_read :: "bytes registry_entry" where
  "batch_read \<equiv> \<lparr>rg_start = 1, rg_end = None, rg_total = 5,
     rg_members = [\<lparr>rg_id = [0x61], rg_key = replicate 33 2, rg_weight = 5\<rparr>]\<rparr>"

abbreviation batch_pins :: pins where
  "batch_pins \<equiv> \<lparr>pn_genesis_commitment = 7, pn_profile_hash = 8\<rparr>"

abbreviation batch_common :: common_v2 where
  "batch_common \<equiv> \<lparr>cv_phase = 2, cv_network = 3, cv_genesis = 1, cv_ready = True, cv_origin = 2, cv_round = 5\<rparr>"

lemma batch_entry_read: "read_registry_entry batch_keccak Some batch_sload 2 = Inr (Some batch_read)"
proof -
  have "unat (of_nat i :: b256) = i" "(ucast (of_nat i :: u64) :: b256) = of_nat i" if "i < 11" for i
    using that by (simp_all add: word_unat_eq_iff unat_ucast_up unat_of_nat)
  moreover have "unat (100 + of_nat f :: b256) = 100 + f" "(ucast (of_nat f :: u64) :: b256) = of_nat f" if "f < 8" for f
    using that by (simp_all add: word_unat_eq_iff unat_ucast_up unat_of_nat unat_word_ariths)
  ultimately have "holds_entry batch_keccak batch_sload batch_entry"
    by (auto simp: holds_entry_def batch_sload_def batch_keccak_def entry_slot_def member_slot_def derived_def
      from_be_to_be word_less_nat_alt batch_entry_def)
  moreover have "b1_entry_ok batch_entry"
    by (simp add: batch_entry_def sample_entry_def b1_entry_ok_def member_ok_def batch_member_def)
  moreover have "entry_validate (\<lambda>k. Some k \<noteq> None) batch_entry = Inr ()"
    by (simp add: entry_validate_iff batch_entry_def sample_entry_def members_ok_def batch_member_def WEIGHT_CAP_B_def)
  ultimately have "read_registry_entry batch_keccak Some batch_sload (en_epoch batch_entry) = Inr (Some (entry_of Some batch_entry))"
    by (rule registry_entry_read) (simp add: one_encoding_def)
  then show ?thesis by (simp add: entry_of_def entry_total_def member_of_def batch_entry_def sample_entry_def batch_member_def)
qed

lemma batch_common_read: "read_common_v2 batch_keccak batch_sload batch_pins = Inr batch_common"
proof -
  have "map (fixed_slot batch_keccak) common_names = [200, 201, 202, 203, 204, 205, 206, 207, 208, 209, 210]"
    by code_simp
  moreover have "read_slots batch_sload [200, 201, 202, 203, 204, 205, 206, 207, 208, 209, 210] = Inr [7, 2, 1, 3, 8, 2, 1, 2, 1, 5, 2]"
    by (simp add: read_slot_def batch_sload_def)
  ultimately show ?thesis by (simp add: read_common_v2_def small_def)
qed

definition batch_request :: bytes where
  "batch_request = [2, 0, 0, 1] @ sample_packed"

abbreviation batch_parsed :: parsed where
  "batch_parsed \<equiv> \<lparr>pa_claim = sample_claim, pa_paths = 0, pa_sigs = 1\<rparr>"

definition batch_scanned :: scanned_batch where
  "batch_scanned = batch_of batch_request 1 [(sample_packed, batch_parsed)]"

lemma sample_signatures: "signatures sample_claim = [([0x61], replicate 65 1)]"
proof -
  have "tree_ok (CMap [CText [0x61], CBytes (replicate 65 1)])" by (simp add: tree_ok_def slice_def major_def)
  then show ?thesis using children_tree(2) by (simp add: signatures_def claim_of_def sample_certificate_def signature_trees_def)
qed

lemma sample_shapes: "claim_shape sample_claim" "seal_shape sample_claim"
  using parsed_shape(1,2) [OF sample_slice(2) sample_parsed [of "[]", simplified]] by simp_all

lemma sample_quorum: "quorum_holds sha256 batch_curve sample_claim batch_read"
  by (simp add: quorum_holds_def well_signed_def sample_signatures weight_of_def signed_by_def recovers_to_def batch_curve_def)

lemma batch_length: "length batch_request \<le> 25000" "slice batch_request"
  using sample_trees(2) by (simp_all add: batch_request_def pack_claim_def slice_def)

lemma small_funds:
  assumes "n \<le> 25000"
  shows "\<not> 1000000 < batch_scan_gas (of_nat n) 1" "\<not> 1000000 < saturating_add 60000 (saturating_mul 16 (of_nat n :: u64))"
proof -
  have n: "unat (of_nat n :: u64) = n" using assms by (intro unat_length) simp
  then have m: "unat (16 * of_nat n :: u64) = 16 * n" using assms by (simp add: unat_mult_exact)
  then have "unat (60000 + 16 * of_nat n :: u64) = 60000 + 16 * n" using assms by (simp add: unat_add_exact)
  then show "\<not> 1000000 < batch_scan_gas (of_nat n) 1" "\<not> 1000000 < saturating_add 60000 (saturating_mul 16 (of_nat n :: u64))"
    using assms n m by (simp_all add: batch_scan_gas_def saturating_add_def saturating_mul_def word_less_nat_alt)
qed

lemmas batch_funds = small_funds [OF batch_length(1)]

lemma batch_scan_claims: "scan_claims STANDARD 1 sample_packed 0 0 = Inr ([(sample_packed, batch_parsed)], [])"
proof -
  have "cl_shard_cert sample_claim ! 1 = tree_item (CBytes [0x80])" "cl_shard_cert sample_claim ! 2 = tree_item (CArray [])"
    by (simp_all add: claim_of_def sample_certificate_def)
  then show ?thesis using sample_parsed [of "[]"] sample_trees(4)
    by (simp add: STANDARD_def MAX_RAW_PATHS_def MAX_SEAL_SIGNATURES_def it_collection_def it_null_def)
qed

lemma batch_scan: "scan_batch batch_request 1000000 STANDARD = Inr batch_scanned"
proof -
  have "rd_uint 1 batch_request = Inr (2, [0, 0, 1] @ sample_packed)" "rd_uint 1 ([0, 0, 1] @ sample_packed) = Inr (0, [0, 1] @ sample_packed)"
    "rd_uint 2 ([0, 1] @ sample_packed) = Inr (1, sample_packed)"
    by (simp_all add: batch_request_def rd_uint_def rd_take_def fold_be_def)
  moreover have "\<not> MAX_SIGNATURES < 1" by (simp add: MAX_SIGNATURES_def)
  ultimately show ?thesis using batch_scan_claims batch_funds(1)
    unfolding scan_batch_def batch_scanned_def batch_of_def
    by (simp add: Let_def STANDARD_def [THEN arg_cong, of lm_claims] STANDARD_def [THEN arg_cong, of lm_signatures] MAX_CLAIMS_def distinct_packed_def)
qed

lemma batch_grouped: "grouped batch_scanned = [sample_claim]" "seal_epoch sample_claim = 2" "\<not> outside batch_common batch_read sample_claim"
  by (simp_all add: grouped_def batch_scanned_def batch_of_def Let_def distinct_packed_def seal_epoch_def outside_def claim_of_def sample_certificate_def)

lemma batch_dims: "dimensions_gas (sb_dims batch_scanned) = batch_gas (of_nat (length batch_request)) 1 1 1 1 0"
  using batch_grouped(2) by (simp add: batch_scanned_def batch_of_def Let_def distinct_packed_def dimensions_gas_def)

lemma batch_affordable: "\<not> 1000000 < dimensions_gas (sb_dims batch_scanned)"
proof -
  have "unat (batch_gas (of_nat (length batch_request)) 1 1 1 1 0) = 61100 + 16 * length batch_request + 29900 + 7200 + 2000"
    using batch_gas_exact [of "length batch_request" 1 1 1 1 0] batch_length(1) by simp
  then show ?thesis unfolding batch_dims using batch_length(1) by (simp add: word_less_nat_alt)
qed

lemma batch_evaluates:
  "\<exists>co. evaluate (\<lambda>_. 7) batch_curve batch_keccak Some batch_scanned batch_pins batch_sload no_work = (Inr True, co)"
proof -
  have quorum: "quorum (\<lambda>_. 7) batch_curve sample_claim batch_read co =
      (Inr True, co\<lparr>co_signatures := co_signatures co + of_nat (length (signatures sample_claim))\<rparr>)" for co
    using quorum_exact [OF sample_shapes(2), of batch_read "\<lambda>_. 7" batch_curve] sample_quorum by (simp add: registry_ok_def)
  show ?thesis
    by (simp add: evaluate_def batch_common_read batch_grouped batch_entry_read impossible_def sample_folds quorum
      sbind_def slift_def tally_def Let_def)
qed

lemma batch_runs:
  "\<exists>co. batch_run (\<lambda>_. 7) batch_curve batch_keccak Some batch_request 1000000 batch_pins batch_sload =
     (Inr (versioned (dimensions_gas (sb_dims batch_scanned)) 2 True), co)"
proof -
  obtain co where co: "evaluate (\<lambda>_. 7) batch_curve batch_keccak Some batch_scanned batch_pins batch_sload no_work = (Inr True, co)"
    using batch_evaluates by blast
  have fits: "\<not> lm_bytes STANDARD < length batch_request" using batch_length(1) by (simp add: STANDARD_def MAX_BYTES_def)
  show ?thesis using fits batch_funds(2) batch_affordable batch_scan [where 'a = unit] co
    by (simp add: batch_run_def run_with_def slift_def sbind_def Let_def)
qed

text \<open>A second claim, under a later seal.\<close>

definition later_certificate :: certificate where
  "later_certificate = sample_certificate\<lparr>ct_root_round := 6\<rparr>"

abbreviation later_claim :: claim where
  "later_claim \<equiv> claim_of 1 [0x80] (replicate 32 0) (replicate 32 0) (b256_bytes 7) later_certificate"

abbreviation later_packed :: bytes where
  "later_packed \<equiv> pack_claim 1 [0x80] (replicate 32 0) (replicate 32 0) (b256_bytes 7) later_certificate"

lemma later_trees:
  "certificate_ok later_certificate" "length (enc (uc_tree later_certificate)) \<le> 24576" "nodes (uc_tree later_certificate) \<le> 64"
proof -
  show "certificate_ok later_certificate" using sample_trees(1) by (simp add: certificate_ok_def later_certificate_def)
  show "nodes (uc_tree later_certificate) \<le> 64" "length (enc (uc_tree later_certificate)) \<le> 24576"
    by (simp_all add: uc_tree_def ir_tree_def shard_tree_def path_tree_def seal_tree_def opt_tree_def later_certificate_def
      sample_certificate_def major_def)
qed

lemma later_slice: "slice later_packed"
  using later_trees(2) by (simp add: slice_def pack_claim_def)

lemma later_parsed:
  "parse_claim later_packed 0 = Inr (\<lparr>pa_claim = later_claim, pa_paths = 0, pa_sigs = 1\<rparr>, [], nodes (uc_tree later_certificate))"
proof -
  have "length (ct_siblings later_certificate) = 0" "length (ct_steps later_certificate) = 0" "length (ct_signatures later_certificate) = 1"
    by (simp_all add: later_certificate_def sample_certificate_def)
  then show ?thesis
    using parse_packed [of later_certificate "[0x80]" 0 "replicate 32 0" "replicate 32 0" "b256_bytes 7" 0 1 "[]"] later_trees sample_trees(4)
    by simp
qed

lemma later_shape: "seal_shape later_claim"
  using parsed_shape(2) [OF later_slice later_parsed] by simp

lemma later_quorum: "quorum_holds sha256 batch_curve later_claim batch_read"
proof -
  have "tree_ok (CMap [CText [0x61], CBytes (replicate 65 1)])" by (simp add: tree_ok_def slice_def major_def)
  then have "signatures later_claim = [([0x61], replicate 65 1)]"
    using children_tree(2) by (simp add: signatures_def claim_of_def later_certificate_def sample_certificate_def signature_trees_def)
  then show ?thesis
    by (simp add: quorum_holds_def well_signed_def weight_of_def signed_by_def recovers_to_def batch_curve_def)
qed

section \<open>Properties\<close>

text \<open>
  Claim C38. Two seals cannot both reach quorum under one committee unless members holding more than a third of its weight signed
  both: for any two parsed claims whose seals the kernel finds to have a quorum under the same registry entry, the members
  whose listed signature of each seal recovers to their key weigh, together, more than a third of the total. Each member
  counts once per seal, however the signature maps are written.
\<close>

theorem quorums_intersect:
  assumes "slice r" "parse_claim r tok = Inr (p, rest, tok')" "slice r2" "parse_claim r2 tok2 = Inr (p2, rest2, tok2')"
    and "registry_ok e"
    and "fst (quorum sha256 cu (pa_claim p) e co) = Inr True" "fst (quorum sha256 cu (pa_claim p2) e co2) = Inr True"
  shows "unat (rg_total e) < 3 * weight_of (\<lambda>m. signed_by sha256 cu (pa_claim p) m \<and> signed_by sha256 cu (pa_claim p2) m) e"
proof -
  have "2 * unat (rg_total e) < 3 * weight_of (signed_by sha256 cu (pa_claim p)) e"
    "2 * unat (rg_total e) < 3 * weight_of (signed_by sha256 cu (pa_claim p2)) e"
    using assms(6,7) unfolding quorum_exact [OF parsed_shape(2) [OF assms(1,2)] assms(5)]
      quorum_exact [OF parsed_shape(2) [OF assms(3,4)] assms(5)] quorum_holds_def by simp_all
  moreover have "weight_of (signed_by sha256 cu (pa_claim p)) e + weight_of (signed_by sha256 cu (pa_claim p2)) e \<le>
    unat (rg_total e) + weight_of (\<lambda>m. signed_by sha256 cu (pa_claim p) m \<and> signed_by sha256 cu (pa_claim p2) m) e"
    using weight_overlap [of "signed_by sha256 cu (pa_claim p)" e "signed_by sha256 cu (pa_claim p2)"] assms(5)
    by (simp add: registry_ok_def)
  ultimately show ?thesis by linarith
qed

theorem quorums_intersect_witness:
  "fst (quorum (\<lambda>_. 7) batch_curve sample_claim batch_read no_work :: (unit b1_error + bool) \<times> counters) = Inr True \<and>
   5 < 3 * weight_of (\<lambda>m. signed_by (\<lambda>_. 7) batch_curve sample_claim m \<and> signed_by (\<lambda>_. 7) batch_curve later_claim m) batch_read"
proof -
  have ok: "registry_ok batch_read" by (simp add: registry_ok_def)
  have one: "fst (quorum (\<lambda>_. 7) batch_curve sample_claim batch_read no_work :: (unit b1_error + bool) \<times> counters) = Inr True"
    by (simp add: quorum_exact [OF sample_shapes(2) ok] sample_quorum)
  have two: "fst (quorum (\<lambda>_. 7) batch_curve later_claim batch_read no_work :: (unit b1_error + bool) \<times> counters) = Inr True"
    by (simp add: quorum_exact [OF later_shape ok] later_quorum)
  show ?thesis using one quorums_intersect [OF sample_slice(2) sample_parsed [of "[]", simplified] later_slice later_parsed ok, of "\<lambda>_. 7" batch_curve no_work no_work]
      one two by simp
qed

text \<open>
  Claim C39. The verdict of a batch is exact: a call that answers has read the common words of the pinned deployment, and answers
  true if and only if the registry is in the active phase with a ready origin, every claim of the request satisfies
  its hash relations, every seal names an epoch between genesis and origin whose registry entry covers its round and network and
  under which signers of more than two thirds of the weight signed it, and no two different claims of the
  request share a seal, partition and shard. Repeated claims and seals are checked once and still speak for every occurrence.
\<close>

theorem batch_verdict_exact:
  fixes sload :: "'h sload"
  assumes "slice input" "run_with sha256 cu keccak parse_key input gas pins sload bounds = (Inr out, co)"
  shows "\<exists>s common. (scan_batch input gas bounds :: 'h b1_error + scanned_batch) = Inr s \<and> read_common_v2 keccak sload pins = Inr common \<and>
    out = versioned (dimensions_gas (sb_dims s)) 2 (batch_holds sha256 cu keccak parse_key sload common s)"
  using assms(2)
proof (cases rule: run_with_cases)
  case (3 s valid)
  obtain common where "read_common_v2 keccak sload pins = Inr common"
    "valid = batch_holds sha256 cu keccak parse_key sload common s"
    using evaluate_holds [OF scan_batch_shape [OF assms(1) 3(1)] 3(4)] by blast
  then show ?thesis using 3(1,5) by auto
qed simp_all

theorem batch_verdict_exact_witness:
  "fst (batch_run (\<lambda>_. 7) batch_curve batch_keccak Some batch_request 1000000 batch_pins batch_sload) =
     Inr (versioned (dimensions_gas (sb_dims batch_scanned)) 2 True) \<and>
   batch_holds (\<lambda>_. 7) batch_curve batch_keccak Some batch_sload batch_common batch_scanned"
proof -
  obtain co where run: "batch_run (\<lambda>_. 7) batch_curve batch_keccak Some batch_request 1000000 batch_pins batch_sload =
     (Inr (versioned (dimensions_gas (sb_dims batch_scanned)) 2 True), co)" using batch_runs by blast
  from batch_verdict_exact [OF batch_length(2) this [unfolded batch_run_def]]
  have "versioned (dimensions_gas (sb_dims batch_scanned)) 2 True = versioned (dimensions_gas (sb_dims batch_scanned)) 2
      (batch_holds (\<lambda>_. 7) batch_curve batch_keccak Some batch_sload batch_common batch_scanned)"
    using batch_scan [where 'a = unit] batch_common_read by auto
  then show ?thesis using run versioned_inj by (metis fst_conv)
qed

text \<open>
  Claim C40. What a certificate batch costs depends on the request alone and pays for the work. A standalone call that answers
  charges the gas of the dimensions of its request, within the supplied gas, and at 7,200 a signature, 2,000 a fold, 1,000 a key and
  100 a registry word the charge covers everything it did. A malformed or underfunded request is refused before any work, no
  panic is reachable, and any other failure is the host's or the registry's, after the charge was found to fit.
\<close>

theorem batch_charge:
  assumes "slice input" "batch_run sha256 cu keccak parse_key input gas pins sload = (res, co)"
  shows "case res of
      Inr out \<Rightarrow> \<exists>d. batch_dimensions input = Inr d \<and> out_gas out = dimensions_gas d \<and> dimensions_gas d \<le> gas \<and>
        7200 * unat (co_signatures co) + 2000 * unat (co_folds co) + 1000 * unat (co_key_parses co) + 100 * unat (co_reads co)
          \<le> unat (out_gas out)
    | Inl (Malformed m) \<Rightarrow> m \<noteq> Expect \<and> co = no_work
    | Inl OutOfGas \<Rightarrow> co = no_work
    | Inl _ \<Rightarrow> \<exists>d. batch_dimensions input = Inr d \<and> dimensions_gas d \<le> gas"
  using assms(2) [unfolded batch_run_def]
proof (cases rule: run_with_cases)
  case (1 e)
  then show ?thesis by (cases e) simp_all
next
  case (2 s e)
  then have "host_error e" using evaluate_error [OF scan_batch_shape [OF assms(1) 2(1)]] by blast
  moreover have "batch_dimensions input = Inr (sb_dims s)" unfolding batch_dimensions_def by (rule dimensions_of_scan [OF 2(1,2)])
  ultimately show ?thesis using 2(3,5) by (cases e) auto
next
  case (3 s valid)
  obtain ps k where ps: "grouped s = map pa_claim ps" "\<forall>p \<in> set ps. small_claim p" "length ps \<le> k" "1 \<le> k" "k \<le> lm_claims STANDARD"
    and gas: "dimensions_gas (sb_dims s) = batch_gas (of_nat (length input)) (of_nat k)
       (of_nat (length (first_uses (map (seal_epoch \<circ> pa_claim) ps) {}))) (sum_list (map pa_sigs (fresh ps {}))) (of_nat (length ps))
       (sum_list (map pa_paths ps))"
    using assms(1) 3(1) by (rule scan_batch_sizes)
  have "work_within ps co"
    using ps(2) by (intro evaluate_work [OF scan_batch_shape [OF assms(1) 3(1)] ps(1) _ 3(4)]) (simp add: small_claim_def)
  moreover have "length input \<le> 262144" "k \<le> 16" using 3(2) ps(5) by (simp_all add: STANDARD_def MAX_BYTES_def MAX_CLAIMS_def)
  ultimately have "7200 * unat (co_signatures co) + 2000 * unat (co_folds co) + 1000 * unat (co_key_parses co) + 100 * unat (co_reads co)
      \<le> unat (dimensions_gas (sb_dims s))"
    using ps(2-4) gas by (intro charge_covers)
  moreover have "batch_dimensions input = Inr (sb_dims s)" unfolding batch_dimensions_def by (rule dimensions_of_scan [OF 3(1,2)])
  ultimately show ?thesis using 3(3,5) by (simp add: versioned_def)
next
  case (4 e)
  then have "request_error e" using scan_batch_error [OF assms(1), of gas STANDARD] unfolding fails_def by blast
  then show ?thesis using 4 by (cases e) simp_all
qed

theorem batch_charge_witness:
  "\<exists>out co. batch_run (\<lambda>_. 7) batch_curve batch_keccak Some batch_request 1000000 batch_pins batch_sload = (Inr out, co) \<and>
     out_gas out \<le> 1000000 \<and> 7200 * unat (co_signatures co) + 2000 * unat (co_folds co) + 1000 * unat (co_key_parses co) +
       100 * unat (co_reads co) \<le> unat (out_gas out)"
proof -
  obtain co where run: "batch_run (\<lambda>_. 7) batch_curve batch_keccak Some batch_request 1000000 batch_pins batch_sload =
     (Inr (versioned (dimensions_gas (sb_dims batch_scanned)) 2 True), co)" using batch_runs by blast
  show ?thesis using batch_charge [OF batch_length(2) run] run by auto
qed

end
