(* ===== verification/Spec2Isabelle.thy ===== *)
theory Spec2Isabelle
  imports Companion_Retention Pair_Binding Quantization Registry_Transition B1_Verdict
begin

text \<open>
  \<^bold>\<open>Verification of the Unicity execution node.\<close>

  The repository is an Ethereum execution client with a Unicity extension. The client proper (networking, database, trie,
  transaction pool, RPC) is the upstream code the extension links against; the logic that the extension adds is in
  \<open>src/crates/unicity\<close>, and the parts of it listed below are what this development models. A block of the extension is built from a root input
  handed down by the root chain; the node checks the input, admits the update of the root's trust base and the root-record
  import it commits to, runs privileged system calls for them, executes the block under its own gas accounting, and keeps beside
  the block a companion record with the input and the accounting that replay needs. Contracts verify root-chain
  certificates through native precompiles.

  \<^bold>\<open>Parts and theories.\<close>

  \<^item> \<open>Unicity_Prelude\<close>: words, byte strings, results (\<open>'e + 'a\<close>, with \<open>rbind\<close> for the question-mark operator),
    checked arithmetic, big-endian encodings, and the rules for readers that consume a byte string.
  \<^item> \<open>Record_Codec\<close> (\<open>store/src/encoding.rs\<close>, \<open>accounting.rs\<close>), \<open>Companion_Store\<close> and \<open>Companion_Retention\<close>
    (\<open>store/src/store.rs\<close>): the record codecs; the five MDBX databases as sorted tables, one function per operation, every
    database call with an injected failure, a transaction either committed or dropped. The store refines an abstract
    map with a horizon; every operation keeps the index and the records in step.
  \<^item> \<open>Block_Accounting\<close> (\<open>execution/src/block.rs\<close>, the accounting half of \<open>block_executor.rs\<close>): the gas split of a block and
    the base-fee rule, exact over unbounded integers.
  \<^item> \<open>Canonical_Cbor\<close> and \<open>Root_Input\<close> (\<open>execution/src/lib.rs\<close>, \<open>wire.rs\<close>): the canonical encoder and bounded decoder,
    root inputs, their commitment, epoch transitions and build envelopes. The decoder accepts exactly the encodings.
  \<^item> \<open>Pair_Binding\<close> (\<open>pairing.rs\<close>), \<open>Quantization\<close> (\<open>quant.rs\<close>): the binding of a payload to its job, the weights of a committee.
  \<^item> \<open>Record_Import\<close> (\<open>records.rs\<close>), \<open>Records_Hook\<close> (\<open>hook.rs\<close>), \<open>Update_Codec\<close> and \<open>Update_Admission\<close> (\<open>update.rs\<close>): staged
    admission of the root-record import and of the trust-base update, with the gas each stage charges; the mandatory hooks.
  \<^item> \<open>Registry_Call\<close> and \<open>Registry_Transition\<close> (\<open>execution/src/lib.rs\<close>): the projection of an update onto call arguments, the
    checks on the parent state, the three privileged calls and the post-state check, as actions over a host state.
  \<^item> \<open>B1_Registry\<close>, \<open>B1_Cbor\<close>, \<open>Hash_Path\<close>, \<open>B1_Membership\<close>, \<open>B1_Certificate\<close>, \<open>B1_Claims\<close> (\<open>b1/src\<close>): the certificate kernel. The registry
    reader; the borrowed CBOR scan, shown to accept exactly the encodings of well-formed trees; authenticated paths as a
    locale, interpreted on the three tree formats of the kernel; membership; the claim parser and the hash relations.
  \<^item> \<open>B1_Batch\<close> (\<open>b1/src/batch.rs\<close>, \<open>provider.rs\<close>): the certificate batch. One scan of the request finds its claims, its
    distinct claims and seals, its dimensions and its price before any storage is read; the evaluation then reads each
    epoch in use once, folds each distinct claim, checks the slots and counts the quorum of each distinct seal; the two
    precompiles turn the result into an output, a halt or a fatal error. \<open>B1_Verdict\<close> proves that the shared work speaks for
    every occurrence (the verdict is the one of the plain specification \<open>batch_holds\<close>), that two quorums of one
    committee share signers of more than a third of the weight, and that the price covers the work.

  \<^bold>\<open>Parameters.\<close> SHA-256, Keccak-256, the curve's key check and signature recovery, the ABI encoders and the EVM are arguments of the
  definitions. What a theorem needs of them is a hypothesis of that theorem: that a call reports no more gas than it was given
  (\<open>metered\<close>, \<open>host_metered\<close>), for instance. No theorem assumes that a hash is injective: where a statement depends on it, its
  conclusion names two different preimages, out of the finite list the code hashed, with one image.

  \<^bold>\<open>Bounds and termination.\<close> Every loop of the modelled code is bounded by a list it walks, by a count it read, or by a depth
  it checks, so the definitions are total without fuel; the nested CBOR scan terminates by its depth bound of sixteen and
  the iteration over the children of an item by the bytes it consumes. Byte strings passed as slices have fewer than
  \<open>2 ^ 63\<close> bytes (\<open>slice\<close>), which the language guarantees.

  \<^bold>\<open>Panics and overflow.\<close> An \<open>expect\<close>, an unreachable branch or a checked operation that fails is a value of the
  model's error type, and where the source relies on it not happening, unreachability is proved. Unchecked arithmetic on words
  wraps, as in the release profile of the workspace, which has no overflow checks; the plain sum of \<open>required_system_gas\<close> in
  \<open>update.rs\<close> is one that can wrap. A model's counter that the source keeps at machine width but that a bound on the
  input keeps small (the item counter of the CBOR scan) is a natural number.

  \<^bold>\<open>Not modelled.\<close> The upstream client, which the extension calls as a library. Of the extension: the body of the block
  executor in \<open>block_executor.rs\<close> and the wiring of \<open>node_evm.rs\<close> and \<open>evm_factory.rs\<close>, which implement traits of the
  upstream EVM; the test-only gas measurement of \<open>b1_profile.rs\<close>; the B2 semantics kernel (\<open>b2\<close>) and the bridge composition over
  it (\<open>bridge\<close>), which no modelled part calls; the payload crate (job registry, recovery, pruning, RPC server, gossip, node
  assembly), which is shared state behind locks and asynchronous tasks; the binary; generated contract bytecode; tests.
\<close>

end
